(* ===== verification/KPrelude.thy ===== *)
theory KPrelude
imports Main "HOL-Library.Monad_Syntax" "HOL-Library.Word"
begin

text \<open>
  The vocabulary shared by the components of the Weenix kernel model.

  Kernel code that fails an assertion (\<^verbatim>\<open>KASSERT\<close>), panics, or follows a
  NULL pointer does not return: such code is modelled in the option monad and the
  value is \<^const>\<open>None\<close>.  A negative \<^verbatim>\<open>errno\<close> is an ordinary integer
  result inside \<^const>\<open>Some\<close>.  State is passed explicitly.
\<close>

named_theorems kernel_defs \<open>definitions unfolded by the component proofs\<close>
named_theorems frame_simps \<open>what an operation leaves alone\<close>

section \<open>Assertions\<close>

definition KASSERT :: "bool \<Rightarrow> unit option" where
  "KASSERT b = (if b then Some () else None)"

lemma KASSERT_bind [simp]: "(KASSERT b \<bind> f) = (if b then f () else None)"
  by (simp add: KASSERT_def)

lemma KASSERT_eq_Some [simp]: "KASSERT b = Some u \<longleftrightarrow> b"
  by (simp add: KASSERT_def)

lemma bind_Some_iff: "(m \<bind> f) = Some y \<longleftrightarrow> (\<exists>x. m = Some x \<and> f x = Some y)"
  by (cases m) auto

lemma bind_SomeE:
  assumes "(m \<bind> f) = Some y"
  obtains x where "m = Some x" and "f x = Some y"
  using assms by (cases m) auto

lemma if_None_eq_Some [simp]:
  "((if b then m else None) = Some y) \<longleftrightarrow> b \<and> m = Some y"
  "((if b then None else m) = Some y) \<longleftrightarrow> \<not> b \<and> m = Some y"
  by auto

section \<open>Error numbers\<close>

abbreviation (input) ENOENT :: int where "ENOENT \<equiv> 2"
abbreviation (input) EINTR :: int where "EINTR \<equiv> 4"
abbreviation (input) EBADF :: int where "EBADF \<equiv> 9"
abbreviation (input) ECHILD :: int where "ECHILD \<equiv> 10"
abbreviation (input) EAGAIN :: int where "EAGAIN \<equiv> 11"
abbreviation (input) ENOMEM :: int where "ENOMEM \<equiv> 12"
abbreviation (input) EACCES :: int where "EACCES \<equiv> 13"
abbreviation (input) EFAULT :: int where "EFAULT \<equiv> 14"
abbreviation (input) EBUSY :: int where "EBUSY \<equiv> 16"
abbreviation (input) EEXIST :: int where "EEXIST \<equiv> 17"
abbreviation (input) ENODEV :: int where "ENODEV \<equiv> 19"
abbreviation (input) ENOTDIR :: int where "ENOTDIR \<equiv> 20"
abbreviation (input) EISDIR :: int where "EISDIR \<equiv> 21"
abbreviation (input) EINVAL :: int where "EINVAL \<equiv> 22"
abbreviation (input) EMFILE :: int where "EMFILE \<equiv> 24"
abbreviation (input) ENOSPC :: int where "ENOSPC \<equiv> 28"
abbreviation (input) ENAMETOOLONG :: int where "ENAMETOOLONG \<equiv> 36"
abbreviation (input) ENOTEMPTY :: int where "ENOTEMPTY \<equiv> 39"
abbreviation (input) ENXIO :: int where "ENXIO \<equiv> 6"
abbreviation (input) ENOSYS :: int where "ENOSYS \<equiv> 38"
abbreviation (input) ENOTSUP :: int where "ENOTSUP \<equiv> 95"

section \<open>Lists and functions\<close>

lemma distinct_snoc [simp]: "distinct (xs @ [x]) \<longleftrightarrow> distinct xs \<and> x \<notin> set xs"
  by auto

lemma removeAll_filter: "removeAll x xs = filter (\<lambda>y. y \<noteq> x) xs"
  by (induction xs) auto

lemma length_remove1_int: "x \<in> set xs \<Longrightarrow> int (length (remove1 x xs)) = int (length xs) - 1"
  by (induction xs) auto

lemma zero_notin_pos: "(0 :: nat) \<notin> S \<Longrightarrow> x \<in> S \<Longrightarrow> 0 < x"
  by (metis neq0_conv)

lemma distinct_remove1_last:
  "\<lbrakk> distinct xs; xs \<noteq> [] \<rbrakk> \<Longrightarrow> remove1 (last xs) xs = butlast xs"
  by (induction xs rule: rev_induct) (auto simp: remove1_append)

section \<open>Loops over lists\<close>

fun foldM :: "('x \<Rightarrow> 's \<Rightarrow> 's option) \<Rightarrow> 'x list \<Rightarrow> 's \<Rightarrow> 's option" where
  "foldM f [] s = Some s"
| "foldM f (x # xs) s = do { s \<leftarrow> f x s; foldM f xs s }"

lemma foldM_append: "foldM f (xs @ ys) s = do { s \<leftarrow> foldM f xs s; foldM f ys s }"
  by (induction xs arbitrary: s) (auto split: bind_split)

lemma foldM_invariant:
  assumes "foldM f xs s = Some s'" and "P s"
    and "\<And>x s s'. \<lbrakk> x \<in> set xs; P s; f x s = Some s' \<rbrakk> \<Longrightarrow> P s'"
  shows "P s'"
  using assms by (induction xs arbitrary: s) (auto simp: bind_Some_iff)

section \<open>32-bit words\<close>

lemma mod_once:
  fixes x m :: int
  assumes "0 \<le> x" and "x < 2 * m"
  shows "x mod m = (if x < m then x else x - m)"
proof (cases "x < m")
  case False
  have "x mod m = (x - m) mod m" by simp
  also have "\<dots> = x - m" using False assms by (intro mod_pos_pos_trivial) simp_all
  finally show ?thesis using False by simp
qed (use assms in simp)

lemma uint32_bounds [simp]: "0 \<le> uint (w :: 32 word)" "uint (w :: 32 word) < 4294967296"
  using uint_lt2p [of w] by simp_all

lemma sint32: "sint (w :: 32 word) = (if uint w < 2147483648 then uint w else uint w - 4294967296)"
proof -
  have "sint w = (uint w + 2147483648) mod 4294967296 - 2147483648"
    by (simp add: sint_uint signed_take_bit_eq_take_bit_shift take_bit_eq_mod)
  also have "(uint w + 2147483648) mod 4294967296
      = (if uint w + 2147483648 < 4294967296 then uint w + 2147483648 else uint w + 2147483648 - 4294967296)"
    using uint32_bounds [of w] by (intro mod_once) linarith+
  finally show ?thesis by simp
qed

lemma uint_plus32:
  "uint (a + b :: 32 word) = (if uint a + uint b < 4294967296 then uint a + uint b else uint a + uint b - 4294967296)"
proof -
  have "uint (a + b) = (uint a + uint b) mod 4294967296" by (simp add: uint_word_ariths)
  also have "\<dots> = (if uint a + uint b < 4294967296 then uint a + uint b else uint a + uint b - 4294967296)"
    using uint32_bounds [of a] uint32_bounds [of b] by (intro mod_once) linarith+
  finally show ?thesis .
qed

lemma uint_minus32:
  "uint (a - b :: 32 word) = (if uint b \<le> uint a then uint a - uint b else uint a - uint b + 4294967296)"
proof -
  have "uint (a - b) = (uint a - uint b + 4294967296) mod 4294967296" by (simp add: uint_word_ariths)
  also have "\<dots> = (if uint a - uint b + 4294967296 < 4294967296 then uint a - uint b + 4294967296
      else uint a - uint b + 4294967296 - 4294967296)"
    using uint32_bounds [of a] uint32_bounds [of b] by (intro mod_once) linarith+
  finally show ?thesis by simp
qed

lemma uint32_of_int: "0 \<le> r \<Longrightarrow> r < 4294967296 \<Longrightarrow> uint (word_of_int r :: 32 word) = r"
  by (simp add: uint_word_of_int_eq take_bit_int_eq_self)

lemma sint32_of_int: "0 \<le> r \<Longrightarrow> r < 2147483648 \<Longrightarrow> sint (word_of_int r :: 32 word) = r"
  by (simp add: sint32 uint32_of_int)

lemmas word32_arith = word_less_def word_le_def uint_plus32 uint_minus32 sint32

section \<open>Bytes\<close>

text \<open>
  A buffer is a list of bytes.  Copying from or into it at an offset is \<^const>\<open>None\<close>
  when the copy runs over its end.
\<close>

type_synonym byte = "8 word"

definition copy_out :: "byte list \<Rightarrow> nat \<Rightarrow> nat \<Rightarrow> byte list option" where
  "copy_out page off n = (if off + n \<le> length page then Some (take n (drop off page)) else None)"

definition copy_in :: "byte list \<Rightarrow> nat \<Rightarrow> byte list \<Rightarrow> byte list option" where
  "copy_in page off bs =
     (if off + length bs \<le> length page then Some (take off page @ bs @ drop (off + length bs) page) else None)"

lemma copy_in_out:
  assumes "copy_in page off bs = Some page'"
  shows "copy_out page' off (length bs) = Some bs" and "length page' = length page"
  using assms by (auto simp: copy_in_def copy_out_def split: if_splits)

section \<open>Signed 32-bit arithmetic\<close>

text \<open>Signed overflow is undefined in C.\<close>

definition sadd32 :: "int \<Rightarrow> int \<Rightarrow> int option" where
  "sadd32 a b = (if - 2147483648 \<le> a + b \<and> a + b < 2147483648 then Some (a + b) else None)"

lemma sadd32_Some_iff [simp]:
  "sadd32 a b = Some c \<longleftrightarrow> c = a + b \<and> - 2147483648 \<le> c \<and> c < 2147483648"
  by (auto simp: sadd32_def)

section \<open>Searching an array\<close>

lemma find_first: "i < n \<Longrightarrow> P i \<Longrightarrow> (\<forall>j<i. \<not> P j) \<Longrightarrow> find P [0..<n] = Some i"
  by (auto simp: find_Some_iff simp del: upt_rec_numeral)

end
