(* ===== verification/KList.thy ===== *)
theory KList
imports KPrelude
begin

text \<open>
  The circular doubly linked lists of \<^verbatim>\<open>include/util/list.h\<close>, at the level of
  pointers: a heap maps addresses to link structures and 0 is NULL.  The macros are
  transcribed assignment by assignment; following or writing through NULL is
  \<^const>\<open>None\<close>.  The predicate \<^verbatim>\<open>is_list h l xs\<close> says that the
  links reachable from the anchor \<^verbatim>\<open>l\<close> are exactly \<^verbatim>\<open>xs\<close>, in
  order, with consistent back pointers; every macro is shown to implement the list
  operation it stands for.
\<close>

type_synonym addr = nat

abbreviation (input) NULL :: addr where "NULL \<equiv> 0"

record list_t =
  l_next :: addr
  l_prev :: addr

type_synonym lheap = "addr \<Rightarrow> list_t"

section \<open>Reading and writing through pointers\<close>

definition rd_next :: "lheap \<Rightarrow> addr \<Rightarrow> addr option" where
  "rd_next h p = (if p = NULL then None else Some (l_next (h p)))"

definition rd_prev :: "lheap \<Rightarrow> addr \<Rightarrow> addr option" where
  "rd_prev h p = (if p = NULL then None else Some (l_prev (h p)))"

definition wr_next :: "lheap \<Rightarrow> addr \<Rightarrow> addr \<Rightarrow> lheap option" where
  "wr_next h p v = (if p = NULL then None else Some (h(p := (h p)\<lparr>l_next := v\<rparr>)))"

definition wr_prev :: "lheap \<Rightarrow> addr \<Rightarrow> addr \<Rightarrow> lheap option" where
  "wr_prev h p v = (if p = NULL then None else Some (h(p := (h p)\<lparr>l_prev := v\<rparr>)))"

section \<open>The macros\<close>

definition list_link_init :: "lheap \<Rightarrow> addr \<Rightarrow> lheap option" where
  "list_link_init h link = do {
     h \<leftarrow> wr_prev h link NULL;
     wr_next h link NULL
   }"

definition list_link_is_linked :: "lheap \<Rightarrow> addr \<Rightarrow> bool option" where
  "list_link_is_linked h link = do {
     n \<leftarrow> rd_next h link;
     p \<leftarrow> rd_prev h link;
     Some (n \<noteq> NULL \<and> p \<noteq> NULL)
   }"

definition list_init :: "lheap \<Rightarrow> addr \<Rightarrow> lheap option" where
  "list_init h l = do {
     h \<leftarrow> wr_prev h l l;
     wr_next h l l
   }"

definition list_empty :: "lheap \<Rightarrow> addr \<Rightarrow> bool option" where
  "list_empty h l = do {
     n \<leftarrow> rd_next h l;
     Some (n = l)
   }"

definition list_insert_before :: "lheap \<Rightarrow> addr \<Rightarrow> addr \<Rightarrow> lheap option" where
  "list_insert_before h old new = do {
     h \<leftarrow> wr_next h new old;
     p \<leftarrow> rd_prev h old;
     h \<leftarrow> wr_prev h new p;
     p \<leftarrow> rd_prev h old;
     h \<leftarrow> wr_next h p new;
     wr_prev h old new
   }"

definition list_insert_head :: "lheap \<Rightarrow> addr \<Rightarrow> addr \<Rightarrow> lheap option" where
  "list_insert_head h l link = do {
     n \<leftarrow> rd_next h l;
     list_insert_before h n link
   }"

definition list_insert_tail :: "lheap \<Rightarrow> addr \<Rightarrow> addr \<Rightarrow> lheap option" where
  "list_insert_tail h l link = list_insert_before h l link"

definition list_remove :: "lheap \<Rightarrow> addr \<Rightarrow> lheap option" where
  "list_remove h link = do {
     p \<leftarrow> rd_prev h link;
     n \<leftarrow> rd_next h link;
     h \<leftarrow> wr_next h p n;
     h \<leftarrow> wr_prev h n p;
     h \<leftarrow> wr_prev h link NULL;
     wr_next h link NULL
   }"

definition list_remove_head :: "lheap \<Rightarrow> addr \<Rightarrow> lheap option" where
  "list_remove_head h l = do {
     n \<leftarrow> rd_next h l;
     list_remove h n
   }"

definition list_remove_tail :: "lheap \<Rightarrow> addr \<Rightarrow> lheap option" where
  "list_remove_tail h l = do {
     p \<leftarrow> rd_prev h l;
     list_remove h p
   }"

text \<open>
  \<^verbatim>\<open>list_iterate_begin\<close> \ldots \<^verbatim>\<open>list_iterate_end\<close> with loop body
  \<^verbatim>\<open>body\<close>: the successor is read before the body runs.  The loop follows pointers
  the body may change, so it carries fuel; running out of it is \<^const>\<open>None\<close>.
\<close>

fun list_iterate_loop ::
  "nat \<Rightarrow> addr \<Rightarrow> addr \<Rightarrow> (addr \<Rightarrow> lheap \<times> 's \<Rightarrow> (lheap \<times> 's) option)
    \<Rightarrow> lheap \<times> 's \<Rightarrow> (lheap \<times> 's) option" where
  "list_iterate_loop 0 l link body st = None"
| "list_iterate_loop (Suc n) l link body st =
    (if link = l then Some st
     else do {
       next \<leftarrow> rd_next (fst st) link;
       st \<leftarrow> body link st;
       list_iterate_loop n l next body st
     })"

definition list_iterate ::
  "nat \<Rightarrow> addr \<Rightarrow> (addr \<Rightarrow> lheap \<times> 's \<Rightarrow> (lheap \<times> 's) option)
    \<Rightarrow> lheap \<times> 's \<Rightarrow> (lheap \<times> 's) option" where
  "list_iterate n l body st = do {
     first \<leftarrow> rd_next (fst st) l;
     list_iterate_loop n l first body st
   }"

fun list_iterate_reverse_loop ::
  "nat \<Rightarrow> addr \<Rightarrow> addr \<Rightarrow> (addr \<Rightarrow> lheap \<times> 's \<Rightarrow> (lheap \<times> 's) option)
    \<Rightarrow> lheap \<times> 's \<Rightarrow> (lheap \<times> 's) option" where
  "list_iterate_reverse_loop 0 l link body st = None"
| "list_iterate_reverse_loop (Suc n) l link body st =
    (if link = l then Some st
     else do {
       prev \<leftarrow> rd_prev (fst st) link;
       st \<leftarrow> body link st;
       list_iterate_reverse_loop n l prev body st
     })"

definition list_iterate_reverse ::
  "nat \<Rightarrow> addr \<Rightarrow> (addr \<Rightarrow> lheap \<times> 's \<Rightarrow> (lheap \<times> 's) option)
    \<Rightarrow> lheap \<times> 's \<Rightarrow> (lheap \<times> 's) option" where
  "list_iterate_reverse n l body st = do {
     last \<leftarrow> rd_prev (fst st) l;
     list_iterate_reverse_loop n l last body st
   }"

lemmas list_h_defs =
  rd_next_def rd_prev_def wr_next_def wr_prev_def
  list_link_init_def list_link_is_linked_def list_init_def list_empty_def
  list_insert_before_def list_insert_head_def list_insert_tail_def
  list_remove_def list_remove_head_def list_remove_tail_def

section \<open>The abstraction\<close>

fun chain :: "lheap \<Rightarrow> addr \<Rightarrow> addr list \<Rightarrow> addr \<Rightarrow> bool" where
  "chain h a [] b \<longleftrightarrow> l_next (h a) = b \<and> l_prev (h b) = a"
| "chain h a (x # xs) b \<longleftrightarrow> l_next (h a) = x \<and> l_prev (h x) = a \<and> chain h x xs b"

definition is_list :: "lheap \<Rightarrow> addr \<Rightarrow> addr list \<Rightarrow> bool" where
  "is_list h l xs \<longleftrightarrow> distinct (l # xs) \<and> NULL \<notin> set (l # xs) \<and> chain h l xs l"

lemma chain_append:
  "chain h a (xs @ y # ys) b \<longleftrightarrow> chain h a xs y \<and> chain h y ys b"
  by (induction xs arbitrary: a) auto

lemma chain_cong:
  "\<lbrakk> \<And>p. p \<in> set (a # xs) \<Longrightarrow> l_next (h' p) = l_next (h p);
     \<And>p. p \<in> set (b # xs) \<Longrightarrow> l_prev (h' p) = l_prev (h p) \<rbrakk>
   \<Longrightarrow> chain h' a xs b = chain h a xs b"
  by (induction xs arbitrary: a) auto

lemma chain_next: "chain h a xs b \<Longrightarrow> l_next (h a) = (case xs of [] \<Rightarrow> b | x # _ \<Rightarrow> x)"
  by (cases xs) auto

lemma chain_prev: "chain h a xs b \<Longrightarrow> l_prev (h b) = (if xs = [] then a else last xs)"
  by (induction xs arbitrary: a) auto

lemma chain_retarget:
  "\<lbrakk> chain h a xs b;
     \<And>p. p \<in> set (butlast (a # xs)) \<Longrightarrow> l_next (h' p) = l_next (h p);
     \<And>p. p \<in> set xs \<Longrightarrow> l_prev (h' p) = l_prev (h p);
     l_next (h' (last (a # xs))) = b'; l_prev (h' b') = last (a # xs) \<rbrakk>
   \<Longrightarrow> chain h' a xs b'"
  by (induction xs arbitrary: a) auto

lemma last_notin_butlast: "distinct xs \<Longrightarrow> xs \<noteq> [] \<Longrightarrow> last xs \<notin> set (butlast xs)"
  by (metis append_butlast_last_id distinct_snoc)

lemma is_listD:
  assumes "is_list h l xs"
  shows "distinct (l # xs)" "NULL \<notin> set (l # xs)" "chain h l xs l" "l \<noteq> NULL"
  using assms by (auto simp: is_list_def)

lemma is_list_frame:
  "\<lbrakk> is_list h l xs; \<And>p. p \<in> set (l # xs) \<Longrightarrow> h' p = h p \<rbrakk> \<Longrightarrow> is_list h' l xs"
  using chain_cong [of l xs h' h l] by (auto simp: is_list_def)

section \<open>The macros implement the list operations\<close>

lemma list_init_correct:
  "l \<noteq> NULL \<Longrightarrow> \<exists>h'. list_init h l = Some h' \<and> is_list h' l [] \<and> (\<forall>p. p \<noteq> l \<longrightarrow> h' p = h p)"
  by (simp add: list_h_defs is_list_def)

lemma list_empty_correct: "is_list h l xs \<Longrightarrow> list_empty h l = Some (xs = [])"
  by (cases xs) (auto simp: list_h_defs is_list_def)

lemma list_linked_correct:
  assumes "is_list h l xs" and "x \<in> set xs"
  shows "list_link_is_linked h x = Some True"
proof -
  from assms(2) obtain as bs where xs: "xs = as @ x # bs" by (meson split_list)
  have ch: "chain h l as x" "chain h x bs l"
    using is_listD(3) [OF assms(1)] by (auto simp: xs chain_append)
  have "l_next (h x) \<in> set (l # xs)" "l_prev (h x) \<in> set (l # xs)"
    using chain_next [OF ch(2)] chain_prev [OF ch(1)] by (auto simp: xs split: list.splits)
  moreover have "x \<in> set (l # xs)" using assms(2) by simp
  ultimately have "0 < l_next (h x)" "0 < l_prev (h x)" "0 < x"
    using zero_notin_pos [OF is_listD(2) [OF assms(1)]] by blast+
  then show ?thesis by (simp add: list_link_is_linked_def rd_next_def rd_prev_def)
qed

text \<open>
  Both updates of the ring replace the link between a node and its successor; what
  they need of the ring around it is gathered once.
\<close>

lemma is_list_split:
  assumes L: "is_list h l (xs @ ys)"
  obtains p n where "p = last (l # xs)" and "n = (case ys of [] \<Rightarrow> l | y # _ \<Rightarrow> y)"
    and "chain h l xs n" and "l_prev (h n) = p" and "l_next (h p) = n"
    and "p \<in> set (l # xs)" and "n \<in> set (l # ys)" and "n \<notin> set xs" and "p \<notin> set ys"
    and "p \<noteq> NULL" and "n \<noteq> NULL" and "p \<notin> set (butlast (l # xs))"
proof -
  define p where "p = last (l # xs)"
  define n where "n = (case ys of [] \<Rightarrow> l | y # _ \<Rightarrow> y)"
  have d: "distinct (l # xs @ ys)" and nn: "NULL \<notin> set (l # xs @ ys)"
    using is_listD [OF L] by auto
  have ch: "chain h l xs n"
    using is_listD(3) [OF L] by (cases ys) (auto simp: n_def chain_append)
  have pr: "l_prev (h n) = p" using chain_prev [OF ch] by (simp add: p_def)
  have nx: "l_next (h p) = n" using ch unfolding p_def by (induction xs arbitrary: l) auto
  have pin: "p \<in> set (l # xs)" by (simp add: p_def)
  have nin: "n \<in> set (l # ys)" "n \<notin> set xs" using d by (auto simp: n_def split: list.splits)
  have "set (l # xs) \<inter> set ys = {}" using d by auto
  then have pys: "p \<notin> set ys" using pin by blast
  have "p \<in> set (l # xs @ ys)" "n \<in> set (l # xs @ ys)" using pin nin by auto
  then have "p \<noteq> NULL" "n \<noteq> NULL" using nn by metis+
  moreover have "p \<notin> set (butlast (l # xs))"
    using d last_notin_butlast [of "l # xs"] by (simp add: p_def)
  ultimately show thesis using that p_def n_def ch pr nx pin nin pys by blast
qed

lemma list_insert_before_correct:
  assumes L: "is_list h l (xs @ ys)" and new: "new \<notin> set (l # xs @ ys)" "new \<noteq> NULL"
  shows "\<exists>h'. list_insert_before h (case ys of [] \<Rightarrow> l | y # _ \<Rightarrow> y) new = Some h'
            \<and> is_list h' l (xs @ new # ys)
            \<and> (\<forall>p. p \<notin> set (new # l # xs @ ys) \<longrightarrow> h' p = h p)"
proof -
  obtain p n where p: "p = last (l # xs)" and n: "n = (case ys of [] \<Rightarrow> l | y # _ \<Rightarrow> y)"
    and ch: "chain h l xs n" and pr: "l_prev (h n) = p" and "l_next (h p) = n"
    and pin: "p \<in> set (l # xs)" and nin: "n \<in> set (l # ys)" "n \<notin> set xs"
    and pys: "p \<notin> set ys" and nz: "p \<noteq> NULL" "n \<noteq> NULL" and pb: "p \<notin> set (butlast (l # xs))"
    by (rule is_list_split [OF L])
  have d: "distinct (l # xs @ ys)" and nn: "NULL \<notin> set (l # xs @ ys)"
    using is_listD [OF L] by auto
  have ne: "n \<noteq> new" "p \<noteq> new" using new pin nin by auto
  define h' where "h' = (\<lambda>q. if q = new then (h q)\<lparr>l_next := n, l_prev := p\<rparr> else
     (h q)\<lparr>l_next := (if q = p then new else l_next (h q)),
           l_prev := (if q = n then new else l_prev (h q))\<rparr>)"
  have run: "list_insert_before h n new = Some h'"
    using ne nz new(2) pr by (simp add: list_h_defs h'_def fun_eq_iff)
  have nx': "l_next (h' q) = (if q = new then n else if q = p then new else l_next (h q))"
    and pr': "l_prev (h' q) = (if q = new then p else if q = n then new else l_prev (h q))" for q
    by (auto simp: h'_def)
  have c1: "chain h' l xs new"
    using ch by (rule chain_retarget)
      (use pb nin new ne in \<open>auto simp: nx' pr' p [symmetric] simp del: last.simps butlast.simps
         dest: in_set_butlastD\<close>)
  have c2: "chain h' new ys l"
  proof (cases ys)
    case Nil
    then show ?thesis using ne n by (simp add: nx' pr')
  next
    case (Cons y zs)
    have "chain h y zs l" using is_listD(3) [OF L] by (auto simp: Cons chain_append)
    moreover have "chain h' y zs l = chain h y zs l"
      using d new pys n by (intro chain_cong) (auto simp: Cons nx' pr')
    ultimately show ?thesis using ne n by (simp add: Cons nx' pr')
  qed
  have "is_list h' l (xs @ new # ys)" using c1 c2 d nn new by (auto simp: is_list_def chain_append)
  moreover have "\<forall>q. q \<notin> set (new # l # xs @ ys) \<longrightarrow> h' q = h q"
    using nin pin by (auto simp: h'_def)
  ultimately show ?thesis using run n by blast
qed

lemma list_remove_correct:
  assumes L: "is_list h l (xs @ x # ys)"
  shows "\<exists>h'. list_remove h x = Some h' \<and> is_list h' l (xs @ ys)
            \<and> h' x = \<lparr>l_next = NULL, l_prev = NULL\<rparr>
            \<and> (\<forall>p. p \<notin> set (l # xs @ x # ys) \<longrightarrow> h' p = h p)"
proof -
  have d: "distinct (l # xs @ x # ys)" and nn: "NULL \<notin> set (l # xs @ x # ys)"
    and c: "chain h l xs x" "chain h x ys l"
    using is_listD [OF L] by (auto simp: chain_append)
  obtain p x' where p: "p = last (l # xs)" and x': "x' = (case x # ys of [] \<Rightarrow> l | y # _ \<Rightarrow> y)"
    and "chain h l xs x'" and pr: "l_prev (h x') = p" and "l_next (h p) = x'"
    and pin: "p \<in> set (l # xs)" and "x' \<in> set (l # x # ys)" "x' \<notin> set xs"
    and pys: "p \<notin> set (x # ys)" and pz: "p \<noteq> NULL" "x' \<noteq> NULL"
    and pb: "p \<notin> set (butlast (l # xs))"
    by (rule is_list_split [OF L])
  have pr: "l_prev (h x) = p" and xz: "x \<noteq> NULL" using pr pz(2) x' by auto
  obtain n where n: "n = (case ys of [] \<Rightarrow> l | y # _ \<Rightarrow> y)" and nx: "l_next (h x) = n"
    using chain_next [OF c(2)] by blast
  have nin: "n \<in> set (l # ys)" "n \<notin> set xs" "n \<noteq> x" "n \<noteq> NULL"
    using d nn by (cases ys; simp add: n)+
  define h' where "h' = (\<lambda>q. if q = x then (h q)\<lparr>l_next := NULL, l_prev := NULL\<rparr> else
     (h q)\<lparr>l_next := (if q = p then n else l_next (h q)),
           l_prev := (if q = n then p else l_prev (h q))\<rparr>)"
  have run: "list_remove h x = Some h'"
    using xz nin(3,4) pys pz(1) pr nx by (simp add: list_h_defs h'_def fun_eq_iff)
  have nx': "l_next (h' q) = (if q = x then NULL else if q = p then n else l_next (h q))"
    and pr': "l_prev (h' q) = (if q = x then NULL else if q = n then p else l_prev (h q))" for q
    by (auto simp: h'_def)
  have c1: "chain h' l xs n"
    using c(1) by (rule chain_retarget)
      (use pb nin pys d in \<open>auto simp: nx' pr' p [symmetric] simp del: last.simps butlast.simps
         dest: in_set_butlastD\<close>)
  have "chain h' l (xs @ ys) l"
  proof (cases ys)
    case Nil then show ?thesis using c1 n by simp
  next
    case (Cons y zs)
    have "chain h' y zs l = chain h y zs l"
      using d pys n by (intro chain_cong) (auto simp: Cons nx' pr')
    then show ?thesis using c1 n c(2) by (simp add: Cons chain_append)
  qed
  then have "is_list h' l (xs @ ys)" using d nn by (auto simp: is_list_def)
  moreover have "\<forall>q. q \<notin> set (l # xs @ x # ys) \<longrightarrow> h' q = h q" using nin pin by (auto simp: h'_def)
  ultimately show ?thesis using run by (auto simp: h'_def)
qed

lemma list_insert_head_correct:
  assumes "is_list h l xs" and "x \<notin> set (l # xs)" and "x \<noteq> NULL"
  shows "\<exists>h'. list_insert_head h l x = Some h' \<and> is_list h' l (x # xs)
            \<and> (\<forall>p. p \<notin> set (x # l # xs) \<longrightarrow> h' p = h p)"
proof -
  have "rd_next h l = Some (case xs of [] \<Rightarrow> l | y # _ \<Rightarrow> y)"
    using is_listD [OF assms(1)] chain_next [of h l xs l] by (simp add: rd_next_def)
  then show ?thesis
    using list_insert_before_correct [of h l "[]" xs x] assms by (simp add: list_insert_head_def)
qed

lemma list_insert_tail_correct:
  assumes "is_list h l xs" and "x \<notin> set (l # xs)" and "x \<noteq> NULL"
  shows "\<exists>h'. list_insert_tail h l x = Some h' \<and> is_list h' l (xs @ [x])
            \<and> (\<forall>p. p \<notin> set (x # l # xs) \<longrightarrow> h' p = h p)"
  using list_insert_before_correct [of h l xs "[]" x] assms by (simp add: list_insert_tail_def)

lemma list_remove_head_correct:
  assumes "is_list h l (x # xs)"
  shows "\<exists>h'. list_remove_head h l = Some h' \<and> is_list h' l xs"
  using list_remove_correct [of h l "[]" x xs] assms is_listD [OF assms]
  by (auto simp: list_remove_head_def rd_next_def)

lemma list_remove_tail_correct:
  assumes "is_list h l (xs @ [x])"
  shows "\<exists>h'. list_remove_tail h l = Some h' \<and> is_list h' l xs"
  using list_remove_correct [of h l xs x "[]"] assms is_listD [OF assms]
    chain_prev [of h l "xs @ [x]" l]
  by (auto simp: list_remove_tail_def rd_prev_def)

section \<open>Iteration\<close>

text \<open>
  A loop body that keeps the list or removes only the current link sees every element
  once, in order, and the loop ends with one unit of fuel more than the list is long.
\<close>

definition visit_body :: "(addr \<Rightarrow> bool) \<Rightarrow> addr \<Rightarrow> lheap \<times> addr list \<Rightarrow> (lheap \<times> addr list) option" where
  "visit_body rm x st =
     (if rm x then do { h \<leftarrow> list_remove (fst st) x; Some (h, snd st @ [x]) }
      else Some (fst st, snd st @ [x]))"

lemma visit_body_correct:
  assumes "is_list h l (ks @ x # xs)"
  shows "\<exists>h1. visit_body rm x (h, vs) = Some (h1, vs @ [x])
             \<and> is_list h1 l (if rm x then ks @ xs else ks @ x # xs)"
  using list_remove_correct [OF assms] assms by (cases "rm x") (auto simp: visit_body_def)

lemma is_list_rd_next:
  assumes "is_list h l (ks @ x # xs)"
  shows "rd_next h x = Some (case xs of [] \<Rightarrow> l | y # _ \<Rightarrow> y)"
  using is_listD [OF assms] chain_next [of h x xs l] by (auto simp: chain_append rd_next_def)

lemma list_iterate_loop_visit:
  assumes "is_list h l (ks @ xs)"
  shows "\<exists>h'. list_iterate_loop (Suc (length xs)) l (case xs of [] \<Rightarrow> l | y # _ \<Rightarrow> y) (visit_body rm) (h, vs)
               = Some (h', vs @ xs)
            \<and> is_list h' l (ks @ filter (\<lambda>x. \<not> rm x) xs)"
  using assms
proof (induction xs arbitrary: h ks vs)
  case Nil
  then show ?case by simp
next
  case (Cons x xs)
  have xl: "x \<noteq> l" using is_listD(1) [OF Cons.prems] by auto
  obtain h1 where h1: "visit_body rm x (h, vs) = Some (h1, vs @ [x])"
    and L1: "is_list h1 l ((if rm x then ks else ks @ [x]) @ xs)"
    using visit_body_correct [OF Cons.prems, of rm vs] by (cases "rm x") auto
  from Cons.IH [OF L1, of "vs @ [x]"] show ?case
    using xl h1 is_list_rd_next [OF Cons.prems] by (auto split: if_splits)
qed

lemma list_iterate_visit:
  assumes "is_list h l xs"
  shows "\<exists>h'. list_iterate (Suc (length xs)) l (visit_body rm) (h, []) = Some (h', xs)
            \<and> is_list h' l (filter (\<lambda>x. \<not> rm x) xs)"
proof -
  have "rd_next h l = Some (case xs of [] \<Rightarrow> l | y # _ \<Rightarrow> y)"
    using is_listD [OF assms] chain_next [of h l xs l] by (simp add: rd_next_def)
  then show ?thesis
    using list_iterate_loop_visit [of h l "[]" xs rm "[]"] assms by (simp add: list_iterate_def)
qed

lemma is_list_rd_prev:
  assumes "is_list h l (xs @ x # ks)"
  shows "rd_prev h x = Some (last (l # xs))"
  using is_listD [OF assms] chain_prev [of h l xs x] by (auto simp: chain_append rd_prev_def)

lemma list_iterate_reverse_loop_visit:
  assumes "is_list h l (xs @ ks)"
  shows "\<exists>h'. list_iterate_reverse_loop (Suc (length xs)) l (last (l # xs)) (visit_body rm) (h, vs)
               = Some (h', vs @ rev xs)
            \<and> is_list h' l (filter (\<lambda>x. \<not> rm x) xs @ ks)"
  using assms
proof (induction xs arbitrary: h ks vs rule: rev_induct)
  case Nil
  then show ?case by simp
next
  case (snoc x xs)
  have L: "is_list h l (xs @ x # ks)" using snoc.prems by simp
  have xl: "x \<noteq> l" using is_listD(1) [OF L] by auto
  obtain h1 where h1: "visit_body rm x (h, vs) = Some (h1, vs @ [x])"
    and L1: "is_list h1 l (xs @ (if rm x then ks else x # ks))"
    using visit_body_correct [OF L, of rm vs] by (cases "rm x") auto
  have lx: "last (l # xs @ [x]) = x" by simp
  have "list_iterate_reverse_loop (Suc (Suc (length xs))) l x (visit_body rm) (h, vs)
      = list_iterate_reverse_loop (Suc (length xs)) l (last (l # xs)) (visit_body rm) (h1, vs @ [x])"
    using xl h1 is_list_rd_prev [OF L] by (simp del: last.simps)
  with snoc.IH [OF L1, of "vs @ [x]"] show ?case
    by (cases "rm x") (simp_all only: lx length_append_singleton, simp_all)
qed

section \<open>The list interface\<close>

text \<open>
  What the clients of \<^verbatim>\<open>list.h\<close> use: the list an anchor holds, insertion at the
  head, the tail link, and removal of a link from whatever list it is on.
\<close>

locale ring =
  fixes rep :: "'h \<Rightarrow> nat \<Rightarrow> nat list \<Rightarrow> bool"
    and setup_ring :: "'h \<Rightarrow> nat \<Rightarrow> 'h option"
    and empty_ring :: "'h \<Rightarrow> nat \<Rightarrow> bool option"
    and push :: "'h \<Rightarrow> nat \<Rightarrow> nat \<Rightarrow> 'h option"
    and tail :: "'h \<Rightarrow> nat \<Rightarrow> nat option"
    and unlink :: "'h \<Rightarrow> nat \<Rightarrow> 'h option"
  assumes rep_distinct: "rep h l xs \<Longrightarrow> distinct (l # xs) \<and> 0 \<notin> set (l # xs)"
    and empty_law: "rep h l xs \<Longrightarrow> empty_ring h l = Some (xs = [])"
    and setup_law: "\<lbrakk> l \<noteq> 0; \<And>m. m \<in> M \<Longrightarrow> rep h m (X m) \<and> l \<notin> set (m # X m) \<rbrakk>
      \<Longrightarrow> \<exists>h'. setup_ring h l = Some h' \<and> rep h' l [] \<and> (\<forall>m \<in> M. rep h' m (X m))"
    and push_law: "\<lbrakk> rep h l xs; x \<notin> set (l # xs); x \<noteq> 0;
        \<And>m. m \<in> M \<Longrightarrow> rep h m (X m) \<and> set (m # X m) \<inter> set (x # l # xs) = {} \<rbrakk>
      \<Longrightarrow> \<exists>h'. push h l x = Some h' \<and> rep h' l (x # xs) \<and> (\<forall>m \<in> M. rep h' m (X m))"
    and tail_law: "\<lbrakk> rep h l xs; xs \<noteq> [] \<rbrakk> \<Longrightarrow> tail h l = Some (last xs)"
    and unlink_law: "\<lbrakk> rep h l xs; x \<in> set xs;
        \<And>m. m \<in> M \<Longrightarrow> rep h m (X m) \<and> set (m # X m) \<inter> set (l # xs) = {} \<rbrakk>
      \<Longrightarrow> \<exists>h'. unlink h x = Some h' \<and> rep h' l (remove1 x xs) \<and> (\<forall>m \<in> M. rep h' m (X m))"
begin

definition pop_tail :: "'h \<Rightarrow> nat \<Rightarrow> ('h \<times> nat) option" where
  "pop_tail h l = tail h l \<bind> (\<lambda>x. unlink h x \<bind> (\<lambda>h'. Some (h', x)))"

lemma pop_tail_last:
  assumes "rep h l xs" and "xs \<noteq> []"
    and "\<And>m. m \<in> M \<Longrightarrow> rep h m (X m) \<and> set (m # X m) \<inter> set (l # xs) = {}"
  shows "\<exists>h'. pop_tail h l = Some (h', last xs) \<and> rep h' l (butlast xs) \<and> (\<forall>m \<in> M. rep h' m (X m))"
proof -
  have d: "distinct xs" using rep_distinct [OF assms(1)] by simp
  have "last xs \<in> set xs" using assms(2) by simp
  from unlink_law [OF assms(1) this assms(3)] obtain h' where
    "unlink h (last xs) = Some h'" "rep h' l (remove1 (last xs) xs)" "\<forall>m \<in> M. rep h' m (X m)"
    by blast
  then show ?thesis
    using tail_law [OF assms(1,2)] distinct_remove1_last [OF d assms(2)] by (simp add: pop_tail_def)
qed

text \<open>Links pushed at the head leave at the tail in the order they came.\<close>

lemma push_pop_fifo:
  assumes "rep h l xs" and "x \<notin> set (l # xs)" and "x \<noteq> 0"
  shows "\<exists>h1 h2. push h l x = Some h1 \<and> pop_tail h1 l = Some (h2, last (x # xs))
           \<and> rep h2 l (butlast (x # xs))"
proof -
  from push_law [OF assms, where M = "{}"] obtain h1 where h1: "push h l x = Some h1" "rep h1 l (x # xs)"
    by auto
  from pop_tail_last [OF h1(2), where M = "{}"] show ?thesis using h1(1) by auto
qed

end

interpretation lr: ring is_list list_init list_empty list_insert_head rd_prev list_remove
proof
  fix h l xs assume "is_list h l xs"
  then show "distinct (l # xs) \<and> NULL \<notin> set (l # xs)" by (simp add: is_list_def)
next
  fix h l xs assume "is_list h l xs"
  then show "list_empty h l = Some (xs = [])" by (rule list_empty_correct)
next
  fix h l M X assume l: "l \<noteq> NULL" and M: "\<And>m. m \<in> M \<Longrightarrow> is_list h m (X m) \<and> l \<notin> set (m # X m)"
  from list_init_correct [OF l] obtain h' where
    h': "list_init h l = Some h'" "is_list h' l []" "\<forall>p. p \<noteq> l \<longrightarrow> h' p = h p" by blast
  have "is_list h' m (X m)" if "m \<in> M" for m
    using M [OF that] h'(3) by (intro is_list_frame [of h m "X m" h']) auto
  with h' show "\<exists>h'. list_init h l = Some h' \<and> is_list h' l [] \<and> (\<forall>m\<in>M. is_list h' m (X m))" by blast
next
  fix h l xs x M X
  assume L: "is_list h l xs" "x \<notin> set (l # xs)" "x \<noteq> NULL"
    and M: "\<And>m. m \<in> M \<Longrightarrow> is_list h m (X m) \<and> set (m # X m) \<inter> set (x # l # xs) = {}"
  from list_insert_head_correct [OF L] obtain h' where
    h': "list_insert_head h l x = Some h'" "is_list h' l (x # xs)"
      "\<forall>p. p \<notin> set (x # l # xs) \<longrightarrow> h' p = h p" by blast
  have "is_list h' m (X m)" if "m \<in> M" for m
    using M [OF that] h'(3) by (intro is_list_frame [of h m "X m" h']) blast+
  with h' show "\<exists>h'. list_insert_head h l x = Some h' \<and> is_list h' l (x # xs) \<and> (\<forall>m\<in>M. is_list h' m (X m))"
    by blast
next
  fix h l and xs :: "nat list" assume "is_list h l xs" "xs \<noteq> []"
  then show "rd_prev h l = Some (last xs)"
    using is_listD [of h l xs] chain_prev [of h l xs l] by (simp add: rd_prev_def)
next
  fix h l xs x M X
  assume L: "is_list h l xs" and x: "x \<in> set xs"
    and M: "\<And>m. m \<in> M \<Longrightarrow> is_list h m (X m) \<and> set (m # X m) \<inter> set (l # xs) = {}"
  from x obtain as bs where xs: "xs = as @ x # bs" "x \<notin> set as" by (meson split_list_first)
  from list_remove_correct [of h l as x bs] L obtain h' where
    h': "list_remove h x = Some h'" "is_list h' l (as @ bs)"
      "\<forall>p. p \<notin> set (l # xs) \<longrightarrow> h' p = h p" unfolding xs by blast
  have "is_list h' m (X m)" if "m \<in> M" for m
    using M [OF that] h'(3) by (intro is_list_frame [of h m "X m" h']) blast+
  with h' xs show "\<exists>h'. list_remove h x = Some h' \<and> is_list h' l (remove1 x xs) \<and> (\<forall>m\<in>M. is_list h' m (X m))"
    by (auto simp: remove1_append)
qed

section \<open>Properties\<close>

text \<open>
  C4. Iterating with \<^verbatim>\<open>list_iterate_begin\<close> over a well-formed list, with a body
  that removes the current link whenever it likes, visits every link exactly once in
  list order, ends, and leaves exactly the links that were not removed, as the header
  comment of \<^verbatim>\<open>list.h\<close> promises.
\<close>

theorem list_iterate_removal:
  assumes "is_list h l xs"
  shows "\<exists>h'. list_iterate (Suc (length xs)) l (visit_body rm) (h, []) = Some (h', xs)
            \<and> is_list h' l (filter (\<lambda>x. \<not> rm x) xs)"
  using assms by (rule list_iterate_visit)

definition ring3 :: lheap where
  "ring3 p = (if p = 1 then \<lparr>l_next = 2, l_prev = 4\<rparr> else if p = 2 then \<lparr>l_next = 3, l_prev = 1\<rparr>
     else if p = 3 then \<lparr>l_next = 4, l_prev = 2\<rparr> else if p = 4 then \<lparr>l_next = 1, l_prev = 3\<rparr>
     else \<lparr>l_next = NULL, l_prev = NULL\<rparr>)"

theorem list_iterate_removal_witness:
  "is_list ring3 1 [2, 3, 4] \<and>
   (\<exists>h'. list_iterate 4 1 (visit_body (\<lambda>x. x = 3)) (ring3, []) = Some (h', [2, 3, 4]) \<and> is_list h' 1 [2, 4])"
proof -
  have l: "is_list ring3 1 [2, 3, 4]" by (simp add: is_list_def ring3_def)
  have "filter (\<lambda>x. \<not> x = 3) [2, 3, 4] = [2, 4 :: nat]" "Suc (length [2, 3, 4 :: nat]) = 4" by simp_all
  with list_iterate_removal [OF l, of "\<lambda>x. x = 3"] l show ?thesis by metis
qed

text \<open>
  C11. Insertion before a link of a ring followed by removal of the inserted link gives
  back the old list, and every other link of the heap is as it was.
\<close>

theorem list_insert_remove:
  assumes "is_list h l (xs @ ys)" and "new \<notin> set (l # xs @ ys)" and "new \<noteq> NULL"
  shows "\<exists>h1 h2. list_insert_before h (case ys of [] \<Rightarrow> l | y # _ \<Rightarrow> y) new = Some h1
      \<and> is_list h1 l (xs @ new # ys) \<and> list_remove h1 new = Some h2 \<and> is_list h2 l (xs @ ys)
      \<and> list_link_is_linked h1 new = Some True \<and> list_link_is_linked h2 new = Some False
      \<and> (\<forall>p. p \<notin> set (new # l # xs @ ys) \<longrightarrow> h2 p = h p)"
proof -
  obtain h1 where h1: "list_insert_before h (case ys of [] \<Rightarrow> l | y # _ \<Rightarrow> y) new = Some h1"
    "is_list h1 l (xs @ new # ys)" "\<forall>p. p \<notin> set (new # l # xs @ ys) \<longrightarrow> h1 p = h p"
    using list_insert_before_correct [OF assms] by blast
  obtain h2 where h2: "list_remove h1 new = Some h2" "is_list h2 l (xs @ ys)"
    "h2 new = \<lparr>l_next = NULL, l_prev = NULL\<rparr>" "\<forall>p. p \<notin> set (l # xs @ new # ys) \<longrightarrow> h2 p = h1 p"
    using list_remove_correct [OF h1(2)] by blast
  have "list_link_is_linked h1 new = Some True" using list_linked_correct [OF h1(2)] by simp
  moreover have "list_link_is_linked h2 new = Some False"
    using h2(3) assms(3) by (simp add: list_link_is_linked_def rd_next_def rd_prev_def)
  ultimately show ?thesis using h1 h2 by auto
qed

theorem list_insert_remove_witness:
  "\<exists>h1 h2. list_insert_before ring3 3 7 = Some h1 \<and> is_list h1 1 [2, 7, 3, 4]
     \<and> list_remove h1 7 = Some h2 \<and> is_list h2 1 [2, 3, 4]"
proof -
  have "is_list ring3 1 ([2] @ [3, 4])" by (simp add: is_list_def ring3_def)
  from list_insert_remove [OF this, of 7] show ?thesis by auto
qed

end
