(* ===== verification/Sched.thy ===== *)
theory Sched
imports KPrelude
begin

text \<open>
  The thread scheduler of \<^verbatim>\<open>proc/sched.c\<close>: thread queues, sleeping, waking,
  cancelling and switching.  Queues are lists of thread identifiers in the order of
  the links from the anchor (theory \<^verbatim>\<open>Ktqueue\<close> shows that the pointer code of
  \<^verbatim>\<open>list.h\<close> implements them).  Threads, processes and mutexes are named by natural
  numbers, a NULL pointer to one is \<^const>\<open>None\<close>.

  A context switch leaves the running thread inside the call it made; its
  \<^verbatim>\<open>kt_ctx\<close> records where it will resume and the interrupt level that call
  saved.  Interrupts that arrive while the processor waits with an empty run queue are
  an explicit list; a machine that waits for ever and one that panics both yield
  \<^const>\<open>None\<close>.
\<close>

type_synonym tid = nat
type_synonym pref = nat

datatype qid = kt_runq | p_wait pref | km_waitq nat | dev_waitq nat

datatype kt_state_t = KT_NO_STATE | KT_RUN | KT_SLEEP | KT_SLEEP_CANCELLABLE | KT_EXITED

text \<open>Interrupt priority levels are the two the scheduler uses, as bytes.\<close>

abbreviation (input) IPL_LOW :: nat where "IPL_LOW \<equiv> 0"
abbreviation (input) IPL_HIGH :: nat where "IPL_HIGH \<equiv> 255"

text \<open>
  Where a context resumes: at the start of its thread function, or after the
  \<^verbatim>\<open>context_switch\<close> of one of the three blocking calls, whose saved
  \<^verbatim>\<open>earlier_ipl\<close> it carries.
\<close>

datatype context_t = Ctx_fresh | Ctx_sleep nat | Ctx_cancellable nat | Ctx_switch nat

record kthread =
  kt_ctx :: context_t
  kt_kstack :: bool
  kt_retval :: "int option"
  kt_errno :: int
  kt_proc :: "pref option"
  kt_cancelled :: bool
  kt_wchan :: "qid option"
  kt_state :: kt_state_t
  kt_qlink :: bool
  kt_plink :: bool

record ktqueue =
  tq_list :: "tid list"
  tq_size :: int

record sched =
  kt :: "tid \<Rightarrow> kthread"
  kq :: "qid \<Rightarrow> ktqueue"
  curthr :: "tid option"
  curproc :: "pref option"
  ipl :: nat

datatype irq = Irq_wakeup qid | Irq_broadcast qid

section \<open>Queues\<close>

definition set_thr :: "tid \<Rightarrow> (kthread \<Rightarrow> kthread) \<Rightarrow> 'a sched_scheme \<Rightarrow> 'a sched_scheme" where
  "set_thr t f s = s\<lparr>kt := (kt s)(t := f (kt s t))\<rparr>"

definition set_kq :: "qid \<Rightarrow> ktqueue \<Rightarrow> 'a sched_scheme \<Rightarrow> 'a sched_scheme" where
  "set_kq q v s = s\<lparr>kq := (kq s)(q := v)\<rparr>"

definition ktqueue_enqueue :: "qid \<Rightarrow> tid \<Rightarrow> 'a sched_scheme \<Rightarrow> 'a sched_scheme option" where
  "ktqueue_enqueue q thr s = do {
     KASSERT (kt_wchan (kt s thr) = None);
     let s = set_kq q \<lparr>tq_list = thr # tq_list (kq s q), tq_size = tq_size (kq s q) + 1\<rparr> s;
     Some (set_thr thr (\<lambda>k. k\<lparr>kt_wchan := Some q, kt_qlink := True\<rparr>) s)
   }"

definition ktqueue_dequeue :: "qid \<Rightarrow> 'a sched_scheme \<Rightarrow> 'a sched_scheme \<times> tid option" where
  "ktqueue_dequeue q s =
     (if tq_list (kq s q) = [] then (s, None)
      else let thr = last (tq_list (kq s q));
               s = set_kq q \<lparr>tq_list = butlast (tq_list (kq s q)), tq_size = tq_size (kq s q) - 1\<rparr> s
           in (set_thr thr (\<lambda>k. k\<lparr>kt_wchan := None, kt_qlink := False\<rparr>) s, Some thr))"

text \<open>
  \<^verbatim>\<open>list_remove\<close> takes the link out of whatever list holds it; the size that is
  decremented is that of the queue argument, which must not be NULL.
\<close>

definition ktqueue_remove :: "qid option \<Rightarrow> tid \<Rightarrow> 'a sched_scheme \<Rightarrow> 'a sched_scheme option" where
  "ktqueue_remove qo thr s = do {
     KASSERT (kt_qlink (kt s thr));
     let s = s\<lparr>kq := (\<lambda>q. (kq s q)\<lparr>tq_list := remove1 thr (tq_list (kq s q))\<rparr>)\<rparr>;
     let s = set_thr thr (\<lambda>k. k\<lparr>kt_wchan := None, kt_qlink := False\<rparr>) s;
     q \<leftarrow> qo;
     Some (set_kq q ((kq s q)\<lparr>tq_size := tq_size (kq s q) - 1\<rparr>) s)
   }"

definition sched_queue_init :: "qid \<Rightarrow> 'a sched_scheme \<Rightarrow> 'a sched_scheme" where
  "sched_queue_init q s = set_kq q \<lparr>tq_list = [], tq_size = 0\<rparr> s"

definition sched_init :: "'a sched_scheme \<Rightarrow> 'a sched_scheme" where
  "sched_init s = sched_queue_init kt_runq s"

definition sched_queue_empty :: "qid \<Rightarrow> 'a sched_scheme \<Rightarrow> bool" where
  "sched_queue_empty q s = (tq_list (kq s q) = [])"

section \<open>Waking\<close>

definition sched_make_runnable :: "tid \<Rightarrow> 'a sched_scheme \<Rightarrow> 'a sched_scheme option" where
  "sched_make_runnable thr s = do {
     KASSERT (kt_wchan (kt s thr) \<noteq> Some kt_runq);
     let old = ipl s;
     let s = s\<lparr>ipl := IPL_HIGH\<rparr>;
     let s = set_thr thr (\<lambda>k. k\<lparr>kt_state := KT_RUN\<rparr>) s;
     s \<leftarrow> ktqueue_enqueue kt_runq thr s;
     Some (s\<lparr>ipl := old\<rparr>)
   }"

definition sched_wakeup_on :: "qid \<Rightarrow> 'a sched_scheme \<Rightarrow> ('a sched_scheme \<times> tid option) option" where
  "sched_wakeup_on q s =
     (if tq_list (kq s q) \<noteq> [] then
        case ktqueue_dequeue q s of
          (s, None) \<Rightarrow> None
        | (s, Some thr) \<Rightarrow> do {
            KASSERT (kt_state (kt s thr) = KT_SLEEP \<or> kt_state (kt s thr) = KT_SLEEP_CANCELLABLE);
            s \<leftarrow> sched_make_runnable thr s;
            Some (s, Some thr)
          }
      else Some (s, None))"

definition broadcast_one :: "qid \<Rightarrow> 'a sched_scheme \<Rightarrow> 'a sched_scheme option" where
  "broadcast_one q s =
     (case ktqueue_dequeue q s of
        (s, None) \<Rightarrow> None
      | (s, Some thr) \<Rightarrow> sched_make_runnable thr s)"

text \<open>Broadcasting on the run queue itself would refill it for ever, hence the partial function.\<close>

partial_function (option) sched_broadcast_on :: "qid \<Rightarrow> 'a sched_scheme \<Rightarrow> 'a sched_scheme option" where
  "sched_broadcast_on q s =
     (if \<not> sched_queue_empty q s then do { s \<leftarrow> broadcast_one q s; sched_broadcast_on q s }
      else Some s)"

definition sched_cancel :: "tid \<Rightarrow> 'a sched_scheme \<Rightarrow> 'a sched_scheme option" where
  "sched_cancel kthr s =
     (let s = set_thr kthr (\<lambda>k. k\<lparr>kt_cancelled := True\<rparr>) s in
      if kt_state (kt s kthr) = KT_SLEEP_CANCELLABLE then do {
        s \<leftarrow> ktqueue_remove (kt_wchan (kt s kthr)) kthr s;
        sched_make_runnable kthr s
      } else Some s)"

section \<open>Switching\<close>

fun handle_irq :: "irq \<Rightarrow> 'a sched_scheme \<Rightarrow> 'a sched_scheme option" where
  "handle_irq (Irq_wakeup q) s = do { (s, _) \<leftarrow> sched_wakeup_on q s; Some s }"
| "handle_irq (Irq_broadcast q) s = sched_broadcast_on q s"

text \<open>\<^verbatim>\<open>while (sched_queue_empty(&kt_runq)) intr_wait();\<close>\<close>

fun wait_runq :: "irq list \<Rightarrow> 'a sched_scheme \<Rightarrow> ('a sched_scheme \<times> irq list) option" where
  "wait_runq [] s = (if sched_queue_empty kt_runq s then None else Some (s, []))"
| "wait_runq (i # is) s =
     (if sched_queue_empty kt_runq s then do { s \<leftarrow> handle_irq i s; wait_runq is s }
      else Some (s, i # is))"

text \<open>
  \<^verbatim>\<open>context_switch\<close> saves the old context and continues in the new one: a fresh
  thread starts at \<^verbatim>\<open>IPL_LOW\<close>, a switched-out one returns from its blocking call,
  which restores the level it had saved.
\<close>

fun resume_ipl :: "context_t \<Rightarrow> nat" where
  "resume_ipl Ctx_fresh = IPL_LOW"
| "resume_ipl (Ctx_sleep e) = e"
| "resume_ipl (Ctx_cancellable e) = e"
| "resume_ipl (Ctx_switch e) = e"

text \<open>What the call a thread resumes in returns to its caller.\<close>

fun resume_value :: "context_t \<Rightarrow> int option" where
  "resume_value (Ctx_cancellable e) = Some 0"
| "resume_value _ = None"

definition context_switch :: "tid \<Rightarrow> context_t \<Rightarrow> tid \<Rightarrow> 'a sched_scheme \<Rightarrow> 'a sched_scheme" where
  "context_switch old ctx new s =
     (let s = set_thr old (\<lambda>k. k\<lparr>kt_ctx := ctx\<rparr>) s
      in s\<lparr>ipl := resume_ipl (kt_ctx (kt s new))\<rparr>)"

text \<open>
  The tail shared by the blocking calls: wait if the run queue is empty, take the next
  thread, make it current and switch to it.
\<close>

definition fill_runq :: "irq list \<Rightarrow> 'a sched_scheme \<Rightarrow> ('a sched_scheme \<times> irq list) option" where
  "fill_runq irqs s =
     (if tq_list (kq s kt_runq) \<noteq> [] then Some (s, irqs)
      else do {
        (s, irqs) \<leftarrow> wait_runq irqs (s\<lparr>ipl := IPL_LOW\<rparr>);
        Some (s\<lparr>ipl := IPL_HIGH\<rparr>, irqs)
      })"

definition dispatch :: "tid \<Rightarrow> context_t \<Rightarrow> 'a sched_scheme \<Rightarrow> 'a sched_scheme option" where
  "dispatch old ctx s =
     (case ktqueue_dequeue kt_runq s of
        (s, None) \<Rightarrow> None
      | (s, Some new) \<Rightarrow>
          let s = s\<lparr>curthr := Some new, curproc := kt_proc (kt s new)\<rparr>
          in Some (context_switch old ctx new s))"

definition switch_from :: "tid \<Rightarrow> context_t \<Rightarrow> irq list \<Rightarrow> 'a sched_scheme
    \<Rightarrow> ('a sched_scheme \<times> irq list) option" where
  "switch_from old ctx irqs s = do {
     (s, irqs) \<leftarrow> fill_runq irqs s;
     s \<leftarrow> dispatch old ctx s;
     Some (s, irqs)
   }"

definition sched_sleep_on :: "qid \<Rightarrow> irq list \<Rightarrow> 'a sched_scheme
    \<Rightarrow> ('a sched_scheme \<times> irq list) option" where
  "sched_sleep_on q irqs s = do {
     let earlier_ipl = ipl s;
     let s = s\<lparr>ipl := IPL_HIGH\<rparr>;
     me \<leftarrow> curthr s;
     let s = set_thr me (\<lambda>k. k\<lparr>kt_state := KT_SLEEP\<rparr>) s;
     s \<leftarrow> ktqueue_enqueue q me s;
     switch_from me (Ctx_sleep earlier_ipl) irqs s
   }"

text \<open>
  The cancellable sleep either refuses at once with \<^verbatim>\<open>-EINTR\<close>, or switches away;
  its eventual return value is then that of \<^const>\<open>resume_value\<close>.
\<close>

datatype 'a call_result = Ret 'a int | Away 'a "irq list"

definition sched_cancellable_sleep_on :: "qid \<Rightarrow> irq list \<Rightarrow> 'a sched_scheme
    \<Rightarrow> 'a sched_scheme call_result option" where
  "sched_cancellable_sleep_on q irqs s = do {
     me \<leftarrow> curthr s;
     if kt_cancelled (kt s me) then Some (Ret s (- EINTR))
     else do {
       let earlier_ipl = ipl s;
       let s = s\<lparr>ipl := IPL_HIGH\<rparr>;
       let s = set_thr me (\<lambda>k. k\<lparr>kt_state := KT_SLEEP_CANCELLABLE\<rparr>) s;
       s \<leftarrow> ktqueue_enqueue q me s;
       (s, irqs) \<leftarrow> switch_from me (Ctx_cancellable earlier_ipl) irqs s;
       Some (Away s irqs)
     }
   }"

definition sched_switch :: "irq list \<Rightarrow> 'a sched_scheme \<Rightarrow> ('a sched_scheme \<times> irq list) option" where
  "sched_switch irqs s = do {
     let earlier_ipl = ipl s;
     let s = s\<lparr>ipl := IPL_HIGH\<rparr>;
     me \<leftarrow> curthr s;
     switch_from me (Ctx_switch earlier_ipl) irqs s
   }"

section \<open>The invariant\<close>

text \<open>
  A thread is on at most one queue, its wait channel names that queue, sizes are
  lengths; a thread on the run queue is runnable, one on any other queue sleeps, one on
  no queue does not; and no runnable thread is lost: it is on the run queue or current.
  The set argument lists threads exempt from the state condition in the middle of an
  operation.
\<close>

definition queues_ok :: "'a sched_scheme \<Rightarrow> bool" where
  "queues_ok s \<longleftrightarrow>
     (\<forall>q. distinct (tq_list (kq s q)) \<and> tq_size (kq s q) = int (length (tq_list (kq s q)))) \<and>
     (\<forall>q t. t \<in> set (tq_list (kq s q)) \<longleftrightarrow> kt_wchan (kt s t) = Some q) \<and>
     (\<forall>t. kt_qlink (kt s t) \<longleftrightarrow> kt_wchan (kt s t) \<noteq> None)"

fun thr_ok :: "qid option \<Rightarrow> kt_state_t \<Rightarrow> bool" where
  "thr_ok None st \<longleftrightarrow> st \<noteq> KT_SLEEP \<and> st \<noteq> KT_SLEEP_CANCELLABLE"
| "thr_ok (Some kt_runq) st \<longleftrightarrow> st = KT_RUN"
| "thr_ok (Some _) st \<longleftrightarrow> st = KT_SLEEP \<or> st = KT_SLEEP_CANCELLABLE"

definition states_ok :: "tid set \<Rightarrow> 'a sched_scheme \<Rightarrow> bool" where
  "states_ok X s \<longleftrightarrow> (\<forall>t. t \<notin> X \<longrightarrow> thr_ok (kt_wchan (kt s t)) (kt_state (kt s t)))"

definition running_ok :: "'a sched_scheme \<Rightarrow> bool" where
  "running_ok s \<longleftrightarrow> (\<forall>t. kt_state (kt s t) = KT_RUN \<longrightarrow>
     kt_wchan (kt s t) = Some kt_runq \<or> curthr s = Some t)"

definition sched_inv :: "'a sched_scheme \<Rightarrow> bool" where
  "sched_inv s \<longleftrightarrow> queues_ok s \<and> states_ok {} s \<and> running_ok s"

definition cur_running :: "'a sched_scheme \<Rightarrow> bool" where
  "cur_running s \<longleftrightarrow> (case curthr s of None \<Rightarrow> False
     | Some c \<Rightarrow> kt_state (kt s c) = KT_RUN \<and> kt_wchan (kt s c) = None)"

lemma thr_ok_other: "q \<noteq> kt_runq \<Longrightarrow> thr_ok (Some q) st \<longleftrightarrow> st = KT_SLEEP \<or> st = KT_SLEEP_CANCELLABLE"
  by (cases q) auto

lemma thr_ok_runq: "thr_ok (Some q) st \<Longrightarrow> st \<noteq> KT_RUN \<Longrightarrow> q \<noteq> kt_runq"
  by (cases q) auto

lemma no_state_wchan: "thr_ok w KT_NO_STATE \<Longrightarrow> w = None"
  by (rule thr_ok.cases [of "(w, KT_NO_STATE)"]) auto

lemma set_thr_simps [simp]:
  "kt (set_thr t f s) = (kt s)(t := f (kt s t))" "kq (set_thr t f s) = kq s"
  "curthr (set_thr t f s) = curthr s" "curproc (set_thr t f s) = curproc s" "ipl (set_thr t f s) = ipl s"
  by (simp_all add: set_thr_def)

lemma set_kq_simps [simp]:
  "kt (set_kq q v s) = kt s" "kq (set_kq q v s) = (kq s)(q := v)"
  "curthr (set_kq q v s) = curthr s" "curproc (set_kq q v s) = curproc s" "ipl (set_kq q v s) = ipl s"
  by (simp_all add: set_kq_def)

lemma queues_okD:
  assumes "queues_ok s"
  shows "distinct (tq_list (kq s q))" "tq_size (kq s q) = int (length (tq_list (kq s q)))"
    "t \<in> set (tq_list (kq s q)) \<longleftrightarrow> kt_wchan (kt s t) = Some q"
    "kt_qlink (kt s t) \<longleftrightarrow> kt_wchan (kt s t) \<noteq> None"
  using assms by (simp_all add: queues_ok_def)

lemma states_okD: "states_ok X s \<Longrightarrow> t \<notin> X \<Longrightarrow> thr_ok (kt_wchan (kt s t)) (kt_state (kt s t))"
  by (simp add: states_ok_def)

lemma ipl_frame [frame_simps]:
  "queues_ok (s\<lparr>ipl := e\<rparr>) = queues_ok s" "states_ok X (s\<lparr>ipl := e\<rparr>) = states_ok X s"
  "running_ok (s\<lparr>ipl := e\<rparr>) = running_ok s" "sched_inv (s\<lparr>ipl := e\<rparr>) = sched_inv s"
  by (simp_all add: queues_ok_def states_ok_def running_ok_def sched_inv_def)

lemma set_thr_frame:
  assumes "\<And>k. kt_wchan (f k) = kt_wchan k" and "\<And>k. kt_qlink (f k) = kt_qlink k"
  shows "queues_ok (set_thr t f s) = queues_ok s"
    and "states_ok (insert t X) (set_thr t f s) = states_ok (insert t X) s"
  using assms by (auto simp: queues_ok_def states_ok_def)

section \<open>Queue operations keep the invariant\<close>

lemma ktqueue_enqueue_ok:
  assumes "queues_ok s" and "kt_wchan (kt s t) = None"
  shows "\<exists>s'. ktqueue_enqueue q t s = Some s' \<and> queues_ok s'
     \<and> kt s' = (kt s)(t := (kt s t)\<lparr>kt_wchan := Some q, kt_qlink := True\<rparr>)
     \<and> tq_list (kq s' q) = t # tq_list (kq s q) \<and> (\<forall>q'. q' \<noteq> q \<longrightarrow> kq s' q' = kq s q')
     \<and> curthr s' = curthr s \<and> curproc s' = curproc s \<and> ipl s' = ipl s"
  using assms by (auto simp: ktqueue_enqueue_def queues_ok_def Let_def)

lemma ktqueue_dequeue_empty: "tq_list (kq s q) = [] \<Longrightarrow> ktqueue_dequeue q s = (s, None)"
  by (simp add: ktqueue_dequeue_def)

lemma ktqueue_dequeue_ok:
  assumes "queues_ok s" and "tq_list (kq s q) \<noteq> []"
  shows "\<exists>s' t. ktqueue_dequeue q s = (s', Some t) \<and> t = last (tq_list (kq s q)) \<and> queues_ok s'
     \<and> kt_wchan (kt s t) = Some q
     \<and> kt s' = (kt s)(t := (kt s t)\<lparr>kt_wchan := None, kt_qlink := False\<rparr>)
     \<and> tq_list (kq s' q) = butlast (tq_list (kq s q)) \<and> (\<forall>q'. q' \<noteq> q \<longrightarrow> kq s' q' = kq s q')
     \<and> curthr s' = curthr s \<and> curproc s' = curproc s \<and> ipl s' = ipl s"
proof -
  obtain xs t where xs: "tq_list (kq s q) = xs @ [t]" using assms(2) by (metis append_butlast_last_id)
  have w: "kt_wchan (kt s t) = Some q" using queues_okD(3) [OF assms(1), of t q] xs by simp
  have nx: "t \<notin> set xs" using queues_okD(1) [OF assms(1), of q] xs by simp
  let ?s = "set_thr t (\<lambda>k. k\<lparr>kt_wchan := None, kt_qlink := False\<rparr>)
              (set_kq q \<lparr>tq_list = xs, tq_size = tq_size (kq s q) - 1\<rparr> s)"
  have mem: "x \<in> set (tq_list (kq ?s q')) \<longleftrightarrow> kt_wchan (kt ?s x) = Some q'" for x q'
    using queues_okD(3) [OF assms(1), of x q'] queues_okD(3) [OF assms(1), of x q] w nx xs by auto
  have "queues_ok ?s"
    using queues_okD(1,2,4) [OF assms(1)] queues_okD(1,2) [OF assms(1), of q] xs
    unfolding queues_ok_def using mem by simp
  then show ?thesis using w by (simp add: ktqueue_dequeue_def xs)
qed

lemma ktqueue_remove_ok:
  assumes "queues_ok s" and "kt_wchan (kt s t) = Some q"
  shows "\<exists>s'. ktqueue_remove (Some q) t s = Some s' \<and> queues_ok s'
     \<and> kt s' = (kt s)(t := (kt s t)\<lparr>kt_wchan := None, kt_qlink := False\<rparr>)
     \<and> tq_list (kq s' q) = remove1 t (tq_list (kq s q)) \<and> (\<forall>q'. q' \<noteq> q \<longrightarrow> kq s' q' = kq s q')
     \<and> curthr s' = curthr s \<and> curproc s' = curproc s \<and> ipl s' = ipl s"
proof -
  have other: "remove1 t (tq_list (kq s q')) = tq_list (kq s q')" if "q' \<noteq> q" for q'
    using that queues_okD(3) [OF assms(1), of t q'] assms(2) by (simp add: remove1_idem)
  then have kqs: "(\<lambda>q. (kq s q)\<lparr>tq_list := remove1 t (tq_list (kq s q))\<rparr>)
      = (kq s)(q := (kq s q)\<lparr>tq_list := remove1 t (tq_list (kq s q))\<rparr>)"
    by (auto simp: fun_eq_iff)
  have tin: "t \<in> set (tq_list (kq s q))" using queues_okD(3) [OF assms(1)] assms(2) by simp
  let ?s = "set_kq q ((kq s q)\<lparr>tq_list := remove1 t (tq_list (kq s q)), tq_size := tq_size (kq s q) - 1\<rparr>)
     (set_thr t (\<lambda>k. k\<lparr>kt_wchan := None, kt_qlink := False\<rparr>)
       (s\<lparr>kq := (kq s)(q := (kq s q)\<lparr>tq_list := remove1 t (tq_list (kq s q))\<rparr>)\<rparr>))"
  have mem: "x \<in> set (tq_list (kq ?s q')) \<longleftrightarrow> kt_wchan (kt ?s x) = Some q'" for x q'
    using queues_okD(1) [OF assms(1), of q] queues_okD(3) [OF assms(1), of x q']
      queues_okD(3) [OF assms(1), of x q] assms(2) by (auto simp: set_remove1_eq)
  have len: "int (length (remove1 t (tq_list (kq s q)))) = int (length (tq_list (kq s q))) - 1"
    using tin by (rule length_remove1_int)
  have "queues_ok ?s"
    using queues_okD(1,2,4) [OF assms(1)] queues_okD(1,2) [OF assms(1), of q] len
    unfolding queues_ok_def using mem by (simp add: distinct_remove1)
  then show ?thesis using assms(2) queues_okD(4) [OF assms(1), of t]
    by (simp add: ktqueue_remove_def kqs Let_def)
qed

lemma sched_make_runnable_ok:
  assumes "queues_ok s" and "states_ok {t} s" and "running_ok s" and "kt_wchan (kt s t) = None"
  shows "\<exists>s'. sched_make_runnable t s = Some s' \<and> sched_inv s'
     \<and> kt s' = (kt s)(t := (kt s t)\<lparr>kt_state := KT_RUN, kt_wchan := Some kt_runq, kt_qlink := True\<rparr>)
     \<and> tq_list (kq s' kt_runq) = t # tq_list (kq s kt_runq) \<and> (\<forall>q. q \<noteq> kt_runq \<longrightarrow> kq s' q = kq s q)
     \<and> curthr s' = curthr s \<and> curproc s' = curproc s \<and> ipl s' = ipl s"
proof -
  let ?s = "set_thr t (\<lambda>k. k\<lparr>kt_state := KT_RUN\<rparr>) (s\<lparr>ipl := IPL_HIGH\<rparr>)"
  have "queues_ok ?s" "kt_wchan (kt ?s t) = None"
    using assms by (simp_all add: set_thr_frame frame_simps)
  from ktqueue_enqueue_ok [OF this, of kt_runq] obtain s' where
    s': "ktqueue_enqueue kt_runq t ?s = Some s'" "queues_ok s'"
      "kt s' = (kt ?s)(t := (kt ?s t)\<lparr>kt_wchan := Some kt_runq, kt_qlink := True\<rparr>)"
      "tq_list (kq s' kt_runq) = t # tq_list (kq s kt_runq)" "\<forall>q. q \<noteq> kt_runq \<longrightarrow> kq s' q = kq s q"
      "curthr s' = curthr s" "curproc s' = curproc s" by auto
  have "states_ok {} s'" using assms(2) s'(3) by (auto simp: states_ok_def)
  moreover have "running_ok s'" using assms(3) s'(3,6) by (auto simp: running_ok_def)
  ultimately have "sched_inv (s'\<lparr>ipl := ipl s\<rparr>)" using s'(2) by (simp add: sched_inv_def frame_simps)
  then show ?thesis using assms(4) s' by (simp add: sched_make_runnable_def Let_def)
qed

text \<open>Taking the oldest waiter off a queue and making it runnable, in one step.\<close>

definition woken :: "qid \<Rightarrow> tid \<Rightarrow> 'a sched_scheme \<Rightarrow> 'a sched_scheme \<Rightarrow> bool" where
  "woken q t s s' \<longleftrightarrow> tq_list (kq s q) \<noteq> [] \<and> t = last (tq_list (kq s q))
     \<and> kt_wchan (kt s t) = Some q
     \<and> tq_list (kq s' q) = butlast (tq_list (kq s q))
     \<and> tq_list (kq s' kt_runq) = t # tq_list (kq s kt_runq)
     \<and> (\<forall>r. r \<noteq> q \<and> r \<noteq> kt_runq \<longrightarrow> kq s' r = kq s r)
     \<and> kt s' = (kt s)(t := (kt s t)\<lparr>kt_state := KT_RUN, kt_wchan := Some kt_runq, kt_qlink := True\<rparr>)
     \<and> curthr s' = curthr s \<and> curproc s' = curproc s \<and> ipl s' = ipl s"

lemma dequeue_make_runnable:
  assumes inv: "sched_inv s" and ne: "tq_list (kq s q) \<noteq> []" and q: "q \<noteq> kt_runq"
  shows "\<exists>s1 s' t. ktqueue_dequeue q s = (s1, Some t) \<and> sched_make_runnable t s1 = Some s'
     \<and> kt_state (kt s1 t) = kt_state (kt s t)
     \<and> (kt_state (kt s t) = KT_SLEEP \<or> kt_state (kt s t) = KT_SLEEP_CANCELLABLE)
     \<and> sched_inv s' \<and> woken q t s s'"
proof -
  have I: "queues_ok s" "states_ok {} s" "running_ok s" using inv by (auto simp: sched_inv_def)
  from ktqueue_dequeue_ok [OF I(1) ne] obtain s1 t where
    d: "ktqueue_dequeue q s = (s1, Some t)" "t = last (tq_list (kq s q))" "queues_ok s1"
      "kt_wchan (kt s t) = Some q"
      "kt s1 = (kt s)(t := (kt s t)\<lparr>kt_wchan := None, kt_qlink := False\<rparr>)"
      "tq_list (kq s1 q) = butlast (tq_list (kq s q))" "\<forall>q'. q' \<noteq> q \<longrightarrow> kq s1 q' = kq s q'"
      "curthr s1 = curthr s" "curproc s1 = curproc s" "ipl s1 = ipl s" by blast
  have st: "kt_state (kt s t) = KT_SLEEP \<or> kt_state (kt s t) = KT_SLEEP_CANCELLABLE"
    using states_okD [OF I(2), of t] d(4) q by (simp add: thr_ok_other)
  have "states_ok {t} s1" using I(2) d(5) by (auto simp: states_ok_def)
  moreover have "running_ok s1" using I(3) d(5,8) st by (auto simp: running_ok_def)
  moreover have "kt_wchan (kt s1 t) = None" using d(5) by simp
  ultimately show ?thesis
    using sched_make_runnable_ok [OF d(3), of t] d st q ne by (auto simp: woken_def)
qed

lemma sched_wakeup_on_empty: "tq_list (kq s q) = [] \<Longrightarrow> sched_wakeup_on q s = Some (s, None)"
  by (simp add: sched_wakeup_on_def)

lemma sched_wakeup_on_ok:
  assumes "sched_inv s" and "tq_list (kq s q) \<noteq> []" and "q \<noteq> kt_runq"
  shows "\<exists>s' t. sched_wakeup_on q s = Some (s', Some t) \<and> sched_inv s' \<and> woken q t s s'"
  using dequeue_make_runnable [OF assms] assms(2) by (auto simp: sched_wakeup_on_def)

lemma sched_wakeup_on_inv:
  assumes "sched_inv s" and "q \<noteq> kt_runq"
  shows "\<exists>s' r. sched_wakeup_on q s = Some (s', r) \<and> sched_inv s'
     \<and> curthr s' = curthr s \<and> curproc s' = curproc s \<and> ipl s' = ipl s"
  using sched_wakeup_on_ok [OF assms(1) _ assms(2)] sched_wakeup_on_empty [of s q] assms(1)
  by (cases "tq_list (kq s q) = []") (auto simp: woken_def)

lemma sched_broadcast_on_ok:
  assumes "sched_inv s" and "q \<noteq> kt_runq"
  shows "\<exists>s'. sched_broadcast_on q s = Some s' \<and> sched_inv s' \<and> tq_list (kq s' q) = []
     \<and> tq_list (kq s' kt_runq) = tq_list (kq s q) @ tq_list (kq s kt_runq)
     \<and> (\<forall>r. r \<noteq> q \<and> r \<noteq> kt_runq \<longrightarrow> kq s' r = kq s r)
     \<and> curthr s' = curthr s \<and> curproc s' = curproc s \<and> ipl s' = ipl s"
  using assms(1)
proof (induction "tq_list (kq s q)" arbitrary: s rule: rev_induct)
  case Nil
  then show ?case using sched_broadcast_on.simps [of q s] by (simp add: sched_queue_empty_def)
next
  case (snoc t ts)
  note q_eq = snoc.hyps(2) [symmetric]
  have ne: "tq_list (kq s q) \<noteq> []" by (simp add: q_eq)
  from dequeue_make_runnable [OF snoc.prems ne assms(2)] obtain s1 s2 where
    s2: "broadcast_one q s = Some s2" "sched_inv s2" "woken q t s s2"
    by (auto simp: broadcast_one_def woken_def q_eq)
  have "ts = tq_list (kq s2 q)" using s2(3) by (simp add: woken_def q_eq)
  from snoc.hyps(1) [OF this s2(2)] show ?case
    using sched_broadcast_on.simps [of q s] s2 ne
    by (auto simp: sched_queue_empty_def woken_def q_eq)
qed

lemma sched_cancel_ok:
  assumes inv: "sched_inv s"
  shows "\<exists>s'. sched_cancel t s = Some s' \<and> sched_inv s' \<and> kt_cancelled (kt s' t)
     \<and> kt_state (kt s' t) = (if kt_state (kt s t) = KT_SLEEP_CANCELLABLE then KT_RUN else kt_state (kt s t))
     \<and> kt_wchan (kt s' t) = (if kt_state (kt s t) = KT_SLEEP_CANCELLABLE then Some kt_runq else kt_wchan (kt s t))
     \<and> (\<forall>u. u \<noteq> t \<longrightarrow> kt s' u = kt s u)
     \<and> curthr s' = curthr s \<and> curproc s' = curproc s \<and> ipl s' = ipl s"
proof -
  let ?s = "set_thr t (\<lambda>k. k\<lparr>kt_cancelled := True\<rparr>) s"
  have I: "queues_ok ?s" "states_ok {} ?s" "running_ok ?s"
    using inv by (auto simp: sched_inv_def queues_ok_def states_ok_def running_ok_def)
  show ?thesis
  proof (cases "kt_state (kt s t) = KT_SLEEP_CANCELLABLE")
    case False
    then show ?thesis using I by (auto simp: sched_cancel_def sched_inv_def)
  next
    case True
    obtain q where q: "kt_wchan (kt ?s t) = Some q" "q \<noteq> kt_runq"
      using states_okD [OF I(2), of t] True thr_ok_runq
      by (cases "kt_wchan (kt s t)") fastforce+
    from ktqueue_remove_ok [OF I(1) q(1)] obtain s1 where
      r: "ktqueue_remove (Some q) t ?s = Some s1" "queues_ok s1"
        "kt s1 = (kt ?s)(t := (kt ?s t)\<lparr>kt_wchan := None, kt_qlink := False\<rparr>)"
        "curthr s1 = curthr s" "curproc s1 = curproc s" "ipl s1 = ipl s" by auto
    have "states_ok {t} s1" using inv r(3) by (auto simp: sched_inv_def states_ok_def)
    moreover have "running_ok s1" using inv r(3,4) True by (auto simp: sched_inv_def running_ok_def)
    moreover have "kt_wchan (kt s1 t) = None" using r(3) by simp
    ultimately show ?thesis
      using sched_make_runnable_ok [OF r(2), of t] r q True by (auto simp: sched_cancel_def Let_def)
  qed
qed

section \<open>The blocking calls\<close>

fun irq_ok :: "irq \<Rightarrow> bool" where
  "irq_ok (Irq_wakeup q) \<longleftrightarrow> q \<noteq> kt_runq"
| "irq_ok (Irq_broadcast q) \<longleftrightarrow> q \<noteq> kt_runq"

lemma handle_irq_ok:
  assumes "sched_inv s" and "irq_ok i"
  shows "\<exists>s'. handle_irq i s = Some s' \<and> sched_inv s' \<and> curthr s' = curthr s"
  using assms sched_wakeup_on_inv [of s] sched_broadcast_on_ok [of s] by (cases i) fastforce+

lemma wait_runq_ok:
  assumes "sched_inv s" and "list_all irq_ok irqs" and "wait_runq irqs s = Some (s', irqs')"
  shows "sched_inv s' \<and> tq_list (kq s' kt_runq) \<noteq> [] \<and> curthr s' = curthr s \<and> list_all irq_ok irqs'"
  using assms
proof (induction irqs arbitrary: s)
  case Nil
  then show ?case by (auto simp: sched_queue_empty_def split: if_splits)
next
  case (Cons i irqs)
  then show ?case
    using handle_irq_ok [of s i] by (auto simp: sched_queue_empty_def split: if_splits)
qed

text \<open>
  The calling thread may be exempt from the running condition only because it is current,
  so it must have put itself on a queue, or exited, before it switches away.
\<close>

definition may_leave :: "tid \<Rightarrow> 'a sched_scheme \<Rightarrow> bool" where
  "may_leave me s \<longleftrightarrow> curthr s = Some me \<and>
     (kt_state (kt s me) = KT_RUN \<longrightarrow> kt_wchan (kt s me) = Some kt_runq)"

lemma sched_broadcast_on_induct:
  assumes "sched_broadcast_on q s = Some s'" and "q \<noteq> kt_runq" and "sched_inv s" and "P s"
    and step: "\<And>s1 s2 t. \<lbrakk> P s1; woken q t s1 s2 \<rbrakk> \<Longrightarrow> P s2"
  shows "P s'"
  using assms(1,3,4)
proof (induction "tq_list (kq s q)" arbitrary: s rule: rev_induct)
  case Nil
  then show ?case using sched_broadcast_on.simps [of q s] by (simp add: sched_queue_empty_def)
next
  case (snoc t ts)
  note q_eq = snoc.hyps(2) [symmetric]
  have "tq_list (kq s q) \<noteq> []" by (simp add: q_eq)
  from dequeue_make_runnable [OF snoc.prems(2) this assms(2)] obtain s1 where
    s1: "broadcast_one q s = Some s1" "sched_inv s1" "woken q t s s1"
    by (auto simp: broadcast_one_def woken_def q_eq)
  have "ts = tq_list (kq s1 q)" using s1(3) by (simp add: woken_def q_eq)
  moreover have "sched_broadcast_on q s1 = Some s'"
    using snoc.prems(1) s1(1) sched_broadcast_on.simps [of q s] by (simp add: sched_queue_empty_def q_eq)
  ultimately show ?case using snoc.hyps(1) [of s1] s1 step [OF snoc.prems(3) s1(3)] by blast
qed

lemma handle_irq_induct:
  assumes "handle_irq i s = Some s'" and "irq_ok i" and "sched_inv s" and "P s"
    and step: "\<And>q s1 s2 t. \<lbrakk> P s1; q \<noteq> kt_runq; woken q t s1 s2 \<rbrakk> \<Longrightarrow> P s2"
  shows "P s'"
proof (cases i)
  case (Irq_wakeup q)
  then show ?thesis
    using assms sched_wakeup_on_ok [of s q] sched_wakeup_on_empty [of s q]
    by (cases "tq_list (kq s q) = []") auto
next
  case (Irq_broadcast q)
  then show ?thesis using assms sched_broadcast_on_induct [of q s s' P] by auto
qed

lemma wait_runq_induct:
  assumes "wait_runq irqs s = Some (s', irqs')" and "list_all irq_ok irqs" and "sched_inv s" and "P s"
    and step: "\<And>q s1 s2 t. \<lbrakk> P s1; q \<noteq> kt_runq; woken q t s1 s2 \<rbrakk> \<Longrightarrow> P s2"
  shows "P s'"
  using assms(1-4)
proof (induction irqs arbitrary: s)
  case Nil
  then show ?case by (auto split: if_splits)
next
  case (Cons i irqs)
  show ?case
  proof (cases "sched_queue_empty kt_runq s")
    case False
    then show ?thesis using Cons.prems by simp
  next
    case True
    then obtain s1 where s1: "handle_irq i s = Some s1" "wait_runq irqs s1 = Some (s', irqs')"
      using Cons.prems(1) by (auto simp: bind_Some_iff)
    have "sched_inv s1" using handle_irq_ok [of s i] Cons.prems s1(1) by auto
    moreover have "P s1"
      using s1(1) _ Cons.prems(3,4) step by (rule handle_irq_induct) (use Cons.prems(2) in simp)
    ultimately show ?thesis using Cons.IH s1(2) Cons.prems(2) by simp
  qed
qed

lemma woken_cur_running: "cur_running s \<Longrightarrow> woken q t s s' \<Longrightarrow> cur_running s'"
  by (auto simp: cur_running_def woken_def split: option.splits)

lemma woken_may_leave: "may_leave me s \<Longrightarrow> woken q t s s' \<Longrightarrow> may_leave me s'"
  by (auto simp: may_leave_def woken_def)

lemma dispatch_ok:
  assumes inv: "sched_inv s" and leave: "may_leave me s" and ne: "tq_list (kq s kt_runq) \<noteq> []"
  shows "\<exists>s' new. dispatch me ctx s = Some s' \<and> new = last (tq_list (kq s kt_runq))
     \<and> sched_inv s' \<and> cur_running s' \<and> curthr s' = Some new \<and> curproc s' = kt_proc (kt s new)
     \<and> tq_list (kq s' kt_runq) = butlast (tq_list (kq s kt_runq))
     \<and> (\<forall>q. q \<noteq> kt_runq \<longrightarrow> kq s' q = kq s q)
     \<and> ipl s' = resume_ipl (if new = me then ctx else kt_ctx (kt s new))
     \<and> kt s' = (kt s)(new := (kt s new)\<lparr>kt_wchan := None, kt_qlink := False\<rparr>,
                     me := (((kt s)(new := (kt s new)\<lparr>kt_wchan := None, kt_qlink := False\<rparr>)) me)\<lparr>kt_ctx := ctx\<rparr>)"
proof -
  have I: "queues_ok s" "states_ok {} s" "running_ok s" using inv by (auto simp: sched_inv_def)
  from ktqueue_dequeue_ok [OF I(1) ne] obtain s1 t where
    d: "ktqueue_dequeue kt_runq s = (s1, Some t)" "t = last (tq_list (kq s kt_runq))" "queues_ok s1"
      "kt_wchan (kt s t) = Some kt_runq"
      "kt s1 = (kt s)(t := (kt s t)\<lparr>kt_wchan := None, kt_qlink := False\<rparr>)"
      "tq_list (kq s1 kt_runq) = butlast (tq_list (kq s kt_runq))" "\<forall>q'. q' \<noteq> kt_runq \<longrightarrow> kq s1 q' = kq s q'"
      "curthr s1 = curthr s" "curproc s1 = curproc s" "ipl s1 = ipl s" by blast
  have st: "kt_state (kt s t) = KT_RUN" using states_okD [OF I(2), of t] d(4) by simp
  define s2 where "s2 = context_switch me ctx t (s1\<lparr>curthr := Some t, curproc := kt_proc (kt s1 t)\<rparr>)"
  have k2: "kt s2 = (kt s1)(me := (kt s1 me)\<lparr>kt_ctx := ctx\<rparr>)" and "kq s2 = kq s1" "curthr s2 = Some t"
    by (simp_all add: s2_def context_switch_def)
  have "queues_ok s2" using d(3) k2 \<open>kq s2 = kq s1\<close> by (auto simp: queues_ok_def)
  moreover have "states_ok {} s2" using I(2) d(5) st k2 by (auto simp: states_ok_def)
  moreover have "running_ok s2"
    using I(3) leave d(5) k2 \<open>curthr s2 = Some t\<close> by (auto simp: running_ok_def may_leave_def)
  ultimately have "sched_inv s2" by (simp add: sched_inv_def)
  moreover have "cur_running s2" using st d(5) k2 \<open>curthr s2 = Some t\<close> by (auto simp: cur_running_def)
  moreover have "dispatch me ctx s = Some s2" using d(1) by (simp add: dispatch_def s2_def)
  moreover have "ipl s2 = resume_ipl (if t = me then ctx else kt_ctx (kt s t))"
    "curproc s2 = kt_proc (kt s t)"
    using d(5) by (simp_all add: s2_def context_switch_def)
  moreover have "kt s2 = (kt s)(t := (kt s t)\<lparr>kt_wchan := None, kt_qlink := False\<rparr>,
      me := (((kt s)(t := (kt s t)\<lparr>kt_wchan := None, kt_qlink := False\<rparr>)) me)\<lparr>kt_ctx := ctx\<rparr>)"
    by (simp only: k2 d(5))
  ultimately show ?thesis
    using d(2,6,7) \<open>kq s2 = kq s1\<close> \<open>curthr s2 = Some t\<close> by metis
qed

text \<open>
  Waiting fills the run queue by interrupts only: what waking a sleeper keeps, waiting keeps.
\<close>

lemma fill_runq_ok:
  assumes "fill_runq irqs s = Some (s', irqs')" and "list_all irq_ok irqs" and "sched_inv s"
  shows "sched_inv s' \<and> tq_list (kq s' kt_runq) \<noteq> [] \<and> list_all irq_ok irqs'"
proof (cases "tq_list (kq s kt_runq) = []")
  case True
  then obtain s1 where "wait_runq irqs (s\<lparr>ipl := IPL_LOW\<rparr>) = Some (s1, irqs')" "s' = s1\<lparr>ipl := IPL_HIGH\<rparr>"
    using assms(1) by (auto simp: fill_runq_def bind_Some_iff)
  then show ?thesis
    using wait_runq_ok [of "s\<lparr>ipl := IPL_LOW\<rparr>" irqs s1 irqs'] assms(2,3) by (simp add: frame_simps)
qed (use assms in \<open>auto simp: fill_runq_def\<close>)

lemma fill_runq_induct:
  assumes "fill_runq irqs s = Some (s', irqs')" and "list_all irq_ok irqs" and "sched_inv s" and "P s"
    and set_ipl: "\<And>e s1. P s1 \<Longrightarrow> P (s1\<lparr>ipl := e\<rparr>)"
    and step: "\<And>q s1 s2 t. \<lbrakk> P s1; q \<noteq> kt_runq; woken q t s1 s2 \<rbrakk> \<Longrightarrow> P s2"
  shows "P s'"
proof (cases "tq_list (kq s kt_runq) = []")
  case True
  then obtain s1 where w: "wait_runq irqs (s\<lparr>ipl := IPL_LOW\<rparr>) = Some (s1, irqs')" "s' = s1\<lparr>ipl := IPL_HIGH\<rparr>"
    using assms(1) by (auto simp: fill_runq_def bind_Some_iff)
  have "P s1" using w(1) assms(2)
    by (rule wait_runq_induct) (use assms(3,4) set_ipl step in \<open>auto simp: frame_simps\<close>)
  then show ?thesis using w(2) set_ipl by simp
qed (use assms in \<open>auto simp: fill_runq_def\<close>)

lemma switch_fromE:
  assumes "switch_from me ctx irqs s = Some (s', irqs')"
  obtains s1 where "fill_runq irqs s = Some (s1, irqs')" and "dispatch me ctx s1 = Some s'"
  using assms by (auto simp: switch_from_def bind_Some_iff)

lemma switch_from_ok:
  assumes sw: "switch_from me ctx irqs s = Some (s', irqs')" and irqs: "list_all irq_ok irqs"
    and inv: "sched_inv s" and leave: "may_leave me s"
  shows "sched_inv s' \<and> cur_running s' \<and> list_all irq_ok irqs' \<and> kt_ctx (kt s' me) = ctx
     \<and> (\<exists>new. curthr s' = Some new \<and> curproc s' = kt_proc (kt s' new)
            \<and> ipl s' = resume_ipl (kt_ctx (kt s' new)))"
proof -
  obtain s1 where f: "fill_runq irqs s = Some (s1, irqs')" and d: "dispatch me ctx s1 = Some s'"
    using sw by (rule switch_fromE)
  have "may_leave me s1"
    using f irqs inv leave by (rule fill_runq_induct) (auto simp: may_leave_def woken_def)
  with fill_runq_ok [OF f irqs inv] show ?thesis using dispatch_ok [of s1 me ctx] d by auto
qed

lemma switch_from_now:
  "tq_list (kq s kt_runq) \<noteq> [] \<Longrightarrow>
   switch_from me ctx irqs s = (case dispatch me ctx s of None \<Rightarrow> None | Some s' \<Rightarrow> Some (s', irqs))"
  by (simp add: switch_from_def fill_runq_def split: option.split)

text \<open>Going to sleep: the current thread leaves for a queue, with its new state.\<close>

lemma enqueue_self_ok:
  assumes inv: "sched_inv s" and cur: "cur_running s" and me: "curthr s = Some me"
    and q: "q \<noteq> kt_runq" and st: "st = KT_SLEEP \<or> st = KT_SLEEP_CANCELLABLE"
  shows "\<exists>s'. ktqueue_enqueue q me (set_thr me (\<lambda>k. k\<lparr>kt_state := st\<rparr>) (s\<lparr>ipl := e\<rparr>)) = Some s'
     \<and> sched_inv s' \<and> may_leave me s' \<and> kq s' kt_runq = kq s kt_runq
     \<and> tq_list (kq s' q) = me # tq_list (kq s q) \<and> (\<forall>q'. q' \<noteq> q \<longrightarrow> kq s' q' = kq s q')
     \<and> kt s' = (kt s)(me := (kt s me)\<lparr>kt_state := st, kt_wchan := Some q, kt_qlink := True\<rparr>)
     \<and> curthr s' = Some me"
proof -
  let ?s = "set_thr me (\<lambda>k. k\<lparr>kt_state := st\<rparr>) (s\<lparr>ipl := e\<rparr>)"
  have w: "kt_wchan (kt s me) = None" using cur me by (simp add: cur_running_def)
  have "queues_ok ?s" using inv by (simp add: set_thr_frame frame_simps sched_inv_def)
  from ktqueue_enqueue_ok [OF this, of me q] obtain s' where
    s': "ktqueue_enqueue q me ?s = Some s'" "queues_ok s'"
      "kt s' = (kt s)(me := (kt s me)\<lparr>kt_state := st, kt_wchan := Some q, kt_qlink := True\<rparr>)"
      "tq_list (kq s' q) = me # tq_list (kq s q)" "\<forall>q'. q' \<noteq> q \<longrightarrow> kq s' q' = kq s q'" "curthr s' = Some me"
    using w me by auto
  have "states_ok {} s'" using inv s'(3) st q by (auto simp: sched_inv_def states_ok_def thr_ok_other)
  moreover have "running_ok s'" using inv s'(3,6) st me by (auto simp: sched_inv_def running_ok_def)
  ultimately have "sched_inv s'" using s'(2) by (simp add: sched_inv_def)
  moreover have "may_leave me s'" using s'(3,6) st by (auto simp: may_leave_def)
  ultimately show ?thesis using s' q by auto
qed

lemma cur_runningE:
  assumes "cur_running s"
  obtains me where "curthr s = Some me" and "kt_wchan (kt s me) = None" and "kt_state (kt s me) = KT_RUN"
  using assms by (auto simp: cur_running_def split: option.splits)

lemma sched_sleep_onE:
  assumes "sched_sleep_on q irqs s = Some (s', irqs')"
    and "sched_inv s" and "cur_running s" and "curthr s = Some me" and "q \<noteq> kt_runq"
  obtains s1 where "sched_inv s1" and "may_leave me s1" and "kq s1 kt_runq = kq s kt_runq"
    and "tq_list (kq s1 q) = me # tq_list (kq s q)"
    and "kt s1 = (kt s)(me := (kt s me)\<lparr>kt_state := KT_SLEEP, kt_wchan := Some q, kt_qlink := True\<rparr>)"
    and "switch_from me (Ctx_sleep (ipl s)) irqs s1 = Some (s', irqs')"
proof -
  obtain s1 where s1: "ktqueue_enqueue q me (set_thr me (\<lambda>k. k\<lparr>kt_state := KT_SLEEP\<rparr>) (s\<lparr>ipl := IPL_HIGH\<rparr>)) = Some s1"
    "sched_inv s1" "may_leave me s1" "kq s1 kt_runq = kq s kt_runq" "tq_list (kq s1 q) = me # tq_list (kq s q)"
    "kt s1 = (kt s)(me := (kt s me)\<lparr>kt_state := KT_SLEEP, kt_wchan := Some q, kt_qlink := True\<rparr>)"
    using enqueue_self_ok [OF assms(2-5), of KT_SLEEP IPL_HIGH] by blast
  moreover have "switch_from me (Ctx_sleep (ipl s)) irqs s1 = Some (s', irqs')"
    using assms(1,4) s1(1) by (simp add: sched_sleep_on_def)
  ultimately show thesis using that by blast
qed

lemma sched_sleep_on_ok:
  assumes "sched_sleep_on q irqs s = Some (s', irqs')" and "list_all irq_ok irqs"
    and "sched_inv s" and "cur_running s" and "q \<noteq> kt_runq"
  shows "sched_inv s' \<and> cur_running s' \<and> list_all irq_ok irqs'"
proof -
  obtain me where me: "curthr s = Some me" using assms(4) by (rule cur_runningE)
  obtain s1 where "sched_inv s1" "may_leave me s1" "switch_from me (Ctx_sleep (ipl s)) irqs s1 = Some (s', irqs')"
    using sched_sleep_onE [OF assms(1,3,4) me assms(5)] by metis
  then show ?thesis using switch_from_ok assms(2) by blast
qed

lemma sched_cancellable_sleep_onE:
  assumes "sched_cancellable_sleep_on q irqs s = Some (Away s' irqs')"
    and "sched_inv s" and "cur_running s" and "curthr s = Some me" and "q \<noteq> kt_runq"
  obtains s1 where "sched_inv s1" and "may_leave me s1" and "kq s1 kt_runq = kq s kt_runq"
    and "tq_list (kq s1 q) = me # tq_list (kq s q)"
    and "kt s1 = (kt s)(me := (kt s me)\<lparr>kt_state := KT_SLEEP_CANCELLABLE, kt_wchan := Some q, kt_qlink := True\<rparr>)"
    and "switch_from me (Ctx_cancellable (ipl s)) irqs s1 = Some (s', irqs')"
proof -
  obtain s1 where s1: "ktqueue_enqueue q me
      (set_thr me (\<lambda>k. k\<lparr>kt_state := KT_SLEEP_CANCELLABLE\<rparr>) (s\<lparr>ipl := IPL_HIGH\<rparr>)) = Some s1"
    "sched_inv s1" "may_leave me s1" "kq s1 kt_runq = kq s kt_runq" "tq_list (kq s1 q) = me # tq_list (kq s q)"
    "kt s1 = (kt s)(me := (kt s me)\<lparr>kt_state := KT_SLEEP_CANCELLABLE, kt_wchan := Some q, kt_qlink := True\<rparr>)"
    using enqueue_self_ok [OF assms(2-5), of KT_SLEEP_CANCELLABLE IPL_HIGH] by blast
  moreover have "switch_from me (Ctx_cancellable (ipl s)) irqs s1 = Some (s', irqs')"
    using assms(1,4) s1(1)
    by (simp add: sched_cancellable_sleep_on_def bind_Some_iff split: if_splits prod.splits)
  ultimately show thesis using that by blast
qed

lemma sched_cancellable_sleep_on_ok:
  assumes "sched_cancellable_sleep_on q irqs s = Some (Away s' irqs')" and "list_all irq_ok irqs"
    and "sched_inv s" and "cur_running s" and "q \<noteq> kt_runq"
  shows "sched_inv s' \<and> cur_running s' \<and> list_all irq_ok irqs'"
proof -
  obtain me where me: "curthr s = Some me" using assms(4) by (rule cur_runningE)
  obtain s1 where "sched_inv s1" "may_leave me s1"
    "switch_from me (Ctx_cancellable (ipl s)) irqs s1 = Some (s', irqs')"
    using sched_cancellable_sleep_onE [OF assms(1,3,4) me assms(5)] by metis
  then show ?thesis using switch_from_ok assms(2) by blast
qed

lemma sched_switch_ok:
  assumes "sched_switch irqs s = Some (s', irqs')" and "list_all irq_ok irqs"
    and "sched_inv s" and "curthr s = Some me" and "may_leave me s"
  shows "sched_inv s' \<and> cur_running s' \<and> list_all irq_ok irqs'"
  using assms switch_from_ok [of me "Ctx_switch (ipl s)" irqs "s\<lparr>ipl := IPL_HIGH\<rparr>" s' irqs']
  by (simp add: sched_switch_def Let_def frame_simps may_leave_def)

section \<open>The rest of the state\<close>

text \<open>Scheduler calls change nothing of the kernel state outside the scheduler.\<close>

lemma set_thr_more [simp]: "sched.more (set_thr t f s) = sched.more s"
  by (simp add: set_thr_def)

lemma set_kq_more [simp]: "sched.more (set_kq q v s) = sched.more s"
  by (simp add: set_kq_def)

lemma enqueue_more: "ktqueue_enqueue q t s = Some s' \<Longrightarrow> sched.more s' = sched.more s"
  by (auto simp: ktqueue_enqueue_def Let_def)

lemma dequeue_more: "ktqueue_dequeue q s = (s', r) \<Longrightarrow> sched.more s' = sched.more s"
  by (auto simp: ktqueue_dequeue_def Let_def split: if_splits)

lemma make_runnable_more: "sched_make_runnable t s = Some s' \<Longrightarrow> sched.more s' = sched.more s"
  by (auto simp: sched_make_runnable_def Let_def bind_Some_iff dest: enqueue_more)

lemma wakeup_more: "sched_wakeup_on q s = Some (s', r) \<Longrightarrow> sched.more s' = sched.more s"
  by (auto simp: sched_wakeup_on_def bind_Some_iff split: if_splits prod.splits option.splits
      dest!: make_runnable_more dequeue_more)

lemma broadcast_one_more: "broadcast_one q s = Some s' \<Longrightarrow> sched.more s' = sched.more s"
  by (auto simp: broadcast_one_def split: prod.splits option.splits dest!: make_runnable_more dequeue_more)

lemma broadcast_more: "sched_broadcast_on q s = Some s' \<Longrightarrow> sched.more s' = sched.more s"
  by (rule sched_broadcast_on.raw_induct [where P = "\<lambda>q s s'. sched.more s' = sched.more s"])
    (auto split: if_splits simp: bind_Some_iff dest!: broadcast_one_more)

lemma remove_more: "ktqueue_remove q t s = Some s' \<Longrightarrow> sched.more s' = sched.more s"
  by (auto simp: ktqueue_remove_def Let_def bind_Some_iff)

lemma cancel_more: "sched_cancel t s = Some s' \<Longrightarrow> sched.more s' = sched.more s"
  by (auto simp: sched_cancel_def Let_def bind_Some_iff split: if_splits
      dest!: make_runnable_more remove_more)

lemma irq_more: "handle_irq i s = Some s' \<Longrightarrow> sched.more s' = sched.more s"
  by (cases i) (auto simp: bind_Some_iff dest: wakeup_more broadcast_more)

lemma wait_more: "wait_runq irqs s = Some (s', irqs') \<Longrightarrow> sched.more s' = sched.more s"
  by (induction irqs arbitrary: s) (auto simp: bind_Some_iff split: if_splits dest!: irq_more)

lemma fill_more: "fill_runq irqs s = Some (s', irqs') \<Longrightarrow> sched.more s' = sched.more s"
  by (auto simp: fill_runq_def bind_Some_iff split: if_splits dest!: wait_more)

lemma dispatch_more: "dispatch me ctx s = Some s' \<Longrightarrow> sched.more s' = sched.more s"
  by (auto simp: dispatch_def context_switch_def Let_def split: prod.splits option.splits dest!: dequeue_more)

lemma switch_from_more: "switch_from me ctx irqs s = Some (s', irqs') \<Longrightarrow> sched.more s' = sched.more s"
  by (erule switch_fromE) (auto dest!: fill_more dispatch_more)

lemma sleep_more: "sched_sleep_on q irqs s = Some (s', irqs') \<Longrightarrow> sched.more s' = sched.more s"
  by (auto simp: sched_sleep_on_def Let_def bind_Some_iff dest!: switch_from_more enqueue_more)

lemma cancellable_more:
  "sched_cancellable_sleep_on q irqs s = Some (Away s' irqs') \<Longrightarrow> sched.more s' = sched.more s"
  "sched_cancellable_sleep_on q irqs s = Some (Ret s' v) \<Longrightarrow> s' = s"
  by (auto simp: sched_cancellable_sleep_on_def Let_def bind_Some_iff split: if_splits
      dest!: switch_from_more enqueue_more)

lemma switch_more: "sched_switch irqs s = Some (s', irqs') \<Longrightarrow> sched.more s' = sched.more s"
  by (auto simp: sched_switch_def Let_def bind_Some_iff dest!: switch_from_more)

lemmas sched_mores = make_runnable_more wakeup_more broadcast_more cancel_more sleep_more
  cancellable_more(1) switch_more irq_more

section \<open>Properties\<close>

text \<open>A thread that is not in use, and a machine with a current and a ready thread.\<close>

definition blank_thr :: kthread where
  "blank_thr = \<lparr>kt_ctx = Ctx_fresh, kt_kstack = True, kt_retval = None, kt_errno = 0, kt_proc = None,
     kt_cancelled = False, kt_wchan = None, kt_state = KT_NO_STATE, kt_qlink = False, kt_plink = False\<rparr>"

definition two_threads :: sched where
  "two_threads = \<lparr>
     kt = (\<lambda>_. blank_thr)(1 := blank_thr\<lparr>kt_state := KT_RUN\<rparr>,
            2 := blank_thr\<lparr>kt_state := KT_RUN, kt_wchan := Some kt_runq, kt_qlink := True, kt_ctx := Ctx_switch 255\<rparr>),
     kq = (\<lambda>_. \<lparr>tq_list = [], tq_size = 0\<rparr>)(kt_runq := \<lparr>tq_list = [2], tq_size = 1\<rparr>),
     curthr = Some 1, curproc = None, ipl = 0\<rparr>"

lemma two_threads_ok: "sched_inv two_threads" "cur_running two_threads"
  by (auto simp: two_threads_def blank_thr_def sched_inv_def queues_ok_def states_ok_def running_ok_def
      cur_running_def)

text \<open>
  C9. Sleeping on a queue while another thread is ready: the caller goes to sleep at the
  back of the queue with its interrupt level saved, the thread that has waited longest
  on the run queue runs next with the level it had saved, and the scheduler's
  invariant holds.
\<close>

theorem sched_sleep_on_switches:
  assumes inv: "sched_inv s" and cur: "cur_running s" and me: "curthr s = Some me" and q: "q \<noteq> kt_runq"
    and ready: "tq_list (kq s kt_runq) \<noteq> []"
  shows "\<exists>s'. sched_sleep_on q irqs s = Some (s', irqs) \<and> sched_inv s' \<and> cur_running s'
     \<and> curthr s' = Some (last (tq_list (kq s kt_runq)))
     \<and> tq_list (kq s' kt_runq) = butlast (tq_list (kq s kt_runq))
     \<and> tq_list (kq s' q) = me # tq_list (kq s q)
     \<and> kt_state (kt s' me) = KT_SLEEP \<and> kt_wchan (kt s' me) = Some q
     \<and> resume_ipl (kt_ctx (kt s' me)) = ipl s
     \<and> ipl s' = resume_ipl (kt_ctx (kt s (last (tq_list (kq s kt_runq)))))"
proof -
  obtain s1 where s1: "ktqueue_enqueue q me (set_thr me (\<lambda>k. k\<lparr>kt_state := KT_SLEEP\<rparr>) (s\<lparr>ipl := IPL_HIGH\<rparr>)) = Some s1"
    "sched_inv s1" "may_leave me s1" "kq s1 kt_runq = kq s kt_runq" "tq_list (kq s1 q) = me # tq_list (kq s q)"
    "kt s1 = (kt s)(me := (kt s me)\<lparr>kt_state := KT_SLEEP, kt_wchan := Some q, kt_qlink := True\<rparr>)"
    using enqueue_self_ok [OF inv cur me q, of KT_SLEEP IPL_HIGH] by blast
  let ?new = "last (tq_list (kq s kt_runq))"
  have "kt_wchan (kt s ?new) = Some kt_runq"
    using queues_okD(3) [of s ?new kt_runq] inv ready by (simp add: sched_inv_def)
  then have ne: "?new \<noteq> me" using cur me by (auto simp: cur_running_def)
  have r1: "tq_list (kq s1 kt_runq) \<noteq> []" using ready s1(4) by simp
  show ?thesis
    using dispatch_ok [OF s1(2,3) r1, of "Ctx_sleep (ipl s)"] me s1 q ne switch_from_now [OF r1]
    by (auto simp: sched_sleep_on_def)
qed

theorem sched_sleep_on_switches_witness:
  "\<exists>s'. sched_sleep_on (dev_waitq 0) [] two_threads = Some (s', []) \<and> curthr s' = Some 2 \<and> ipl s' = 255"
  using sched_sleep_on_switches [OF two_threads_ok, of 1 "dev_waitq 0" "[]"]
  by (auto simp: two_threads_def blank_thr_def)

text \<open>
  C10. \<^verbatim>\<open>sched_broadcast_on\<close> ends on every queue but the run queue: it wakes all
  the sleepers, empties the queue, and puts them on the run queue behind the threads
  already there, longest sleeper first.
\<close>

theorem sched_broadcast_on_wakes_all:
  assumes "sched_inv s" and "q \<noteq> kt_runq"
  shows "\<exists>s'. sched_broadcast_on q s = Some s' \<and> sched_inv s' \<and> tq_list (kq s' q) = []
     \<and> tq_list (kq s' kt_runq) = tq_list (kq s q) @ tq_list (kq s kt_runq)
     \<and> (\<forall>t \<in> set (tq_list (kq s q)). kt_state (kt s' t) = KT_RUN \<and> kt_wchan (kt s' t) = Some kt_runq)
     \<and> ipl s' = ipl s"
proof -
  obtain s' where s': "sched_broadcast_on q s = Some s'" "sched_inv s'" "tq_list (kq s' q) = []"
    "tq_list (kq s' kt_runq) = tq_list (kq s q) @ tq_list (kq s kt_runq)" "ipl s' = ipl s"
    using sched_broadcast_on_ok [OF assms] by blast
  have "kt_wchan (kt s' t) = Some kt_runq" if "t \<in> set (tq_list (kq s q))" for t
    using s'(2,4) that queues_okD(3) [of s' t kt_runq] by (simp add: sched_inv_def)
  moreover have "kt_state (kt s' t) = KT_RUN" if "kt_wchan (kt s' t) = Some kt_runq" for t
    using s'(2) that states_okD [of "{}" s' t] by (simp add: sched_inv_def)
  ultimately show ?thesis using s' by blast
qed

definition two_sleepers :: sched where
  "two_sleepers = two_threads\<lparr>
     kt := (kt two_threads)(3 := blank_thr\<lparr>kt_state := KT_SLEEP, kt_wchan := Some (dev_waitq 0), kt_qlink := True\<rparr>,
            4 := blank_thr\<lparr>kt_state := KT_SLEEP_CANCELLABLE, kt_wchan := Some (dev_waitq 0), kt_qlink := True\<rparr>),
     kq := (kq two_threads)(dev_waitq 0 := \<lparr>tq_list = [4, 3], tq_size = 2\<rparr>)\<rparr>"

lemma two_sleepers_ok: "sched_inv two_sleepers"
  by (auto simp: two_sleepers_def two_threads_def blank_thr_def sched_inv_def queues_ok_def states_ok_def
      running_ok_def)

theorem sched_broadcast_on_wakes_all_witness:
  "\<exists>s'. sched_broadcast_on (dev_waitq 0) two_sleepers = Some s' \<and> tq_list (kq s' kt_runq) = [4, 3, 2]"
  using sched_broadcast_on_wakes_all [OF two_sleepers_ok, of "dev_waitq 0"]
  by (auto simp: two_sleepers_def two_threads_def)

end
