(* ===== verification/Ktqueue.thy ===== *)
theory Ktqueue
imports KList Sched
begin

text \<open>
  The queue functions of \<^verbatim>\<open>proc/sched.c\<close> once more, as the pointer code they are,
  over the rings of \<^verbatim>\<open>KList\<close>.  A thread is the address of its structure and its
  queue link lies at a fixed offset inside it (\<^verbatim>\<open>list_item\<close> subtracts that
  offset); a queue is the address of its anchor.  A simulation relates this code to the
  list queues of \<^verbatim>\<open>Sched\<close>, so the scheduler properties proved there hold of the
  pointer code.
\<close>

record ktq_heap =
  links :: lheap
  wchan :: "addr \<Rightarrow> addr"
  qsize :: "addr \<Rightarrow> int"

definition ptr_queue_init :: "addr \<Rightarrow> ktq_heap \<Rightarrow> ktq_heap option" where
  "ptr_queue_init q c = do {
     h \<leftarrow> list_init (links c) q;
     Some (c\<lparr>links := h, qsize := (qsize c)(q := 0)\<rparr>)
   }"

definition ptr_queue_empty :: "addr \<Rightarrow> ktq_heap \<Rightarrow> bool option" where
  "ptr_queue_empty q c = list_empty (links c) q"

definition ptr_enqueue :: "nat \<Rightarrow> addr \<Rightarrow> addr \<Rightarrow> ktq_heap \<Rightarrow> ktq_heap option" where
  "ptr_enqueue off q thr c = do {
     KASSERT (wchan c thr = NULL);
     h \<leftarrow> list_insert_head (links c) q (thr + off);
     Some (c\<lparr>links := h, wchan := (wchan c)(thr := q), qsize := (qsize c)(q := qsize c q + 1)\<rparr>)
   }"

definition ptr_dequeue :: "nat \<Rightarrow> addr \<Rightarrow> ktq_heap \<Rightarrow> (ktq_heap \<times> addr) option" where
  "ptr_dequeue off q c = do {
     e \<leftarrow> list_empty (links c) q;
     if e then Some (c, NULL)
     else do {
       link \<leftarrow> rd_prev (links c) q;
       let thr = link - off;
       h \<leftarrow> list_remove (links c) link;
       Some (c\<lparr>links := h, wchan := (wchan c)(thr := NULL), qsize := (qsize c)(q := qsize c q - 1)\<rparr>, thr)
     }
   }"

definition ptr_remove :: "nat \<Rightarrow> addr \<Rightarrow> addr \<Rightarrow> ktq_heap \<Rightarrow> ktq_heap option" where
  "ptr_remove off q thr c = do {
     b \<leftarrow> list_link_is_linked (links c) (thr + off);
     KASSERT b;
     h \<leftarrow> list_remove (links c) (thr + off);
     KASSERT (q \<noteq> NULL);
     Some (c\<lparr>links := h, wchan := (wchan c)(thr := NULL), qsize := (qsize c)(q := qsize c q - 1)\<rparr>)
   }"

section \<open>The simulation relation\<close>

definition ring_of :: "nat \<Rightarrow> 'a sched_scheme \<Rightarrow> qid \<Rightarrow> addr list" where
  "ring_of off s q = map (\<lambda>t. t + off) (tq_list (kq s q))"

definition qptr :: "(qid \<Rightarrow> addr) \<Rightarrow> qid option \<Rightarrow> addr" where
  "qptr qa w = (case w of None \<Rightarrow> NULL | Some q \<Rightarrow> qa q)"

definition ktq_rel :: "nat \<Rightarrow> (qid \<Rightarrow> addr) \<Rightarrow> qid set \<Rightarrow> ktq_heap \<Rightarrow> 'a sched_scheme \<Rightarrow> bool" where
  "ktq_rel off qa Q c s \<longleftrightarrow> queues_ok s \<and> inj_on qa Q
     \<and> (\<forall>q \<in> Q. is_list (links c) (qa q) (ring_of off s q) \<and> qsize c (qa q) = tq_size (kq s q))
     \<and> (\<forall>q \<in> Q. \<forall>r \<in> Q. qa q \<notin> set (ring_of off s r))
     \<and> (\<forall>t. wchan c t = qptr qa (kt_wchan (kt s t)))
     \<and> (\<forall>t q. kt_wchan (kt s t) = Some q \<longrightarrow> q \<in> Q)"

lemma ktq_relD:
  assumes "ktq_rel off qa Q c s"
  shows "queues_ok s" "inj_on qa Q"
    "q \<in> Q \<Longrightarrow> is_list (links c) (qa q) (ring_of off s q)"
    "q \<in> Q \<Longrightarrow> qsize c (qa q) = tq_size (kq s q)"
    "q \<in> Q \<Longrightarrow> r \<in> Q \<Longrightarrow> qa q \<notin> set (ring_of off s r)"
    "wchan c t = qptr qa (kt_wchan (kt s t))"
    "kt_wchan (kt s t) = Some q \<Longrightarrow> q \<in> Q"
  using assms by (auto simp: ktq_rel_def)

lemma in_ring_of: "queues_ok s \<Longrightarrow> t + off \<in> set (ring_of off s q) \<longleftrightarrow> kt_wchan (kt s t) = Some q"
  using queues_okD(3) [of s t q] by (auto simp: ring_of_def)

lemma rings_disjoint:
  assumes "ktq_rel off qa Q c s" and "q \<in> Q" and "r \<in> Q" and "r \<noteq> q"
  shows "set (qa r # ring_of off s r) \<inter> set (qa q # ring_of off s q) = {}"
proof -
  have "set (tq_list (kq s r)) \<inter> set (tq_list (kq s q)) = {}"
    using queues_okD(3) [OF ktq_relD(1) [OF assms(1)]] assms(4) by fastforce
  then have "set (ring_of off s r) \<inter> set (ring_of off s q) = {}" by (auto simp: ring_of_def)
  moreover have "qa r \<noteq> qa q" using ktq_relD(2) [OF assms(1)] assms(2-4) by (auto dest: inj_onD)
  ultimately show ?thesis using ktq_relD(5) [OF assms(1)] assms(2,3) by auto
qed

text \<open>The rings of the other queues, as the list interface wants them: indexed by anchor.\<close>

lemma other_rings:
  assumes rel: "ktq_rel off qa Q c s" and q: "q \<in> Q" and m: "m \<in> qa ` (Q - {q})"
  shows "is_list (links c) m (ring_of off s (inv_into Q qa m))
    \<and> set (m # ring_of off s (inv_into Q qa m)) \<inter> set (qa q # ring_of off s q) = {}"
proof -
  obtain r where r: "r \<in> Q" "r \<noteq> q" "m = qa r" using m by blast
  then have "inv_into Q qa m = r" using ktq_relD(2) [OF rel] by simp
  then show ?thesis using rings_disjoint [OF rel q r(1,2)] ktq_relD(3) [OF rel r(1)] r(3) by simp
qed

lemma other_rings_back:
  assumes "inj_on qa Q" and "\<forall>m \<in> qa ` (Q - {q}). is_list h m (ring_of off s (inv_into Q qa m))"
    and "r \<in> Q" and "r \<noteq> q"
  shows "is_list h (qa r) (ring_of off s r)"
  using assms by (metis Diff_iff imageI inv_into_f_f singletonD)

section \<open>The pointer code simulates the list queues\<close>

lemma ptr_queue_empty_sim:
  "\<lbrakk> ktq_rel off qa Q c s; q \<in> Q \<rbrakk> \<Longrightarrow> ptr_queue_empty q' c = Some (sched_queue_empty q s)"
  if "q' = qa q" for q'
  using that lr.empty_law [OF ktq_relD(3)]
  by (fastforce simp: ptr_queue_empty_def sched_queue_empty_def ring_of_def)

lemma ptr_enqueue_sim:
  assumes rel: "ktq_rel off qa Q c s" and q: "q \<in> Q"
    and t: "t + off \<noteq> NULL" "t + off \<notin> qa ` Q" and run: "ktqueue_enqueue q t s = Some s'"
  shows "\<exists>c'. ptr_enqueue off (qa q) t c = Some c' \<and> ktq_rel off qa Q c' s'"
proof -
  note qok = ktq_relD(1) [OF rel]
  have w: "kt_wchan (kt s t) = None" using run by (simp add: ktqueue_enqueue_def)
  note s' = ktqueue_enqueue_ok [OF qok w, of q]
  have rings: "ring_of off s' r = (if r = q then (t + off) # ring_of off s q else ring_of off s r)" for r
    using s' run by (auto simp: ring_of_def)
  have notin: "t + off \<notin> set (ring_of off s r)" for r using in_ring_of [OF qok] w by simp
  have fresh: "t + off \<notin> set (qa q # ring_of off s q)" using t(2) q notin [of q] by auto
  have M: "is_list (links c) m (ring_of off s (inv_into Q qa m))
      \<and> set (m # ring_of off s (inv_into Q qa m)) \<inter> set ((t + off) # qa q # ring_of off s q) = {}"
    if "m \<in> qa ` (Q - {q})" for m
    using other_rings [OF rel q that] notin [of "inv_into Q qa m"] t(2) that by auto
  obtain h where h: "list_insert_head (links c) (qa q) (t + off) = Some h"
    "is_list h (qa q) ((t + off) # ring_of off s q)"
    "\<forall>m \<in> qa ` (Q - {q}). is_list h m (ring_of off s (inv_into Q qa m))"
    using lr.push_law [OF ktq_relD(3) [OF rel q] fresh t(1) M] by blast
  define c' where "c' = c\<lparr>links := h, wchan := (wchan c)(t := qa q), qsize := (qsize c)(qa q := qsize c (qa q) + 1)\<rparr>"
  have run': "ptr_enqueue off (qa q) t c = Some c'"
    using h(1) ktq_relD(6) [OF rel, of t] w by (simp add: ptr_enqueue_def c'_def qptr_def)
  have sz: "tq_size (kq s' q) = tq_size (kq s q) + 1" "r \<noteq> q \<Longrightarrow> kq s' r = kq s r" for r
    using run w by (auto simp: ktqueue_enqueue_def Let_def)
  have sizes: "qsize c' (qa r) = tq_size (kq s' r)" if "r \<in> Q" for r
    using ktq_relD(2,4) [OF rel] that q sz by (cases "r = q") (auto simp: c'_def dest: inj_onD)
  have lists: "is_list (links c') (qa r) (ring_of off s' r)" if "r \<in> Q" for r
    using h(2) other_rings_back [OF ktq_relD(2) [OF rel] h(3) that] rings by (auto simp: c'_def)
  have "ktq_rel off qa Q c' s'"
    unfolding ktq_rel_def
  proof (intro conjI ballI allI impI)
    show "queues_ok s'" "wchan c' u = qptr qa (kt_wchan (kt s' u))" for u
      using s' run ktq_relD(6) [OF rel, of u] by (auto simp: c'_def qptr_def)
    show "u \<in> Q" if "kt_wchan (kt s' v) = Some u" for u v
      using s' run that q ktq_relD(7) [OF rel] by (auto split: if_splits)
    show "qa u \<notin> set (ring_of off s' r)" if u: "u \<in> Q" "r \<in> Q" for u r
    proof -
      have "qa u \<noteq> t + off" using t(2) u(1) by (metis imageI)
      then show ?thesis using ktq_relD(5) [OF rel u] ktq_relD(5) [OF rel u(1) q] rings [of r] by auto
    qed
  qed (use sizes lists ktq_relD(2) [OF rel] in auto)
  then show ?thesis using run' by blast
qed

lemma map_remove1_inj: "inj f \<Longrightarrow> map f (remove1 x xs) = remove1 (f x) (map f xs)"
  by (induction xs) (auto dest: injD)

lemma ptr_unlink_sim:
  assumes rel: "ktq_rel off qa Q c s" and w: "kt_wchan (kt s t) = Some q"
    and s': "queues_ok s'" "kt s' = (kt s)(t := (kt s t)\<lparr>kt_wchan := None, kt_qlink := False\<rparr>)"
      "tq_list (kq s' q) = remove1 t (tq_list (kq s q))" "\<forall>r. r \<noteq> q \<longrightarrow> kq s' r = kq s r"
  shows "\<exists>h. list_remove (links c) (t + off) = Some h \<and>
     ktq_rel off qa Q (c\<lparr>links := h, wchan := (wchan c)(t := NULL), qsize := (qsize c)(qa q := qsize c (qa q) - 1)\<rparr>) s'"
proof -
  note qok = ktq_relD(1) [OF rel]
  have q: "q \<in> Q" using ktq_relD(7) [OF rel w] .
  have rings: "ring_of off s' r = (if r = q then remove1 (t + off) (ring_of off s q) else ring_of off s r)" for r
    using s'(3,4) map_remove1_inj [of "\<lambda>t. t + off" t] by (simp add: ring_of_def inj_def)
  have tin: "t + off \<in> set (ring_of off s q)" using in_ring_of [OF qok] w by simp
  obtain h where h: "list_remove (links c) (t + off) = Some h"
    "is_list h (qa q) (remove1 (t + off) (ring_of off s q))"
    "\<forall>m \<in> qa ` (Q - {q}). is_list h m (ring_of off s (inv_into Q qa m))"
    using lr.unlink_law [OF ktq_relD(3) [OF rel q] tin other_rings [OF rel q]] by blast
  define c' where "c' = c\<lparr>links := h, wchan := (wchan c)(t := NULL), qsize := (qsize c)(qa q := qsize c (qa q) - 1)\<rparr>"
  have sz: "tq_size (kq s' q) = tq_size (kq s q) - 1"
    using queues_okD(2,3) [OF s'(1)] queues_okD(2,3) [OF qok] s'(3) w
    by (simp add: length_remove1_int)
  have sizes: "qsize c' (qa r) = tq_size (kq s' r)" if "r \<in> Q" for r
    using ktq_relD(2,4) [OF rel] that q sz s'(4) by (cases "r = q") (auto simp: c'_def dest: inj_onD)
  have lists: "is_list (links c') (qa r) (ring_of off s' r)" if "r \<in> Q" for r
    using h(2) other_rings_back [OF ktq_relD(2) [OF rel] h(3) that] rings by (auto simp: c'_def)
  have "ktq_rel off qa Q c' s'"
    unfolding ktq_rel_def
  proof (intro conjI ballI allI impI)
    show "wchan c' u = qptr qa (kt_wchan (kt s' u))" for u
      using s'(2) ktq_relD(6) [OF rel, of u] by (auto simp: c'_def qptr_def)
    show "u \<in> Q" if "kt_wchan (kt s' v) = Some u" for u v
      using s'(2) that ktq_relD(7) [OF rel] by (auto split: if_splits)
    show "qa u \<notin> set (ring_of off s' r)" if "u \<in> Q" "r \<in> Q" for u r
      using ktq_relD(5) [OF rel that] rings [of r] by (auto dest: notin_set_remove1 split: if_splits)
  qed (use sizes lists s'(1) ktq_relD(2) [OF rel] in auto)
  then show ?thesis using h(1) by (auto simp: c'_def)
qed

lemma ptr_dequeue_sim:
  assumes rel: "ktq_rel off qa Q c s" and q: "q \<in> Q" and run: "ktqueue_dequeue q s = (s', r)"
  shows "\<exists>c'. ptr_dequeue off (qa q) c = Some (c', case r of None \<Rightarrow> NULL | Some t \<Rightarrow> t) \<and> ktq_rel off qa Q c' s'"
proof (cases "tq_list (kq s q) = []")
  case True
  then show ?thesis
    using run rel lr.empty_law [OF ktq_relD(3) [OF rel q]]
    by (simp add: ktqueue_dequeue_empty ptr_dequeue_def ring_of_def)
next
  case False
  note qok = ktq_relD(1) [OF rel]
  note L = ktq_relD(3) [OF rel q]
  obtain t where t: "r = Some t" "t = last (tq_list (kq s q))" "queues_ok s'" "kt_wchan (kt s t) = Some q"
    "kt s' = (kt s)(t := (kt s t)\<lparr>kt_wchan := None, kt_qlink := False\<rparr>)"
    "tq_list (kq s' q) = butlast (tq_list (kq s q))" "\<forall>q'. q' \<noteq> q \<longrightarrow> kq s' q' = kq s q'"
    using ktqueue_dequeue_ok [OF qok False] run by auto
  have b: "tq_list (kq s' q) = remove1 t (tq_list (kq s q))"
    using t(2,6) distinct_remove1_last [OF queues_okD(1) [OF qok] False] by simp
  have rne: "ring_of off s q \<noteq> []" "last (ring_of off s q) = t + off"
    using False t(2) by (simp_all add: ring_of_def last_map)
  obtain h where "list_remove (links c) (t + off) = Some h"
    "ktq_rel off qa Q (c\<lparr>links := h, wchan := (wchan c)(t := NULL), qsize := (qsize c)(qa q := qsize c (qa q) - 1)\<rparr>) s'"
    using ptr_unlink_sim [OF rel t(4,3,5) b t(7)] by blast
  then show ?thesis
    using lr.empty_law [OF L] lr.tail_law [OF L rne(1)] rne t(1) by (simp add: ptr_dequeue_def)
qed

lemma ptr_remove_sim:
  assumes rel: "ktq_rel off qa Q c s" and w: "kt_wchan (kt s t) = Some q"
    and run: "ktqueue_remove (Some q) t s = Some s'"
  shows "\<exists>c'. ptr_remove off (qa q) t c = Some c' \<and> ktq_rel off qa Q c' s'"
proof -
  note qok = ktq_relD(1) [OF rel]
  have q: "q \<in> Q" using ktq_relD(7) [OF rel w] .
  have s': "queues_ok s'" "kt s' = (kt s)(t := (kt s t)\<lparr>kt_wchan := None, kt_qlink := False\<rparr>)"
    "tq_list (kq s' q) = remove1 t (tq_list (kq s q))" "\<forall>r. r \<noteq> q \<longrightarrow> kq s' r = kq s r"
    using ktqueue_remove_ok [OF qok w] run by auto
  have "list_link_is_linked (links c) (t + off) = Some True"
    using list_linked_correct [OF ktq_relD(3) [OF rel q]] in_ring_of [OF qok] w by simp
  moreover have "qa q \<noteq> NULL" using is_listD(4) [OF ktq_relD(3) [OF rel q]] .
  ultimately show ?thesis using ptr_unlink_sim [OF rel w s'] by (auto simp: ptr_remove_def)
qed

section \<open>Properties\<close>

text \<open>
  C3. The queue functions of \<^verbatim>\<open>sched.c\<close>, run as pointer code on the rings of
  \<^verbatim>\<open>list.h\<close>, implement the list queues the scheduler is verified with: from related
  states, enqueueing, dequeueing and removing lead to related states, dequeueing
  returns the same thread, and none of the pointer operations goes wrong.
\<close>

theorem ktqueue_refinement:
  assumes "ktq_rel off qa Q c s" and "q \<in> Q"
  shows "(\<forall>t s'. t + off \<noteq> NULL \<and> t + off \<notin> qa ` Q \<and> ktqueue_enqueue q t s = Some s' \<longrightarrow>
           (\<exists>c'. ptr_enqueue off (qa q) t c = Some c' \<and> ktq_rel off qa Q c' s')) \<and>
         (\<forall>s' r. ktqueue_dequeue q s = (s', r) \<longrightarrow>
           (\<exists>c'. ptr_dequeue off (qa q) c = Some (c', case r of None \<Rightarrow> NULL | Some t \<Rightarrow> t) \<and> ktq_rel off qa Q c' s')) \<and>
         (\<forall>t s'. kt_wchan (kt s t) = Some q \<and> ktqueue_remove (Some q) t s = Some s' \<longrightarrow>
           (\<exists>c'. ptr_remove off (qa q) t c = Some c' \<and> ktq_rel off qa Q c' s')) \<and>
         ptr_queue_empty (qa q) c = Some (sched_queue_empty q s)"
proof (intro conjI allI impI; (elim conjE)?)
  show "ptr_queue_empty (qa q) c = Some (sched_queue_empty q s)" by (rule ptr_queue_empty_sim [OF refl assms])
qed (use ptr_enqueue_sim [OF assms] ptr_dequeue_sim [OF assms] ptr_remove_sim [OF assms(1)] in simp_all)

definition runq_heap :: ktq_heap where
  "runq_heap = \<lparr>
     links = (\<lambda>p. if p = 1 then \<lparr>l_next = 12, l_prev = 12\<rparr> else if p = 12 then \<lparr>l_next = 1, l_prev = 1\<rparr>
                  else \<lparr>l_next = NULL, l_prev = NULL\<rparr>),
     wchan = (\<lambda>t. if t = 2 then 1 else NULL), qsize = (\<lambda>_. 1)\<rparr>"

theorem ktqueue_refinement_witness:
  "\<exists>c'. ptr_dequeue 10 1 runq_heap = Some (c', 2)
     \<and> ktq_rel 10 (\<lambda>_. 1) {kt_runq} c' (fst (ktqueue_dequeue kt_runq two_threads))"
proof -
  have "ktq_rel 10 (\<lambda>_. 1) {kt_runq} runq_heap two_threads"
    using two_threads_ok
    by (auto simp: ktq_rel_def sched_inv_def runq_heap_def two_threads_def blank_thr_def ring_of_def is_list_def
        qptr_def)
  note ref = ktqueue_refinement [OF this, of kt_runq, THEN conjunct2, THEN conjunct1, rule_format]
  have "ktqueue_dequeue kt_runq two_threads = (fst (ktqueue_dequeue kt_runq two_threads), Some 2)"
    by (simp add: ktqueue_dequeue_def two_threads_def)
  from ref [OF _ this] show ?thesis by simp
qed

end
