(* ===== verification/Kmutex.thy ===== *)
theory Kmutex
imports Sched
begin

text \<open>
  The mutexes of \<^verbatim>\<open>proc/kmutex.c\<close>.  The state adds the holder of every mutex; the
  wait queue of mutex \<^verbatim>\<open>m\<close> is \<^term>\<open>km_waitq m\<close>.  A call either returns
  (\<^const>\<open>Ret\<close>) or leaves the thread switched out (\<^const>\<open>Away\<close>).
\<close>

record ksync = sched +
  km_holder :: "nat \<Rightarrow> tid option"

definition kmutex_init :: "nat \<Rightarrow> 'a ksync_scheme \<Rightarrow> 'a ksync_scheme" where
  "kmutex_init m s =
     (let s = sched_queue_init (km_waitq m) s in s\<lparr>km_holder := (km_holder s)(m := None)\<rparr>)"

definition kmutex_lock :: "nat \<Rightarrow> irq list \<Rightarrow> 'a ksync_scheme \<Rightarrow> 'a ksync_scheme call_result option" where
  "kmutex_lock m irqs s = do {
     me \<leftarrow> curthr s;
     KASSERT (km_holder s m \<noteq> Some me);
     if km_holder s m \<noteq> None then do {
       (s, irqs) \<leftarrow> sched_sleep_on (km_waitq m) irqs s;
       Some (Away s irqs)
     } else Some (Ret (s\<lparr>km_holder := (km_holder s)(m := Some me)\<rparr>) 0)
   }"

definition kmutex_lock_cancellable ::
  "nat \<Rightarrow> irq list \<Rightarrow> 'a ksync_scheme \<Rightarrow> 'a ksync_scheme call_result option" where
  "kmutex_lock_cancellable m irqs s = do {
     me \<leftarrow> curthr s;
     KASSERT (km_holder s m \<noteq> Some me);
     if km_holder s m = None then Some (Ret (s\<lparr>km_holder := (km_holder s)(m := Some me)\<rparr>) 0)
     else sched_cancellable_sleep_on (km_waitq m) irqs s
   }"

definition kmutex_unlock :: "nat \<Rightarrow> 'a ksync_scheme \<Rightarrow> 'a ksync_scheme option" where
  "kmutex_unlock m s = do {
     me \<leftarrow> curthr s;
     KASSERT (km_holder s m = Some me);
     s \<leftarrow> (if tq_size (kq s (km_waitq m)) \<noteq> 0 then do {
             (s, w) \<leftarrow> sched_wakeup_on (km_waitq m) s;
             Some (s\<lparr>km_holder := (km_holder s)(m := w)\<rparr>)
           } else Some (s\<lparr>km_holder := (km_holder s)(m := None)\<rparr>));
     KASSERT (km_holder s m \<noteq> Some me);
     Some s
   }"

section \<open>The scheduler does not touch mutexes\<close>

lemma sched_more_holder:
  fixes s s' :: "'a ksync_scheme"
  assumes "sched.more s' = sched.more s"
  shows "km_holder s' = km_holder s" and "ksync.more s' = ksync.more s"
  using assms by (cases s, cases s', simp)+

lemmas holder_frames = sched_mores [THEN sched_more_holder(1)]

section \<open>The mutex invariant\<close>

text \<open>
  A thread waits for a mutex only while some other thread holds it.  The holders are a
  parameter, so that one statement serves the scheduler calls, which keep them.
\<close>

definition waits_ok :: "(nat \<Rightarrow> tid option) \<Rightarrow> 'a sched_scheme \<Rightarrow> bool" where
  "waits_ok H s \<longleftrightarrow> (\<forall>m t. kt_wchan (kt s t) = Some (km_waitq m) \<longrightarrow> H m \<noteq> None \<and> H m \<noteq> Some t)"

definition mutex_inv :: "'a ksync_scheme \<Rightarrow> bool" where
  "mutex_inv s \<longleftrightarrow> waits_ok (km_holder s) s"

lemma woken_waits: "waits_ok H s \<Longrightarrow> woken q t s s' \<Longrightarrow> waits_ok H s'"
  by (auto simp: waits_ok_def woken_def)

lemma ipl_waits [simp]: "waits_ok H (s\<lparr>ipl := e\<rparr>) = waits_ok H s"
  by (simp add: waits_ok_def)

lemma switch_from_waits:
  assumes sw: "switch_from me ctx irqs s = Some (s', irqs')" and irqs: "list_all irq_ok irqs"
    and inv: "sched_inv s" and leave: "may_leave me s" and w: "waits_ok H s"
  shows "waits_ok H s'"
proof -
  obtain s1 where f: "fill_runq irqs s = Some (s1, irqs')" and d: "dispatch me ctx s1 = Some s'"
    using sw by (rule switch_fromE)
  have "may_leave me s1" using f irqs inv leave
    by (rule fill_runq_induct) (auto simp: may_leave_def woken_def)
  moreover have "waits_ok H s1" using f irqs inv w
    by (rule fill_runq_induct) (auto intro: woken_waits)
  ultimately show ?thesis
    using fill_runq_ok [OF f irqs inv] dispatch_ok [of s1 me ctx] d by (auto simp: waits_ok_def)
qed

lemma sleep_waits:
  assumes "sched_sleep_on q irqs s = Some (s', irqs')" and "list_all irq_ok irqs"
    and "sched_inv s" and "cur_running s" and me: "curthr s = Some me" and "q \<noteq> kt_runq" and "waits_ok H s"
    and q: "\<And>m. q = km_waitq m \<Longrightarrow> H m \<noteq> None \<and> H m \<noteq> Some me"
  shows "waits_ok H s'"
proof -
  obtain s1 where s1: "sched_inv s1" "may_leave me s1"
    "kt s1 = (kt s)(me := (kt s me)\<lparr>kt_state := KT_SLEEP, kt_wchan := Some q, kt_qlink := True\<rparr>)"
    "switch_from me (Ctx_sleep (ipl s)) irqs s1 = Some (s', irqs')"
    using sched_sleep_onE [OF assms(1,3,4) me assms(6)] by metis
  have "waits_ok H s1" using assms(7) q s1(3) by (auto simp: waits_ok_def)
  then show ?thesis using switch_from_waits s1 assms(2) by blast
qed

lemma cancellable_waits:
  assumes "sched_cancellable_sleep_on q irqs s = Some (Away s' irqs')" and "list_all irq_ok irqs"
    and "sched_inv s" and "cur_running s" and me: "curthr s = Some me" and "q \<noteq> kt_runq" and "waits_ok H s"
    and q: "\<And>m. q = km_waitq m \<Longrightarrow> H m \<noteq> None \<and> H m \<noteq> Some me"
  shows "waits_ok H s'"
proof -
  obtain s1 where s1: "sched_inv s1" "may_leave me s1"
    "kt s1 = (kt s)(me := (kt s me)\<lparr>kt_state := KT_SLEEP_CANCELLABLE, kt_wchan := Some q, kt_qlink := True\<rparr>)"
    "switch_from me (Ctx_cancellable (ipl s)) irqs s1 = Some (s', irqs')"
    using sched_cancellable_sleep_onE [OF assms(1,3,4) me assms(6)] by metis
  have "waits_ok H s1" using assms(7) q s1(3) by (auto simp: waits_ok_def)
  then show ?thesis using switch_from_waits s1 assms(2) by blast
qed

lemma enqueue_ctx: "ktqueue_enqueue q t s = Some s' \<Longrightarrow> kt_ctx (kt s' u) = kt_ctx (kt s u)"
  by (auto simp: ktqueue_enqueue_def Let_def)

lemma sched_cancel_ctx: "sched_cancel t s = Some s' \<Longrightarrow> kt_ctx (kt s' u) = kt_ctx (kt s u)"
  by (auto simp: sched_cancel_def ktqueue_remove_def sched_make_runnable_def Let_def bind_Some_iff
      split: if_splits dest!: enqueue_ctx)

section \<open>Locking and unlocking\<close>

definition kernel_ok :: "'a ksync_scheme \<Rightarrow> bool" where
  "kernel_ok s \<longleftrightarrow> sched_inv s \<and> cur_running s \<and> mutex_inv s"

lemma kmutex_lock_free:
  assumes "kernel_ok s" and "curthr s = Some me" and "km_holder s m = None"
  shows "\<exists>s'. kmutex_lock m irqs s = Some (Ret s' 0) \<and> kernel_ok s' \<and> km_holder s' m = Some me
     \<and> (\<forall>m'. m' \<noteq> m \<longrightarrow> km_holder s' m' = km_holder s m') \<and> curthr s' = Some me"
  using assms
  by (auto simp: kmutex_lock_def kernel_ok_def mutex_inv_def waits_ok_def sched_inv_def
      queues_ok_def states_ok_def running_ok_def cur_running_def)

lemma kmutex_lock_ok:
  assumes "kernel_ok s" and "list_all irq_ok irqs" and run: "kmutex_lock m irqs s = Some r"
  shows "case r of Ret s' v \<Rightarrow> kernel_ok s' | Away s' irqs' \<Rightarrow> kernel_ok s' \<and> list_all irq_ok irqs'"
proof -
  have I: "sched_inv s" "cur_running s" "waits_ok (km_holder s) s"
    using assms(1) by (auto simp: kernel_ok_def mutex_inv_def)
  obtain me where me: "curthr s = Some me" using I(2) by (rule cur_runningE)
  show ?thesis
  proof (cases "km_holder s m")
    case None
    then show ?thesis using kmutex_lock_free [OF assms(1) me None, of irqs] run by auto
  next
    case (Some h)
    with run me obtain s' irqs' where r: "r = Away s' irqs'" and hm: "h \<noteq> me"
      and sl: "sched_sleep_on (km_waitq m) irqs s = Some (s', irqs')"
      by (auto simp: kmutex_lock_def bind_Some_iff)
    have "km_holder s' = km_holder s" using sleep_more [OF sl] by (rule sched_more_holder)
    moreover have "waits_ok (km_holder s) s'"
      using sl assms(2) I(1,2) me _ I(3) by (rule sleep_waits) (use Some hm in auto)
    ultimately show ?thesis
      using sched_sleep_on_ok [OF sl assms(2) I(1,2)] r by (simp add: kernel_ok_def mutex_inv_def)
  qed
qed

lemma kmutex_lock_cancellable_ok:
  assumes "kernel_ok s" and "list_all irq_ok irqs" and run: "kmutex_lock_cancellable m irqs s = Some r"
  shows "case r of Ret s' v \<Rightarrow> kernel_ok s' | Away s' irqs' \<Rightarrow> kernel_ok s' \<and> list_all irq_ok irqs'"
proof -
  have I: "sched_inv s" "cur_running s" "waits_ok (km_holder s) s"
    using assms(1) by (auto simp: kernel_ok_def mutex_inv_def)
  obtain me where me: "curthr s = Some me" using I(2) by (rule cur_runningE)
  show ?thesis
  proof (cases "km_holder s m")
    case None
    then show ?thesis using kmutex_lock_free [OF assms(1) me None, of irqs] run me
      by (auto simp: kmutex_lock_def kmutex_lock_cancellable_def)
  next
    case (Some h)
    then have sl: "sched_cancellable_sleep_on (km_waitq m) irqs s = Some r" and hm: "h \<noteq> me"
      using run me by (auto simp: kmutex_lock_cancellable_def)
    show ?thesis
    proof (cases r)
      case (Ret s' v)
      then show ?thesis using cancellable_more(2) [of "km_waitq m" irqs s s' v] sl assms(1) by simp
    next
      case (Away s' irqs')
      note sl = sl [unfolded Away]
      have "km_holder s' = km_holder s" using cancellable_more(1) [OF sl] by (rule sched_more_holder)
      moreover have "waits_ok (km_holder s) s'"
        using sl assms(2) I(1,2) me _ I(3) by (rule cancellable_waits) (use Some hm in auto)
      ultimately show ?thesis
        using sched_cancellable_sleep_on_ok [OF sl assms(2) I(1,2)] Away
        by (simp add: kernel_ok_def mutex_inv_def)
    qed
  qed
qed

lemma kmutex_unlock_ok:
  assumes ok: "kernel_ok s" and me: "curthr s = Some me" and h: "km_holder s m = Some me"
  shows "\<exists>s'. kmutex_unlock m s = Some s' \<and> kernel_ok s' \<and> curthr s' = Some me
     \<and> km_holder s' = (km_holder s)(m := (if tq_list (kq s (km_waitq m)) = [] then None
                                          else Some (last (tq_list (kq s (km_waitq m))))))
     \<and> tq_list (kq s' (km_waitq m)) = butlast (tq_list (kq s (km_waitq m)))
     \<and> (tq_list (kq s (km_waitq m)) \<noteq> [] \<longrightarrow>
          woken (km_waitq m) (last (tq_list (kq s (km_waitq m)))) s s')"
proof -
  let ?q = "km_waitq m"
  have I: "sched_inv s" "cur_running s" "waits_ok (km_holder s) s" and qok: "queues_ok s"
    using ok by (auto simp: kernel_ok_def mutex_inv_def sched_inv_def)
  have frame: "sched_inv (x\<lparr>km_holder := H\<rparr>) = sched_inv x"
    "cur_running (x\<lparr>km_holder := H\<rparr>) = cur_running x" "waits_ok H' (x\<lparr>km_holder := H\<rparr>) = waits_ok H' x"
    for H H' and x :: "'a ksync_scheme"
    by (simp_all add: sched_inv_def queues_ok_def states_ok_def running_ok_def cur_running_def waits_ok_def
        cong: option.case_cong)
  show ?thesis
  proof (cases "tq_list (kq s ?q) = []")
    case True
    then have "tq_size (kq s ?q) = 0" using queues_okD(2) [OF qok] by simp
    moreover have "waits_ok ((km_holder s)(m := None)) s"
      using I(3) queues_okD(3) [OF qok, of _ ?q] True by (auto simp: waits_ok_def)
    ultimately show ?thesis
      using me h True I(1,2) by (simp add: kmutex_unlock_def kernel_ok_def mutex_inv_def frame)
  next
    case False
    let ?w = "last (tq_list (kq s ?q))"
    have sz: "tq_size (kq s ?q) \<noteq> 0" using queues_okD(2) [OF qok, of ?q] False by simp
    obtain s1 where s1: "sched_wakeup_on ?q s = Some (s1, Some ?w)" "sched_inv s1" "woken ?q ?w s s1"
      using sched_wakeup_on_ok [OF I(1) False] by (auto simp: woken_def)
    have "kt_wchan (kt s ?w) = Some ?q" using queues_okD(3) [OF qok, of ?w ?q] False by simp
    then have wm: "?w \<noteq> me" using I(3) h by (auto simp: waits_ok_def)
    have H1: "km_holder s1 = km_holder s" using wakeup_more [OF s1(1)] by (rule sched_more_holder)
    have "cur_running s1" using I(2) me s1(3) wm by (auto simp: cur_running_def woken_def)
    moreover have w': "\<And>t. kt_wchan (kt s1 t) = Some ?q \<Longrightarrow> t \<noteq> ?w" using s1(3) by (auto simp: woken_def)
    have "waits_ok ((km_holder s)(m := Some ?w)) s1"
      using woken_waits [OF I(3) s1(3)] w' by (auto simp: waits_ok_def)
    ultimately show ?thesis
      using me h False sz s1 H1 wm
      by (auto simp: kmutex_unlock_def kernel_ok_def mutex_inv_def frame woken_def)
  qed
qed

text \<open>
  A thread that left the wait queue of a mutex because it was cancelled resumes with the
  value 0 and does not hold the mutex.
\<close>

lemma cancelled_waiter:
  assumes ok: "kernel_ok s" and w: "kt_wchan (kt s t) = Some (km_waitq m)"
    and st: "kt_state (kt s t) = KT_SLEEP_CANCELLABLE" and run: "sched_cancel t s = Some s'"
  shows "kt_wchan (kt s' t) = Some kt_runq \<and> km_holder s' m \<noteq> Some t"
proof -
  have "km_holder s' = km_holder s" using cancel_more [OF run] by (rule sched_more_holder)
  then show ?thesis
    using sched_cancel_ok [of s t] run ok w st by (auto simp: kernel_ok_def mutex_inv_def waits_ok_def)
qed

section \<open>The kernel as a transition system\<close>

text \<open>
  What the current thread, or an interrupt, can do at this level.  A thread that yields
  puts itself on the run queue first; an exiting one has set its state.
\<close>

inductive kstep :: "ksync \<Rightarrow> ksync \<Rightarrow> bool" where
  lock: "\<lbrakk> kmutex_lock m irqs s = Some (Ret s' v); list_all irq_ok irqs \<rbrakk> \<Longrightarrow> kstep s s'"
| lock_away: "\<lbrakk> kmutex_lock m irqs s = Some (Away s' irqs'); list_all irq_ok irqs \<rbrakk> \<Longrightarrow> kstep s s'"
| lock_c: "\<lbrakk> kmutex_lock_cancellable m irqs s = Some (Ret s' v); list_all irq_ok irqs \<rbrakk> \<Longrightarrow> kstep s s'"
| lock_c_away: "\<lbrakk> kmutex_lock_cancellable m irqs s = Some (Away s' irqs'); list_all irq_ok irqs \<rbrakk> \<Longrightarrow> kstep s s'"
| unlock: "kmutex_unlock m s = Some s' \<Longrightarrow> kstep s s'"
| sleep: "\<lbrakk> sched_sleep_on q irqs s = Some (s', irqs'); list_all irq_ok irqs; q \<noteq> kt_runq;
    \<And>m. q \<noteq> km_waitq m \<rbrakk> \<Longrightarrow> kstep s s'"
| csleep: "\<lbrakk> sched_cancellable_sleep_on q irqs s = Some (Away s' irqs'); list_all irq_ok irqs; q \<noteq> kt_runq;
    \<And>m. q \<noteq> km_waitq m \<rbrakk> \<Longrightarrow> kstep s s'"
| event: "\<lbrakk> handle_irq i s = Some s'; irq_ok i \<rbrakk> \<Longrightarrow> kstep s s'"
| cancel: "\<lbrakk> sched_cancel t s = Some s' \<rbrakk> \<Longrightarrow> kstep s s'"
| start: "\<lbrakk> kt_state (kt s t) = KT_NO_STATE; sched_make_runnable t s = Some s' \<rbrakk> \<Longrightarrow> kstep s s'"
| yield: "\<lbrakk> curthr s = Some me; sched_make_runnable me s = Some s1; list_all irq_ok irqs;
    sched_switch irqs s1 = Some (s', irqs') \<rbrakk> \<Longrightarrow> kstep s s'"
| exit: "\<lbrakk> curthr s = Some me; list_all irq_ok irqs;
    sched_switch irqs (set_thr me (\<lambda>k. k\<lparr>kt_state := KT_EXITED\<rparr>) s) = Some (s', irqs') \<rbrakk> \<Longrightarrow> kstep s s'"

lemma sched_call_ok:
  assumes "kernel_ok s" and "sched.more s' = sched.more s"
    and "sched_inv s'" and "cur_running s'" and "waits_ok (km_holder s) s'"
  shows "kernel_ok s'"
  using assms sched_more_holder(1) [OF assms(2)] by (simp add: kernel_ok_def mutex_inv_def)

lemma kstep_event:
  assumes ok: "kernel_ok s" and run: "handle_irq i s = Some s'" and i: "irq_ok i"
  shows "kernel_ok s'"
proof -
  have I: "sched_inv s" "cur_running s" "waits_ok (km_holder s) s"
    using ok by (auto simp: kernel_ok_def mutex_inv_def)
  have "sched_inv s \<and> cur_running s' \<and> waits_ok (km_holder s) s'"
    by (rule handle_irq_induct [OF run i I(1)])
      (use I in \<open>auto intro: woken_cur_running woken_waits\<close>)
  then show ?thesis using sched_call_ok [OF ok irq_more [OF run]] handle_irq_ok [OF I(1) i] run by simp
qed

lemma kstep_cancel:
  assumes ok: "kernel_ok s" and run: "sched_cancel t s = Some s'"
  shows "kernel_ok s'"
proof -
  have I: "sched_inv s" "cur_running s" "waits_ok (km_holder s) s"
    using ok by (auto simp: kernel_ok_def mutex_inv_def)
  have c: "sched_inv s'" "curthr s' = curthr s" "\<And>u. u \<noteq> t \<Longrightarrow> kt s' u = kt s u"
    "kt_wchan (kt s' t) = (if kt_state (kt s t) = KT_SLEEP_CANCELLABLE then Some kt_runq else kt_wchan (kt s t))"
    "kt_state (kt s' t) = (if kt_state (kt s t) = KT_SLEEP_CANCELLABLE then KT_RUN else kt_state (kt s t))"
    using sched_cancel_ok [OF I(1), of t] run by auto
  have "cur_running s'" using I(2) c(2-5) by (cases "curthr s = Some t") (auto simp: cur_running_def split: option.splits)
  moreover have "waits_ok (km_holder s) s'"
    unfolding waits_ok_def
  proof (intro allI impI)
    fix m u assume "kt_wchan (kt s' u) = Some (km_waitq m)"
    then have "kt_wchan (kt s u) = Some (km_waitq m)"
      using c(3,4) by (cases "u = t") (auto split: if_splits)
    then show "km_holder s m \<noteq> None \<and> km_holder s m \<noteq> Some u" using I(3) by (auto simp: waits_ok_def)
  qed
  ultimately show ?thesis using sched_call_ok [OF ok cancel_more [OF run] c(1)] by simp
qed

lemma make_runnable_waits:
  assumes "queues_ok s" and "states_ok {t} s" and "running_ok s" and "kt_wchan (kt s t) = None"
    and "sched_make_runnable t s = Some s'" and "waits_ok H s"
  shows "waits_ok H s' \<and> sched_inv s' \<and> curthr s' = curthr s
     \<and> kt s' = (kt s)(t := (kt s t)\<lparr>kt_state := KT_RUN, kt_wchan := Some kt_runq, kt_qlink := True\<rparr>)"
  using sched_make_runnable_ok [OF assms(1-4)] assms(5,6) by (auto simp: waits_ok_def)

lemma kstep_start:
  assumes ok: "kernel_ok s" and st: "kt_state (kt s t) = KT_NO_STATE" and run: "sched_make_runnable t s = Some s'"
  shows "kernel_ok s'"
proof -
  have I: "sched_inv s" "queues_ok s" "states_ok {} s" "running_ok s" "cur_running s" "waits_ok (km_holder s) s"
    using ok by (auto simp: kernel_ok_def mutex_inv_def sched_inv_def)
  have w: "kt_wchan (kt s t) = None"
    using states_okD [OF I(3), of t] st no_state_wchan by simp
  have s': "waits_ok (km_holder s) s'" "sched_inv s'" "curthr s' = curthr s"
    "kt s' = (kt s)(t := (kt s t)\<lparr>kt_state := KT_RUN, kt_wchan := Some kt_runq, kt_qlink := True\<rparr>)"
    using make_runnable_waits [OF I(2) _ I(4) w run I(6)] I(3) by (auto simp: states_ok_def)
  have "cur_running s'" using I(5) s'(3,4) st by (auto simp: cur_running_def split: option.splits)
  then show ?thesis using sched_call_ok [OF ok make_runnable_more [OF run] s'(2)] s'(1) by simp
qed

lemma kstep_yield:
  assumes ok: "kernel_ok s" and me: "curthr s = Some me" and mk: "sched_make_runnable me s = Some s1"
    and irqs: "list_all irq_ok irqs" and sw: "sched_switch irqs s1 = Some (s', irqs')"
  shows "kernel_ok s'"
proof -
  have I: "queues_ok s" "states_ok {} s" "running_ok s" "cur_running s" "waits_ok (km_holder s) s"
    using ok by (auto simp: kernel_ok_def mutex_inv_def sched_inv_def)
  have s1: "waits_ok (km_holder s) s1" "sched_inv s1" "curthr s1 = Some me"
    "kt s1 = (kt s)(me := (kt s me)\<lparr>kt_state := KT_RUN, kt_wchan := Some kt_runq, kt_qlink := True\<rparr>)"
    using make_runnable_waits [OF I(1) _ I(3) _ mk I(5)] I(2,4) me
    by (auto simp: states_ok_def cur_running_def)
  have l: "may_leave me s1" using s1(3,4) by (simp add: may_leave_def)
  have "waits_ok (km_holder s) s'"
    using sw irqs s1 l switch_from_waits [of me "Ctx_switch (ipl s1)" irqs "s1\<lparr>ipl := IPL_HIGH\<rparr>" s' irqs']
    by (simp add: sched_switch_def frame_simps may_leave_def)
  then show ?thesis
    using sched_call_ok [OF ok] sched_switch_ok [OF sw irqs s1(2,3) l] switch_more [OF sw] make_runnable_more [OF mk]
    by simp
qed

lemma kstep_exit:
  assumes ok: "kernel_ok s" and me: "curthr s = Some me" and irqs: "list_all irq_ok irqs"
    and sw: "sched_switch irqs (set_thr me (\<lambda>k. k\<lparr>kt_state := KT_EXITED\<rparr>) s) = Some (s', irqs')"
  shows "kernel_ok s'"
proof -
  let ?s = "set_thr me (\<lambda>k. k\<lparr>kt_state := KT_EXITED\<rparr>) s"
  have I: "sched_inv s" "cur_running s" "waits_ok (km_holder s) s"
    using ok by (auto simp: kernel_ok_def mutex_inv_def)
  have s1: "waits_ok (km_holder s) ?s" "sched_inv ?s" "may_leave me ?s"
    using I me by (auto simp: waits_ok_def sched_inv_def set_thr_frame states_ok_def running_ok_def
        cur_running_def may_leave_def)
  have "waits_ok (km_holder s) s'"
    using sw irqs me s1 switch_from_waits [of me "Ctx_switch (ipl s)" irqs "?s\<lparr>ipl := IPL_HIGH\<rparr>" s' irqs']
    by (simp add: sched_switch_def frame_simps may_leave_def)
  then show ?thesis
    using sched_call_ok [OF ok] sched_switch_ok [OF sw irqs s1(2) _ s1(3)] switch_more [OF sw] me
    by simp
qed

lemma kstep_ok:
  assumes "kstep s s'" and ok: "kernel_ok s"
  shows "kernel_ok s'"
  using assms(1)
proof cases
  case lock then show ?thesis using kmutex_lock_ok [OF ok] by fastforce
next
  case lock_away then show ?thesis using kmutex_lock_ok [OF ok] by fastforce
next
  case lock_c then show ?thesis using kmutex_lock_cancellable_ok [OF ok] by fastforce
next
  case lock_c_away then show ?thesis using kmutex_lock_cancellable_ok [OF ok] by fastforce
next
  case (unlock m)
  then obtain me where me: "curthr s = Some me" "km_holder s m = Some me"
    by (auto simp: kmutex_unlock_def bind_Some_iff)
  then show ?thesis using kmutex_unlock_ok [OF ok me] unlock by auto
next
  case (sleep q irqs irqs')
  have I: "sched_inv s" "cur_running s" "waits_ok (km_holder s) s"
    using ok by (auto simp: kernel_ok_def mutex_inv_def)
  obtain me where me: "curthr s = Some me" using I(2) by (rule cur_runningE)
  show ?thesis
    using sched_call_ok [OF ok sleep_more [OF sleep(1)]] sched_sleep_on_ok [OF sleep(1,2) I(1,2) sleep(3)]
      sleep_waits [OF sleep(1,2) I(1,2) me sleep(3) I(3)] sleep(4) by blast
next
  case (csleep q irqs irqs')
  have I: "sched_inv s" "cur_running s" "waits_ok (km_holder s) s"
    using ok by (auto simp: kernel_ok_def mutex_inv_def)
  obtain me where me: "curthr s = Some me" using I(2) by (rule cur_runningE)
  show ?thesis
    using sched_call_ok [OF ok cancellable_more(1) [OF csleep(1)]]
      sched_cancellable_sleep_on_ok [OF csleep(1,2) I(1,2) csleep(3)]
      cancellable_waits [OF csleep(1,2) I(1,2) me csleep(3) I(3)] csleep(4) by blast
qed (use ok kstep_event kstep_cancel kstep_start kstep_yield kstep_exit in blast)+

lemma kreach_ok: "kstep\<^sup>*\<^sup>* s s' \<Longrightarrow> kernel_ok s \<Longrightarrow> kernel_ok s'"
  by (induction rule: rtranclp_induct) (auto intro: kstep_ok)

section \<open>Properties\<close>

definition blank_q :: ktqueue where
  "blank_q = \<lparr>tq_list = [], tq_size = 0\<rparr>"

text \<open>Thread 1 runs and holds mutex 0; threads 3 and then 4 wait for it; thread 2 is ready.\<close>

definition contended :: ksync where
  "contended = \<lparr>
     kt = (\<lambda>_. blank_thr)(1 := blank_thr\<lparr>kt_state := KT_RUN\<rparr>,
            2 := blank_thr\<lparr>kt_state := KT_RUN, kt_wchan := Some kt_runq, kt_qlink := True\<rparr>,
            3 := blank_thr\<lparr>kt_state := KT_SLEEP, kt_wchan := Some (km_waitq 0), kt_qlink := True, kt_ctx := Ctx_sleep 0\<rparr>,
            4 := blank_thr\<lparr>kt_state := KT_SLEEP_CANCELLABLE, kt_wchan := Some (km_waitq 0), kt_qlink := True,
                           kt_ctx := Ctx_cancellable 0\<rparr>),
     kq = (\<lambda>_. blank_q)(kt_runq := \<lparr>tq_list = [2], tq_size = 1\<rparr>, km_waitq 0 := \<lparr>tq_list = [4, 3], tq_size = 2\<rparr>),
     curthr = Some 1, curproc = None, ipl = 0, km_holder = (\<lambda>_. None)(0 := Some 1)\<rparr>"

lemma contended_ok: "kernel_ok contended"
  by (auto simp: contended_def blank_thr_def blank_q_def kernel_ok_def mutex_inv_def waits_ok_def sched_inv_def
      queues_ok_def states_ok_def running_ok_def cur_running_def)

text \<open>
  C2. Every state the kernel can reach by locking, unlocking, sleeping, waking,
  cancelling, starting, yielding and exiting threads and by interrupts, in any order,
  satisfies the invariant: each thread is on at most the queue its wait channel names,
  sizes are right, sleepers are on queues and runnable threads are ready or current,
  and a thread waits for a mutex only while another thread holds it.
\<close>

theorem kernel_invariant:
  assumes "kstep\<^sup>*\<^sup>* s s'" and "kernel_ok s"
  shows "kernel_ok s'"
  using assms by (rule kreach_ok)

theorem kernel_invariant_witness:
  "\<exists>s1 s2. kmutex_unlock 0 contended = Some s1 \<and> sched_cancel 4 s1 = Some s2 \<and> kernel_ok s2"
proof -
  obtain s1 where s1: "kmutex_unlock 0 contended = Some s1" "kernel_ok s1"
    using kmutex_unlock_ok [OF contended_ok, of 1 0] by (auto simp: contended_def)
  obtain s2 where s2: "sched_cancel 4 s1 = Some s2"
    using sched_cancel_ok [of s1 4] s1(2) by (auto simp: kernel_ok_def)
  have "kstep\<^sup>*\<^sup>* contended s2" using kstep.unlock [OF s1(1)] kstep.cancel [OF s2] by (meson r_into_rtranclp rtranclp_trans)
  from kernel_invariant [OF this contended_ok] show ?thesis using s1 s2 by blast
qed

text \<open>
  C8. Unlocking a mutex: with nobody waiting it becomes free, and otherwise the thread
  that has waited longest becomes its holder, leaves the wait queue and is made
  runnable; the other waiters keep their order and the assertion that the caller has
  given the mutex up holds.
\<close>

theorem kmutex_unlock_hands_over:
  assumes "kernel_ok s" and "curthr s = Some me" and "km_holder s m = Some me"
  shows "\<exists>s'. kmutex_unlock m s = Some s' \<and> kernel_ok s' \<and> curthr s' = Some me
     \<and> km_holder s' = (km_holder s)(m := (if tq_list (kq s (km_waitq m)) = [] then None
                                          else Some (last (tq_list (kq s (km_waitq m))))))
     \<and> tq_list (kq s' (km_waitq m)) = butlast (tq_list (kq s (km_waitq m)))
     \<and> (tq_list (kq s (km_waitq m)) \<noteq> [] \<longrightarrow>
          kt_state (kt s' (last (tq_list (kq s (km_waitq m))))) = KT_RUN
          \<and> tq_list (kq s' kt_runq) = last (tq_list (kq s (km_waitq m))) # tq_list (kq s kt_runq))"
  using kmutex_unlock_ok [OF assms] by (auto simp: woken_def)

theorem kmutex_unlock_hands_over_witness:
  "\<exists>s'. kmutex_unlock 0 contended = Some s' \<and> km_holder s' 0 = Some 3
     \<and> tq_list (kq s' (km_waitq 0)) = [4] \<and> tq_list (kq s' kt_runq) = [3, 2]"
  using kmutex_unlock_hands_over [OF contended_ok, of 1 0] by (auto simp: contended_def)

text \<open>
  C12. Cancelling a thread that waits in \<^verbatim>\<open>kmutex_lock_cancellable\<close> puts it on the
  run queue although it does not hold the mutex, and when it runs its call returns 0,
  the value that means the mutex was obtained, instead of \<^verbatim>\<open>-EINTR\<close>.
\<close>

theorem cancelled_lock_reports_success:
  assumes ok: "kernel_ok s" and me: "curthr s = Some me" and t: "km_holder s m = Some h" "h \<noteq> me"
    and nc: "\<not> kt_cancelled (kt s me)" and ready: "tq_list (kq s kt_runq) \<noteq> []"
  shows "\<exists>s1 s2. kmutex_lock_cancellable m irqs s = Some (Away s1 irqs) \<and> sched_cancel me s1 = Some s2
     \<and> kt_cancelled (kt s2 me) \<and> kt_wchan (kt s2 me) = Some kt_runq \<and> km_holder s2 m = Some h
     \<and> resume_value (kt_ctx (kt s2 me)) = Some 0"
proof -
  have I: "sched_inv s" "cur_running s" using ok by (auto simp: kernel_ok_def)
  let ?q = "km_waitq m"
  obtain s0 where s0: "ktqueue_enqueue ?q me
      (set_thr me (\<lambda>k. k\<lparr>kt_state := KT_SLEEP_CANCELLABLE\<rparr>) (s\<lparr>ipl := IPL_HIGH\<rparr>)) = Some s0"
    "sched_inv s0" "may_leave me s0" "kq s0 kt_runq = kq s kt_runq"
    "kt s0 = (kt s)(me := (kt s me)\<lparr>kt_state := KT_SLEEP_CANCELLABLE, kt_wchan := Some ?q, kt_qlink := True\<rparr>)"
    using enqueue_self_ok [OF I me, of ?q KT_SLEEP_CANCELLABLE IPL_HIGH] by blast
  have r0: "tq_list (kq s0 kt_runq) \<noteq> []" using ready s0(4) by simp
  obtain s1 where d: "dispatch me (Ctx_cancellable (ipl s)) s0 = Some s1" and inv1: "sched_inv s1"
    and k1: "kt s1 me = (kt s0 me)\<lparr>kt_ctx := Ctx_cancellable (ipl s)\<rparr> \<or> curthr s1 = Some me"
    and c1: "curthr s1 = Some (last (tq_list (kq s0 kt_runq)))"
    using dispatch_ok [OF s0(2,3) r0, of "Ctx_cancellable (ipl s)"] by auto
  have "kt_wchan (kt s0 (last (tq_list (kq s0 kt_runq)))) = Some kt_runq"
    using queues_okD(3) [of s0 "last (tq_list (kq s0 kt_runq))" kt_runq] s0(2) r0 by (simp add: sched_inv_def)
  then have "curthr s1 \<noteq> Some me" using c1 s0(5) by auto
  with k1 s0(5) have st1: "kt_state (kt s1 me) = KT_SLEEP_CANCELLABLE" "kt_ctx (kt s1 me) = Ctx_cancellable (ipl s)"
    by auto
  have run: "kmutex_lock_cancellable m irqs s = Some (Away s1 irqs)"
    using me t nc s0(1) d by (simp add: kmutex_lock_cancellable_def sched_cancellable_sleep_on_def switch_from_now [OF r0])
  then have h1: "km_holder s1 = km_holder s"
    using cancellable_more(1) [of ?q irqs s s1 irqs, THEN sched_more_holder(1)] me t
    by (simp add: kmutex_lock_cancellable_def)
  obtain s2 where s2: "sched_cancel me s1 = Some s2" "kt_cancelled (kt s2 me)" "kt_wchan (kt s2 me) = Some kt_runq"
    using sched_cancel_ok [OF inv1, of me] st1(1) by auto
  have "km_holder s2 = km_holder s1" using cancel_more [OF s2(1)] by (rule sched_more_holder)
  moreover have "kt_ctx (kt s2 me) = kt_ctx (kt s1 me)" using sched_cancel_ctx [OF s2(1)] .
  ultimately show ?thesis using run s2 h1 st1(2) t(1) by auto
qed

definition latecomer :: ksync where
  "latecomer = contended\<lparr>km_holder := (\<lambda>_. None)(0 := Some 2)\<rparr>"

theorem cancelled_lock_reports_success_witness:
  "\<exists>s1 s2. kmutex_lock_cancellable 0 [] latecomer = Some (Away s1 []) \<and> sched_cancel 1 s1 = Some s2
     \<and> km_holder s2 0 = Some 2 \<and> resume_value (kt_ctx (kt s2 1)) = Some 0"
proof -
  have "kernel_ok latecomer"
    by (auto simp: latecomer_def contended_def blank_thr_def blank_q_def kernel_ok_def mutex_inv_def waits_ok_def
        sched_inv_def queues_ok_def states_ok_def running_ok_def cur_running_def)
  from cancelled_lock_reports_success [OF this, of 1 0 2 "[]"] show ?thesis
    by (auto simp: latecomer_def contended_def blank_thr_def)
qed

end
