(* ===== verification/KProc.thy ===== *)
theory KProc
imports Kmutex
begin

text \<open>
  Processes and the life of their threads: \<^verbatim>\<open>proc/proc.c\<close> and
  \<^verbatim>\<open>proc/kthread.c\<close>.  A process is named by the address its allocator returned; the
  results of the allocators (slab objects, stacks, page directories, memory maps) are
  arguments.  The calls that \<^verbatim>\<open>proc_cleanup\<close> and \<^verbatim>\<open>proc_kill\<close> make into
  the file system and the memory maps are collected in an environment record.
\<close>

datatype p_state_t = PROC_RUNNING | PROC_DEAD

abbreviation (input) PROC_MAX_COUNT :: int where "PROC_MAX_COUNT \<equiv> 65536"
abbreviation (input) PROC_NAME_LEN :: nat where "PROC_NAME_LEN \<equiv> 256"
abbreviation (input) NFILES :: nat where "NFILES \<equiv> 32"
abbreviation (input) PID_IDLE :: int where "PID_IDLE \<equiv> 0"
abbreviation (input) PID_INIT :: int where "PID_INIT \<equiv> 1"

record proc =
  p_pid :: int
  p_comm :: string
  p_threads :: "tid list"
  p_children :: "pref list"
  p_pproc :: "pref option"
  p_status :: int
  p_state :: p_state_t
  p_pagedir :: "nat option"
  p_files :: "nat option list"
  p_cwd :: "nat option"
  p_brk :: nat
  p_start_brk :: nat
  p_vmmap :: "nat option"

record kproc = ksync +
  procs :: "pref \<Rightarrow> proc"
  k_proc_list :: "pref list"
  proc_initproc :: "pref option"
  next_pid :: int
  map_proc :: "nat \<Rightarrow> pref option"

definition set_proc :: "pref \<Rightarrow> (proc \<Rightarrow> proc) \<Rightarrow> 'a kproc_scheme \<Rightarrow> 'a kproc_scheme" where
  "set_proc p f s = s\<lparr>procs := (procs s)(p := f (procs s p))\<rparr>"

record 's penv =
  e_vput :: "nat \<Rightarrow> 's \<Rightarrow> 's option"
  e_close :: "int \<Rightarrow> 's \<Rightarrow> 's option"
  e_vmmap_destroy :: "nat \<Rightarrow> 's \<Rightarrow> 's option"

section \<open>Process identifiers\<close>

definition proc_init :: "'a kproc_scheme \<Rightarrow> 'a kproc_scheme" where
  "proc_init s = s\<lparr>k_proc_list := []\<rparr>"

text \<open>The search of \<^verbatim>\<open>_proc_getid\<close>: the pid, and the new \<^verbatim>\<open>next_pid\<close>.\<close>

partial_function (option) getid_loop :: "int \<Rightarrow> (int \<Rightarrow> bool) \<Rightarrow> int \<Rightarrow> (int \<times> int) option" where
  "getid_loop nx used pid =
     (if used pid then
        (if (pid + 1) mod PROC_MAX_COUNT = nx then Some (- 1, nx)
         else getid_loop nx used ((pid + 1) mod PROC_MAX_COUNT))
      else Some (pid, (pid + 1) mod PROC_MAX_COUNT))"

definition pid_used :: "'a kproc_scheme \<Rightarrow> int \<Rightarrow> bool" where
  "pid_used s pid = list_ex (\<lambda>p. p_pid (procs s p) = pid) (k_proc_list s)"

definition proc_getid :: "'a kproc_scheme \<Rightarrow> ('a kproc_scheme \<times> int) option" where
  "proc_getid s = do {
     (pid, nx) \<leftarrow> getid_loop (next_pid s) (pid_used s) (next_pid s);
     Some (s\<lparr>next_pid := nx\<rparr>, pid)
   }"

definition proc_lookup :: "int \<Rightarrow> 'a kproc_scheme \<Rightarrow> pref option" where
  "proc_lookup pid s = find (\<lambda>p. p_pid (procs s p) = pid) (k_proc_list s)"

definition proc_list :: "'a kproc_scheme \<Rightarrow> pref list" where
  "proc_list s = k_proc_list s"

section \<open>Creation\<close>

definition proc_create :: "string \<Rightarrow> pref option \<Rightarrow> nat option \<Rightarrow> nat option
    \<Rightarrow> 'a kproc_scheme \<Rightarrow> ('a kproc_scheme \<times> pref) option" where
  "proc_create name newp newmap pagedir s = do {
     let parent = curproc s;
     proc \<leftarrow> newp;
     let s = set_proc proc (\<lambda>r. r\<lparr>p_threads := [], p_children := []\<rparr>) s;
     let s = sched_queue_init (p_wait proc) s;
     (s, pid) \<leftarrow> proc_getid s;
     let s = set_proc proc (\<lambda>r. r\<lparr>p_pid := pid, p_cwd := None\<rparr>) s;
     mp \<leftarrow> newmap;
     let s = s\<lparr>map_proc := (map_proc s)(mp := Some proc)\<rparr>;
     let s = set_proc proc (\<lambda>r. r\<lparr>p_vmmap := Some mp\<rparr>) s;
     let s = (if pid = PID_INIT then s\<lparr>proc_initproc := Some proc\<rparr> else s);
     let s = set_proc proc (\<lambda>r. r\<lparr>p_files := replicate NFILES None\<rparr>) s;
     KASSERT (pid \<noteq> PID_IDLE \<or> k_proc_list s = []);
     (if pid = PID_INIT then do { pp \<leftarrow> parent; KASSERT (p_pid (procs s pp) = PID_IDLE) } else Some ());
     let s = set_proc proc (\<lambda>r. r\<lparr>p_pagedir := pagedir, p_state := PROC_RUNNING, p_status := 0,
                                   p_comm := take PROC_NAME_LEN name, p_pproc := parent\<rparr>) s;
     let s = (case parent of None \<Rightarrow> s
              | Some pp \<Rightarrow> set_proc pp (\<lambda>r. r\<lparr>p_children := p_children r @ [proc]\<rparr>) s);
     Some (s\<lparr>k_proc_list := k_proc_list s @ [proc]\<rparr>, proc)
   }"

definition kthread_create :: "pref \<Rightarrow> tid option \<Rightarrow> bool \<Rightarrow> 'a kproc_scheme
    \<Rightarrow> ('a kproc_scheme \<times> tid) option" where
  "kthread_create p newthr stack s = do {
     thr \<leftarrow> newthr;
     let s = set_thr thr (\<lambda>k. k\<lparr>kt_retval := None, kt_errno := 0, kt_cancelled := False, kt_kstack := stack,
                               kt_proc := Some p, kt_state := KT_NO_STATE, kt_wchan := None,
                               kt_plink := False, kt_qlink := False\<rparr>) s;
     let s = set_proc p (\<lambda>r. r\<lparr>p_threads := p_threads r @ [thr]\<rparr>) s;
     let s = set_thr thr (\<lambda>k. k\<lparr>kt_plink := True\<rparr>) s;
     KASSERT (p_pagedir (procs s p) \<noteq> None);
     KASSERT stack;
     Some (set_thr thr (\<lambda>k. k\<lparr>kt_ctx := Ctx_fresh\<rparr>) s, thr)
   }"

definition kthread_destroy :: "tid \<Rightarrow> 'a kproc_scheme \<Rightarrow> 'a kproc_scheme option" where
  "kthread_destroy t s = do {
     KASSERT (kt_kstack (kt s t));
     Some (if kt_plink (kt s t)
           then set_thr t (\<lambda>k. k\<lparr>kt_plink := False\<rparr>)
                  (s\<lparr>procs := (\<lambda>p. (procs s p)\<lparr>p_threads := remove1 t (p_threads (procs s p))\<rparr>)\<rparr>)
           else s)
   }"

definition kthread_clone :: "tid \<Rightarrow> tid option \<Rightarrow> bool \<Rightarrow> 'a kproc_scheme
    \<Rightarrow> ('a kproc_scheme \<times> tid) option" where
  "kthread_clone thr newthr stack s = do {
     KASSERT (kt_state (kt s thr) = KT_RUN);
     new \<leftarrow> newthr;
     let k = kt s thr;
     let s = set_thr new (\<lambda>n. n\<lparr>kt_retval := kt_retval k, kt_errno := kt_errno k, kt_cancelled := kt_cancelled k,
                               kt_kstack := stack, kt_state := kt_state k, kt_wchan := None,
                               kt_plink := False, kt_qlink := False\<rparr>) s;
     KASSERT (kt_state (kt s new) = KT_RUN);
     Some (s, new)
   }"

section \<open>Exit\<close>

text \<open>
  The reparenting loop reads the first child again on every round; a process that is its
  own reaper would move its children for ever.
\<close>

partial_function (option) reparent :: "pref \<Rightarrow> pref \<Rightarrow> 'a kproc_scheme \<Rightarrow> 'a kproc_scheme option" where
  "reparent cur ini s =
     (case p_children (procs s cur) of
        [] \<Rightarrow> Some s
      | c # cs \<Rightarrow>
          reparent cur ini
            (set_proc c (\<lambda>r. r\<lparr>p_pproc := Some ini\<rparr>)
              (set_proc ini (\<lambda>r. r\<lparr>p_children := p_children r @ [c]\<rparr>)
                (set_proc cur (\<lambda>r. r\<lparr>p_children := cs\<rparr>) s))))"

definition close_files :: "(nat \<Rightarrow> 'a kproc_scheme \<Rightarrow> 'a kproc_scheme option) \<Rightarrow> pref
    \<Rightarrow> 'a kproc_scheme \<Rightarrow> 'a kproc_scheme option" where
  "close_files close cur = foldM (\<lambda>fd s.
     if fd < length (p_files (procs s cur)) \<and> p_files (procs s cur) ! fd \<noteq> None then close fd s else Some s) [0..<NFILES]"

definition destroy_map :: "'a kproc_scheme penv \<Rightarrow> pref \<Rightarrow> 'a kproc_scheme \<Rightarrow> 'a kproc_scheme option" where
  "destroy_map env cur s =
     (case p_vmmap (procs s cur) of None \<Rightarrow> Some s | Some m \<Rightarrow> e_vmmap_destroy env m s)"

definition proc_cleanup :: "'a kproc_scheme penv \<Rightarrow> int \<Rightarrow> 'a kproc_scheme \<Rightarrow> 'a kproc_scheme option" where
  "proc_cleanup env status s = do {
     ini \<leftarrow> proc_initproc s;
     cur \<leftarrow> curproc s;
     KASSERT (1 \<le> p_pid (procs s cur));
     parent \<leftarrow> p_pproc (procs s cur);
     (s, _) \<leftarrow> sched_wakeup_on (p_wait parent) s;
     s \<leftarrow> (case p_cwd (procs s cur) of None \<Rightarrow> Some s | Some v \<Rightarrow> e_vput env v s);
     s \<leftarrow> close_files (\<lambda>fd. e_close env (int fd)) cur s;
     s \<leftarrow> destroy_map env cur s;
     s \<leftarrow> reparent cur ini s;
     let s = set_proc cur (\<lambda>r. r\<lparr>p_state := PROC_DEAD, p_status := status\<rparr>) s;
     KASSERT (p_pproc (procs s cur) \<noteq> None);
     Some s
   }"

definition proc_thread_exited :: "'a kproc_scheme penv \<Rightarrow> int option \<Rightarrow> irq list \<Rightarrow> 'a kproc_scheme
    \<Rightarrow> ('a kproc_scheme \<times> irq list) option" where
  "proc_thread_exited env retval irqs s = do {
     status \<leftarrow> retval;
     s \<leftarrow> proc_cleanup env status s;
     sched_switch irqs s
   }"

definition kthread_exit :: "'a kproc_scheme penv \<Rightarrow> int option \<Rightarrow> irq list \<Rightarrow> 'a kproc_scheme
    \<Rightarrow> ('a kproc_scheme \<times> irq list) option" where
  "kthread_exit env retval irqs s = do {
     me \<leftarrow> curthr s;
     let s = set_thr me (\<lambda>k. k\<lparr>kt_retval := retval, kt_state := KT_EXITED\<rparr>) s;
     KASSERT (kt_wchan (kt s me) = None);
     KASSERT (\<not> kt_qlink (kt s me));
     KASSERT (kt_proc (kt s me) = curproc s);
     proc_thread_exited env retval irqs s
   }"

definition kthread_cancel :: "'a kproc_scheme penv \<Rightarrow> tid \<Rightarrow> int option \<Rightarrow> irq list \<Rightarrow> 'a kproc_scheme
    \<Rightarrow> 'a kproc_scheme call_result option" where
  "kthread_cancel env t retval irqs s =
     (if curthr s = Some t then do {
        (s, irqs) \<leftarrow> kthread_exit env retval irqs s;
        Some (Away s irqs)
      } else do {
        s \<leftarrow> sched_cancel t (set_thr t (\<lambda>k. k\<lparr>kt_retval := retval\<rparr>) s);
        Some (Ret s 0)
      })"

text \<open>Cancelling a list of threads; a thread that cancels itself does not come back.\<close>

fun cancel_threads :: "'a kproc_scheme penv \<Rightarrow> int option \<Rightarrow> irq list \<Rightarrow> tid list \<Rightarrow> 'a kproc_scheme
    \<Rightarrow> 'a kproc_scheme call_result option" where
  "cancel_threads env retval irqs [] s = Some (Ret s 0)"
| "cancel_threads env retval irqs (t # ts) s = do {
     r \<leftarrow> kthread_cancel env t retval irqs s;
     case r of Ret s v \<Rightarrow> cancel_threads env retval irqs ts s | Away s is \<Rightarrow> Some (Away s is)
   }"

definition do_exit :: "'a kproc_scheme penv \<Rightarrow> int \<Rightarrow> irq list \<Rightarrow> 'a kproc_scheme
    \<Rightarrow> ('a kproc_scheme \<times> irq list) option" where
  "do_exit env status irqs s = do {
     cur \<leftarrow> curproc s;
     r \<leftarrow> cancel_threads env (Some status) irqs
           (filter (\<lambda>t. curthr s \<noteq> Some t) (p_threads (procs s cur))) s;
     case r of
       Ret s v \<Rightarrow> kthread_exit env (Some status) irqs s
     | Away s is \<Rightarrow> Some (s, is)
   }"

text \<open>
  \<^verbatim>\<open>proc_kill\<close> closes with the uninitialised variable that shadows the loop counter;
  its value is the argument \<^verbatim>\<open>junk\<close>.
\<close>

definition proc_kill :: "'a kproc_scheme penv \<Rightarrow> (nat \<Rightarrow> int) \<Rightarrow> pref \<Rightarrow> int \<Rightarrow> irq list \<Rightarrow> 'a kproc_scheme
    \<Rightarrow> 'a kproc_scheme call_result option" where
  "proc_kill env junk p status irqs s = do {
     cur \<leftarrow> curproc s;
     s \<leftarrow> close_files (\<lambda>fd. e_close env (junk fd)) cur s;
     s \<leftarrow> destroy_map env cur s;
     if p = cur then do {
       (s, irqs) \<leftarrow> do_exit env status irqs s;
       Some (Away s irqs)
     } else cancel_threads env None irqs (p_threads (procs s p)) s
   }"

fun kill_list :: "'a kproc_scheme penv \<Rightarrow> (pref \<Rightarrow> nat \<Rightarrow> int) \<Rightarrow> irq list \<Rightarrow> pref list \<Rightarrow> 'a kproc_scheme
    \<Rightarrow> 'a kproc_scheme call_result option" where
  "kill_list env junk irqs [] s = Some (Ret s 0)"
| "kill_list env junk irqs (p # ps) s =
     (if p_pid (procs s p) = PID_IDLE then kill_list env junk irqs ps s
      else do {
        pp \<leftarrow> p_pproc (procs s p);
        if p_pid (procs s pp) = PID_IDLE then kill_list env junk irqs ps s
        else do {
          r \<leftarrow> proc_kill env (junk p) p (p_status (procs s p)) irqs s;
          case r of Ret s v \<Rightarrow> kill_list env junk irqs ps s | Away s is \<Rightarrow> Some (Away s is)
        }
      })"

definition proc_kill_all :: "'a kproc_scheme penv \<Rightarrow> (pref \<Rightarrow> nat \<Rightarrow> int) \<Rightarrow> irq list \<Rightarrow> 'a kproc_scheme
    \<Rightarrow> 'a kproc_scheme call_result option" where
  "proc_kill_all env junk irqs s = kill_list env junk irqs (k_proc_list s) s"

section \<open>Waiting for children\<close>

datatype 's wait_result = Reaped 's int "int option" | Failed int | Waiting 's "irq list"

definition reap :: "pref \<Rightarrow> 'a kproc_scheme \<Rightarrow> 'a kproc_scheme option" where
  "reap d s = do {
     KASSERT (p_pagedir (procs s d) \<noteq> None);
     s \<leftarrow> foldM (\<lambda>t s. do { KASSERT (kt_state (kt s t) = KT_EXITED); kthread_destroy t s })
           (p_threads (procs s d)) s;
     let s = s\<lparr>procs := (\<lambda>p. (procs s p)\<lparr>p_children := remove1 d (p_children (procs s p))\<rparr>)\<rparr>;
     Some (s\<lparr>k_proc_list := remove1 d (k_proc_list s)\<rparr>)
   }"

text \<open>
  One round of the loop in \<^verbatim>\<open>do_waitpid\<close>.  A round that finds no dead child sleeps on
  the process's wait queue; the thread runs the next round when it is resumed.
\<close>

definition waitpid_round :: "bool \<Rightarrow> irq list \<Rightarrow> 'a kproc_scheme \<Rightarrow> 'a kproc_scheme wait_result option" where
  "waitpid_round want irqs s = do {
     cur \<leftarrow> curproc s;
     case find (\<lambda>c. p_state (procs s c) = PROC_DEAD) (p_children (procs s cur)) of
       Some d \<Rightarrow> do {
         let st = (if want then Some (p_status (procs s d)) else None);
         s \<leftarrow> reap d s;
         Some (Reaped s (p_pid (procs s d)) st)
       }
     | None \<Rightarrow> do {
         (s, irqs) \<leftarrow> sched_sleep_on (p_wait cur) irqs s;
         Some (Waiting s irqs)
       }
   }"

definition do_waitpid :: "int \<Rightarrow> bool \<Rightarrow> irq list \<Rightarrow> 'a kproc_scheme \<Rightarrow> 'a kproc_scheme wait_result option" where
  "do_waitpid pid want irqs s = do {
     cur \<leftarrow> curproc s;
     if p_children (procs s cur) = [] then Some (Failed (- ECHILD))
     else if pid = - 1 then waitpid_round want irqs s
     else if pid > 0 then
       (case proc_lookup pid s of
          None \<Rightarrow> Some (Failed (- ECHILD))
        | Some p \<Rightarrow>
            if p_pproc (procs s p) \<noteq> Some cur then Some (Failed (- ECHILD))
            else do {
              KASSERT (p_pid (procs s p) = pid);
              waitpid_round want irqs s
            })
     else Some (Failed pid)
   }"

section \<open>Process identifiers are fresh\<close>

text \<open>The \<^verbatim>\<open>i\<close>-th candidate, counting cyclically from \<^verbatim>\<open>next_pid\<close>.\<close>

definition pid_at :: "int \<Rightarrow> nat \<Rightarrow> int" where
  "pid_at nx i = (nx + int i) mod PROC_MAX_COUNT"

lemma pid_at_Suc: "(pid_at nx i + 1) mod PROC_MAX_COUNT = pid_at nx (Suc i)"
  by (simp add: pid_at_def mod_add_right_eq ac_simps)

lemma pid_at_0: "0 \<le> nx \<Longrightarrow> nx < PROC_MAX_COUNT \<Longrightarrow> pid_at nx 0 = nx"
  by (simp add: pid_at_def)

lemma pid_at_wrap:
  assumes "0 \<le> nx" "nx < PROC_MAX_COUNT" "0 < i" "i \<le> 65536"
  shows "pid_at nx i = nx \<longleftrightarrow> i = 65536"
proof (cases "nx + int i < PROC_MAX_COUNT")
  case True
  then have "pid_at nx i = nx + int i" using assms(1) by (simp add: pid_at_def)
  then show ?thesis using True assms(1,3) by linarith
next
  case False
  then have "(nx + int i) mod PROC_MAX_COUNT = (nx + int i - PROC_MAX_COUNT) mod PROC_MAX_COUNT" by simp
  also have "\<dots> = nx + int i - PROC_MAX_COUNT"
    using False assms by (intro mod_pos_pos_trivial) linarith+
  finally show ?thesis by (simp add: pid_at_def)
qed

lemma pid_at_range: "0 \<le> pid_at nx i" "pid_at nx i < PROC_MAX_COUNT"
  by (simp_all add: pid_at_def)

lemma pid_at_onto:
  assumes "0 \<le> nx" "nx < PROC_MAX_COUNT" "0 \<le> pid" "pid < PROC_MAX_COUNT"
  shows "\<exists>i < 65536. pid_at nx i = pid"
proof (intro exI conjI)
  show "nat ((pid - nx) mod PROC_MAX_COUNT) < 65536" by (simp add: nat_less_iff)
  show "pid_at nx (nat ((pid - nx) mod PROC_MAX_COUNT)) = pid"
    using assms by (simp add: pid_at_def mod_add_right_eq)
qed

lemma getid_loop_step:
  assumes nx: "0 \<le> nx" "nx < PROC_MAX_COUNT" and i: "i < 65536"
  shows "getid_loop nx used (pid_at nx i) =
    (if used (pid_at nx i) then if Suc i = 65536 then Some (- 1, nx) else getid_loop nx used (pid_at nx (Suc i))
     else Some (pid_at nx i, pid_at nx (Suc i)))"
  using getid_loop.simps [of nx used "pid_at nx i"] pid_at_wrap [OF nx, of "Suc i"] i
  by (simp add: pid_at_Suc)

lemma getid_loop_finds:
  assumes nx: "0 \<le> nx" "nx < PROC_MAX_COUNT" and "i \<le> j" and j: "j < 65536" "\<not> used (pid_at nx j)"
    and "\<And>k. i \<le> k \<Longrightarrow> k < j \<Longrightarrow> used (pid_at nx k)"
  shows "getid_loop nx used (pid_at nx i) = Some (pid_at nx j, pid_at nx (Suc j))"
  using assms(3,6)
proof (induction i rule: inc_induct)
  case base
  then show ?case using getid_loop_step [OF nx j(1)] j(2) by simp
next
  case (step i)
  then show ?case using getid_loop_step [OF nx, of i used] j(1) by simp
qed

lemma getid_loop_full:
  assumes nx: "0 \<le> nx" "nx < PROC_MAX_COUNT" and "i < 65536"
    and "\<And>k. i \<le> k \<Longrightarrow> k < 65536 \<Longrightarrow> used (pid_at nx k)"
  shows "getid_loop nx used (pid_at nx i) = Some (- 1, nx)"
  using assms(3,4)
proof (induction "65535 - i" arbitrary: i)
  case 0
  then show ?case using getid_loop_step [OF nx, of i used] by simp
next
  case (Suc d)
  then have "Suc i < 65536" by simp
  then show ?case using Suc getid_loop_step [OF nx, of i used] by simp
qed

lemma getid_loop_ok:
  assumes nx: "0 \<le> nx" "nx < PROC_MAX_COUNT"
  shows "\<exists>pid nx'. getid_loop nx used nx = Some (pid, nx') \<and> 0 \<le> nx' \<and> nx' < PROC_MAX_COUNT \<and>
    (if \<forall>p. 0 \<le> p \<and> p < PROC_MAX_COUNT \<longrightarrow> used p then pid = - 1
     else 0 \<le> pid \<and> pid < PROC_MAX_COUNT \<and> \<not> used pid)"
proof (cases "\<forall>p. 0 \<le> p \<and> p < PROC_MAX_COUNT \<longrightarrow> used p")
  case True
  then have "used (pid_at nx k)" for k using pid_at_range by blast
  then have "getid_loop nx used (pid_at nx 0) = Some (- 1, nx)"
    by (intro getid_loop_full [OF nx]) simp_all
  then show ?thesis unfolding if_P [OF True] using pid_at_0 [OF nx] nx by metis
next
  case False
  then obtain p where p: "0 \<le> p" "p < PROC_MAX_COUNT" "\<not> used p" by blast
  obtain i where i: "i < 65536" "pid_at nx i = p" using pid_at_onto [OF nx p(1,2)] by blast
  define j where "j = (LEAST j. \<not> used (pid_at nx j))"
  have ui: "\<not> used (pid_at nx i)" using i(2) p(3) by simp
  have j1: "\<not> used (pid_at nx j)" unfolding j_def by (rule LeastI, rule ui)
  have j2: "j \<le> i" unfolding j_def by (rule Least_le, rule ui)
  have j3: "used (pid_at nx k)" if "k < j" for k using not_less_Least that unfolding j_def by blast
  have "getid_loop nx used (pid_at nx 0) = Some (pid_at nx j, pid_at nx (Suc j))"
    by (rule getid_loop_finds [OF nx]) (use j1 j2 j3 i(1) in simp_all)
  then show ?thesis unfolding if_not_P [OF False] using j1 pid_at_0 [OF nx] pid_at_range by metis
qed

section \<open>The process tree\<close>

text \<open>
  The process list has no duplicates and no two processes share a pid; the children list
  of a process holds exactly the listed processes whose parent it is; parents are listed.
\<close>

definition proc_inv :: "'a kproc_scheme \<Rightarrow> bool" where
  "proc_inv s \<longleftrightarrow> distinct (k_proc_list s) \<and> 0 \<le> next_pid s \<and> next_pid s < PROC_MAX_COUNT
     \<and> inj_on (\<lambda>p. p_pid (procs s p)) (set (k_proc_list s))
     \<and> (\<forall>p \<in> set (k_proc_list s). distinct (p_children (procs s p))
          \<and> (\<forall>c. c \<in> set (p_children (procs s p))
                 \<longleftrightarrow> c \<in> set (k_proc_list s) \<and> p_pproc (procs s c) = Some p))
     \<and> (\<forall>p \<in> set (k_proc_list s). \<forall>q. p_pproc (procs s p) = Some q \<longrightarrow> q \<in> set (k_proc_list s))"

text \<open>A dead process has handed its children on.\<close>

definition dead_childless :: "'a kproc_scheme \<Rightarrow> bool" where
  "dead_childless s \<longleftrightarrow>
     (\<forall>p \<in> set (k_proc_list s). p_state (procs s p) = PROC_DEAD \<longrightarrow> p_children (procs s p) = [])"

lemma proc_invD:
  assumes "proc_inv s"
  shows "distinct (k_proc_list s)" "0 \<le> next_pid s" "next_pid s < PROC_MAX_COUNT"
    "inj_on (\<lambda>p. p_pid (procs s p)) (set (k_proc_list s))"
    "p \<in> set (k_proc_list s) \<Longrightarrow> distinct (p_children (procs s p))"
    "p \<in> set (k_proc_list s) \<Longrightarrow>
       c \<in> set (p_children (procs s p)) \<longleftrightarrow> c \<in> set (k_proc_list s) \<and> p_pproc (procs s c) = Some p"
    "p \<in> set (k_proc_list s) \<Longrightarrow> p_pproc (procs s p) = Some q \<Longrightarrow> q \<in> set (k_proc_list s)"
  using assms by (auto simp: proc_inv_def)

lemma set_proc_simps [simp]:
  "procs (set_proc p f s) = (procs s)(p := f (procs s p))" "k_proc_list (set_proc p f s) = k_proc_list s"
  "proc_initproc (set_proc p f s) = proc_initproc s" "next_pid (set_proc p f s) = next_pid s"
  "kt (set_proc p f s) = kt s" "kq (set_proc p f s) = kq s" "curthr (set_proc p f s) = curthr s"
  "curproc (set_proc p f s) = curproc s" "ipl (set_proc p f s) = ipl s" "km_holder (set_proc p f s) = km_holder s"
  "map_proc (set_proc p f s) = map_proc s"
  by (simp_all add: set_proc_def)

lemma set_thr_procs [simp]:
  "procs (set_thr t f s) = procs s" "k_proc_list (set_thr t f s) = k_proc_list s"
  "proc_initproc (set_thr t f s) = proc_initproc s" "next_pid (set_thr t f s) = next_pid s"
  by (simp_all add: set_thr_def)

lemma queue_init_procs [simp]:
  "procs (sched_queue_init q s) = procs s" "k_proc_list (sched_queue_init q s) = k_proc_list s"
  "proc_initproc (sched_queue_init q s) = proc_initproc s" "next_pid (sched_queue_init q s) = next_pid s"
  "curproc (sched_queue_init q s) = curproc s" "kt (sched_queue_init q s) = kt s"
  by (simp_all add: sched_queue_init_def set_kq_def)

lemma sched_more_procs:
  fixes s s' :: "'a kproc_scheme"
  assumes "sched.more s' = sched.more s"
  shows "procs s' = procs s" "k_proc_list s' = k_proc_list s" "proc_initproc s' = proc_initproc s"
    "next_pid s' = next_pid s" "km_holder s' = km_holder s" "kproc.more s' = kproc.more s"
  using assms by (cases s, cases s', simp)+

lemma proc_inv_cong:
  assumes "k_proc_list s' = k_proc_list s" and "next_pid s' = next_pid s"
    and "\<And>p. p_pid (procs s' p) = p_pid (procs s p)" and "\<And>p. p_children (procs s' p) = p_children (procs s p)"
    and "\<And>p. p_pproc (procs s' p) = p_pproc (procs s p)"
  shows "proc_inv s' = proc_inv s"
  using assms by (simp add: proc_inv_def)

text \<open>What \<^verbatim>\<open>proc_create\<close> returns, field by field.\<close>

lemma proc_create_result:
  assumes run: "proc_create name (Some np) newmap pd s = Some (s', p)"
    and fresh: "np \<notin> set (k_proc_list s)" "curproc s \<noteq> Some np"
  obtains pid nx where "p = np" and "getid_loop (next_pid s) (pid_used s) (next_pid s) = Some (pid, nx)"
    and "next_pid s' = nx" and "k_proc_list s' = k_proc_list s @ [np]"
    and "proc_initproc s' = (if pid = PID_INIT then Some np else proc_initproc s)"
    and "p_pid (procs s' np) = pid" and "p_pproc (procs s' np) = curproc s" and "p_children (procs s' np) = []"
    and "p_threads (procs s' np) = []" and "p_state (procs s' np) = PROC_RUNNING" and "p_pagedir (procs s' np) = pd"
    and "p_files (procs s' np) = replicate NFILES None"
    and "\<And>q. q \<noteq> np \<Longrightarrow> procs s' q = (if curproc s = Some q
           then (procs s q)\<lparr>p_children := p_children (procs s q) @ [np]\<rparr> else procs s q)"
proof -
  define s0 where "s0 = sched_queue_init (p_wait np) (set_proc np (\<lambda>r. r\<lparr>p_threads := [], p_children := []\<rparr>) s)"
  have used: "pid_used s0 = pid_used s"
    using fresh(1) by (auto simp: pid_used_def fun_eq_iff s0_def list_ex_iff)
  have s0: "next_pid s0 = next_pid s" "k_proc_list s0 = k_proc_list s" by (simp_all add: s0_def)
  obtain pid nx where g: "getid_loop (next_pid s) (pid_used s) (next_pid s) = Some (pid, nx)"
    using run by (auto simp: proc_create_def Let_def proc_getid_def bind_Some_iff used s0 simp flip: s0_def)
  have g0: "proc_getid s0 = Some (s0\<lparr>next_pid := nx\<rparr>, pid)" using g by (simp add: proc_getid_def used s0)
  show thesis
  proof (cases "curproc s")
    case None
    show thesis by (rule that [OF _ g])
      (use run g0 None fresh in \<open>auto simp: proc_create_def Let_def bind_Some_iff simp flip: s0_def
         split: if_splits, auto simp: s0_def\<close>)
  next
    case (Some pp)
    show thesis by (rule that [OF _ g])
      (use run g0 Some fresh in \<open>auto simp: proc_create_def Let_def bind_Some_iff simp flip: s0_def
         split: if_splits, auto simp: s0_def\<close>)
  qed
qed

lemma pid_used_iff: "pid_used s pid \<longleftrightarrow> pid \<in> (\<lambda>p. p_pid (procs s p)) ` set (k_proc_list s)"
  by (auto simp: pid_used_def list_ex_iff)

lemma proc_create_inv:
  assumes run: "proc_create name (Some np) newmap pd s = Some (s', p)"
    and inv: "proc_inv s" and fresh: "np \<notin> set (k_proc_list s)"
    and cur: "\<And>c. curproc s = Some c \<Longrightarrow> c \<in> set (k_proc_list s)"
    and free: "0 \<le> f" "f < PROC_MAX_COUNT" "\<not> pid_used s f"
  shows "p = np \<and> proc_inv s' \<and> k_proc_list s' = k_proc_list s @ [np]
    \<and> p_pproc (procs s' np) = curproc s \<and> p_children (procs s' np) = [] \<and> p_state (procs s' np) = PROC_RUNNING
    \<and> 0 \<le> p_pid (procs s' np) \<and> p_pid (procs s' np) < PROC_MAX_COUNT \<and> \<not> pid_used s (p_pid (procs s' np))
    \<and> (\<forall>q. q \<noteq> np \<longrightarrow> procs s' q = (if curproc s = Some q
           then (procs s q)\<lparr>p_children := p_children (procs s q) @ [np]\<rparr> else procs s q))"
proof -
  have c': "curproc s \<noteq> Some np" using cur fresh by blast
  obtain pid nx where r: "p = np" "getid_loop (next_pid s) (pid_used s) (next_pid s) = Some (pid, nx)"
    "next_pid s' = nx" "k_proc_list s' = k_proc_list s @ [np]" "p_pid (procs s' np) = pid"
    "p_pproc (procs s' np) = curproc s" "p_children (procs s' np) = []" "p_state (procs s' np) = PROC_RUNNING"
    and old: "\<And>q. q \<noteq> np \<Longrightarrow> procs s' q = (if curproc s = Some q
           then (procs s q)\<lparr>p_children := p_children (procs s q) @ [np]\<rparr> else procs s q)"
    using proc_create_result [OF run fresh c'] by metis
  have "\<not> (\<forall>p. 0 \<le> p \<and> p < PROC_MAX_COUNT \<longrightarrow> pid_used s p)" using free by blast
  then have pid: "0 \<le> pid" "pid < PROC_MAX_COUNT" "\<not> pid_used s pid" "0 \<le> nx" "nx < PROC_MAX_COUNT"
    using getid_loop_ok [OF proc_invD(2,3) [OF inv], of "pid_used s"] r(2) by auto
  have old_pid: "p_pid (procs s' q) = p_pid (procs s q)" "p_pproc (procs s' q) = p_pproc (procs s q)"
    if "q \<noteq> np" for q using old [OF that] by simp_all
  have ne: "q \<noteq> np" if "q \<in> set (k_proc_list s)" for q using fresh that by blast
  have inj: "inj_on (\<lambda>p. p_pid (procs s' p)) (set (k_proc_list s'))"
    using proc_invD(4) [OF inv] pid(3) ne old_pid(1) r(4,5)
    by (auto simp: pid_used_iff inj_on_def image_iff)
  have np_parent: "p_pproc (procs s q) \<noteq> Some np" if "q \<in> set (k_proc_list s)" for q
    using proc_invD(7) [OF inv that, of np] fresh by blast
  have ch_old: "distinct (p_children (procs s' q)) \<and> (\<forall>c. c \<in> set (p_children (procs s' q))
        \<longleftrightarrow> c \<in> set (k_proc_list s') \<and> p_pproc (procs s' c) = Some q)" if q: "q \<in> set (k_proc_list s)" for q
  proof -
    have "p_children (procs s' q) = p_children (procs s q) @ (if curproc s = Some q then [np] else [])"
      using old [OF ne [OF q]] by simp
    then show ?thesis
      using proc_invD(5,6) [OF inv q] old_pid(2) ne r(4,6) fresh by (auto split: if_splits)
  qed
  have "\<forall>c. \<not> (c \<in> set (k_proc_list s') \<and> p_pproc (procs s' c) = Some np)"
    using np_parent old_pid(2) ne r(4,6) c' by auto
  then have ch_np: "distinct (p_children (procs s' np)) \<and> (\<forall>c. c \<in> set (p_children (procs s' np))
        \<longleftrightarrow> c \<in> set (k_proc_list s') \<and> p_pproc (procs s' c) = Some np)" using r(7) by simp
  have par: "q \<in> set (k_proc_list s')" if "x \<in> set (k_proc_list s')" "p_pproc (procs s' x) = Some q" for x q
    using that r(4,6) cur proc_invD(7) [OF inv] old_pid(2) ne by auto
  have "proc_inv s'"
    unfolding proc_inv_def using inj ch_old ch_np par pid(4,5) r(3,4) fresh proc_invD(1) [OF inv] by auto
  then show ?thesis using r pid old by simp
qed

section \<open>Reparenting\<close>

lemma reparent_result:
  assumes "cur \<noteq> ini"
  shows "\<exists>s'. reparent cur ini s = Some s' \<and> kt s' = kt s \<and> kq s' = kq s \<and> curthr s' = curthr s
    \<and> curproc s' = curproc s \<and> ipl s' = ipl s \<and> km_holder s' = km_holder s
    \<and> k_proc_list s' = k_proc_list s \<and> proc_initproc s' = proc_initproc s \<and> next_pid s' = next_pid s
    \<and> (\<forall>p. procs s' p = (procs s p)\<lparr>
          p_children := (if p = cur then [] else if p = ini then p_children (procs s ini) @ p_children (procs s cur)
                         else p_children (procs s p)),
          p_pproc := (if p \<in> set (p_children (procs s cur)) then Some ini else p_pproc (procs s p))\<rparr>)"
proof (induction "p_children (procs s cur)" arbitrary: s)
  case Nil
  have "(procs s p)\<lparr>p_children := p_children (procs s p), p_pproc := p_pproc (procs s p)\<rparr> = procs s p" for p
    by simp
  with Nil show ?case using reparent.simps [of cur ini s] by auto
next
  case (Cons c cs)
  note ch = Cons.hyps(2) [symmetric]
  define s1 where "s1 = set_proc c (\<lambda>r. r\<lparr>p_pproc := Some ini\<rparr>)
    (set_proc ini (\<lambda>r. r\<lparr>p_children := p_children r @ [c]\<rparr>) (set_proc cur (\<lambda>r. r\<lparr>p_children := cs\<rparr>) s))"
  have step: "reparent cur ini s = reparent cur ini s1"
    using reparent.simps [of cur ini s] ch by (simp add: s1_def)
  have c1: "p_children (procs s1 cur) = cs" using assms by (simp add: s1_def)
  have f: "kt s1 = kt s" "kq s1 = kq s" "curthr s1 = curthr s" "curproc s1 = curproc s" "ipl s1 = ipl s"
    "km_holder s1 = km_holder s" "k_proc_list s1 = k_proc_list s" "proc_initproc s1 = proc_initproc s"
    "next_pid s1 = next_pid s" by (simp_all add: s1_def)
  show ?case
    unfolding step using Cons.hyps(1) [of s1] c1 f assms ch by (auto simp: s1_def)
qed

lemma reparent_frame:
  "reparent cur ini s = Some s' \<Longrightarrow>
   kt s' = kt s \<and> kq s' = kq s \<and> curthr s' = curthr s \<and> curproc s' = curproc s \<and> ipl s' = ipl s"
  by (rule reparent.raw_induct [where P = "\<lambda>cur ini s s'.
        kt s' = kt s \<and> kq s' = kq s \<and> curthr s' = curthr s \<and> curproc s' = curproc s \<and> ipl s' = ipl s"])
    (auto split: list.splits)

lemma reparent_inv:
  assumes inv: "proc_inv s" and mem: "cur \<in> set (k_proc_list s)" "ini \<in> set (k_proc_list s)" and ne: "cur \<noteq> ini"
    and run: "reparent cur ini s = Some s'"
  shows "proc_inv s'"
proof -
  let ?L = "set (k_proc_list s)" and ?C = "p_children (procs s cur)"
  have r: "k_proc_list s' = k_proc_list s" "next_pid s' = next_pid s"
    and pr: "\<And>p. procs s' p = (procs s p)\<lparr>
          p_children := (if p = cur then [] else if p = ini then p_children (procs s ini) @ ?C
                         else p_children (procs s p)),
          p_pproc := (if p \<in> set ?C then Some ini else p_pproc (procs s p))\<rparr>"
    using reparent_result [OF ne, of s] run by auto
  have C: "c \<in> set ?C \<longleftrightarrow> c \<in> ?L \<and> p_pproc (procs s c) = Some cur" for c
    using proc_invD(6) [OF inv mem(1)] .
  have ch: "distinct (p_children (procs s' p)) \<and> (\<forall>c. c \<in> set (p_children (procs s' p))
      \<longleftrightarrow> c \<in> ?L \<and> p_pproc (procs s' c) = Some p)" if p: "p \<in> ?L" for p
    using proc_invD(5,6) [OF inv p] proc_invD(5) [OF inv mem(1)] C ne by (auto simp: pr)
  moreover have "q \<in> ?L" if "p \<in> ?L" "p_pproc (procs s' p) = Some q" for p q
    using that proc_invD(7) [OF inv that(1)] mem(2) by (auto simp: pr split: if_splits)
  moreover have "inj_on (\<lambda>p. p_pid (procs s' p)) ?L" using proc_invD(4) [OF inv] by (simp add: pr)
  ultimately show ?thesis using proc_invD(1-3) [OF inv] r unfolding proc_inv_def by simp
qed

section \<open>Exit\<close>

text \<open>
  The calls into the file system and the memory maps may change the open files of a
  process and state outside this theory; they leave threads, queues and the tree alone.
\<close>

definition proc_same :: "'a kproc_scheme \<Rightarrow> 'a kproc_scheme \<Rightarrow> bool" where
  "proc_same s s' \<longleftrightarrow> kt s' = kt s \<and> kq s' = kq s \<and> curthr s' = curthr s \<and> curproc s' = curproc s
     \<and> ipl s' = ipl s \<and> km_holder s' = km_holder s \<and> k_proc_list s' = k_proc_list s
     \<and> proc_initproc s' = proc_initproc s \<and> next_pid s' = next_pid s
     \<and> (\<forall>p. (procs s' p)\<lparr>p_files := []\<rparr> = (procs s p)\<lparr>p_files := []\<rparr>)"

definition env_frame :: "'a kproc_scheme penv \<Rightarrow> bool" where
  "env_frame env \<longleftrightarrow> (\<forall>v s s'. e_vput env v s = Some s' \<longrightarrow> proc_same s s')
     \<and> (\<forall>fd s s'. e_close env fd s = Some s' \<longrightarrow> proc_same s s')
     \<and> (\<forall>m s s'. e_vmmap_destroy env m s = Some s' \<longrightarrow> proc_same s s')"

lemma proc_same_refl: "proc_same s s"
  by (simp add: proc_same_def)

lemma proc_same_trans: "proc_same s s1 \<Longrightarrow> proc_same s1 s2 \<Longrightarrow> proc_same s s2"
  by (simp add: proc_same_def)

lemma proc_same_fields:
  assumes "proc_same s s'"
  shows "p_children (procs s' p) = p_children (procs s p)" "p_pproc (procs s' p) = p_pproc (procs s p)"
    "p_pid (procs s' p) = p_pid (procs s p)" "p_state (procs s' p) = p_state (procs s p)"
    "p_threads (procs s' p) = p_threads (procs s p)" "k_proc_list s' = k_proc_list s"
    "kt s' = kt s" "kq s' = kq s" "curthr s' = curthr s" "curproc s' = curproc s" "next_pid s' = next_pid s"
    "proc_initproc s' = proc_initproc s" "km_holder s' = km_holder s" "ipl s' = ipl s"
    "p_status (procs s' p) = p_status (procs s p)" "p_pagedir (procs s' p) = p_pagedir (procs s p)"
proof -
  have eq: "(procs s' p)\<lparr>p_files := []\<rparr> = (procs s p)\<lparr>p_files := []\<rparr>" using assms by (simp add: proc_same_def)
  show "p_children (procs s' p) = p_children (procs s p)" "p_pproc (procs s' p) = p_pproc (procs s p)"
    "p_pid (procs s' p) = p_pid (procs s p)" "p_state (procs s' p) = p_state (procs s p)"
    "p_threads (procs s' p) = p_threads (procs s p)"
    "p_status (procs s' p) = p_status (procs s p)" "p_pagedir (procs s' p) = p_pagedir (procs s p)"
    using arg_cong [OF eq, of p_children] arg_cong [OF eq, of p_pproc] arg_cong [OF eq, of p_pid]
      arg_cong [OF eq, of p_state] arg_cong [OF eq, of p_threads] arg_cong [OF eq, of p_status]
      arg_cong [OF eq, of p_pagedir] by simp_all
qed (use assms in \<open>simp_all add: proc_same_def\<close>)

lemma close_files_same:
  assumes "close_files close cur s = Some s'" and "\<And>fd s s'. close fd s = Some s' \<Longrightarrow> proc_same s s'"
  shows "proc_same s s'"
  using assms(1) unfolding close_files_def
  by (rule foldM_invariant) (auto intro: proc_same_refl proc_same_trans assms(2) split: if_splits)

lemma destroy_map_same: "destroy_map env cur s = Some s' \<Longrightarrow> env_frame env \<Longrightarrow> proc_same s s'"
  by (auto simp: destroy_map_def env_frame_def proc_same_refl split: option.splits)

text \<open>
  \<^verbatim>\<open>proc_cleanup\<close> in three parts: waking the parent, the environment calls, reparenting.
\<close>

lemma proc_cleanupE:
  assumes run: "proc_cleanup env status s = Some s'" and env: "env_frame env"
  obtains cur ini parent s1 r s2 s3 where "curproc s = Some cur" and "proc_initproc s = Some ini"
    and "1 \<le> p_pid (procs s cur)" and "p_pproc (procs s cur) = Some parent"
    and "sched_wakeup_on (p_wait parent) s = Some (s1, r)" and "proc_same s1 s2"
    and "reparent cur ini s2 = Some s3"
    and "s' = set_proc cur (\<lambda>r. r\<lparr>p_state := PROC_DEAD, p_status := status\<rparr>) s3"
proof -
  from run obtain cur ini parent s1 r sa sb s2 s3 where
    a: "curproc s = Some cur" "proc_initproc s = Some ini" "1 \<le> p_pid (procs s cur)"
      "p_pproc (procs s cur) = Some parent" "sched_wakeup_on (p_wait parent) s = Some (s1, r)"
      "(case p_cwd (procs s1 cur) of None \<Rightarrow> Some s1 | Some v \<Rightarrow> e_vput env v s1) = Some sa"
      "close_files (\<lambda>fd. e_close env (int fd)) cur sa = Some sb" "destroy_map env cur sb = Some s2"
      "reparent cur ini s2 = Some s3"
      "s' = set_proc cur (\<lambda>r. r\<lparr>p_state := PROC_DEAD, p_status := status\<rparr>) s3"
    by (auto simp: proc_cleanup_def bind_Some_iff Let_def)
  have "proc_same s1 sa" using a(6) env by (auto simp: env_frame_def proc_same_refl split: option.splits)
  moreover have "proc_same sa sb" using a(7) env by (auto intro: close_files_same simp: env_frame_def)
  moreover have "proc_same sb s2" using destroy_map_same [OF a(8) env] .
  ultimately have "proc_same s1 s2" using proc_same_trans by blast
  with a show thesis using that by blast
qed

lemma sched_inv_cong:
  "\<lbrakk> kt s' = kt s; kq s' = kq s; curthr s' = curthr s \<rbrakk> \<Longrightarrow> sched_inv s' = sched_inv s"
  "\<lbrakk> kt s' = kt s; curthr s' = curthr s \<rbrakk> \<Longrightarrow> cur_running s' = cur_running s"
  by (simp_all add: sched_inv_def queues_ok_def states_ok_def running_ok_def cur_running_def
      split: option.split)

lemma proc_cleanup_tree:
  assumes run: "proc_cleanup env status s = Some s'" and env: "env_frame env"
    and inv: "proc_inv s" "dead_childless s"
    and cur: "curproc s = Some cur" "cur \<in> set (k_proc_list s)"
    and ini: "proc_initproc s = Some ini" "ini \<in> set (k_proc_list s)" "ini \<noteq> cur" "p_state (procs s ini) = PROC_RUNNING"
  shows "proc_inv s' \<and> dead_childless s' \<and> k_proc_list s' = k_proc_list s
    \<and> p_state (procs s' cur) = PROC_DEAD \<and> p_status (procs s' cur) = status
    \<and> p_children (procs s' cur) = []
    \<and> p_children (procs s' ini) = p_children (procs s ini) @ p_children (procs s cur)
    \<and> (\<forall>c \<in> set (p_children (procs s cur)). p_pproc (procs s' c) = Some ini)
    \<and> (\<forall>p. p_pid (procs s' p) = p_pid (procs s p) \<and> (p \<noteq> cur \<longrightarrow> p_state (procs s' p) = p_state (procs s p)))"
proof -
  obtain parent s1 r s2 s3 where w: "sched_wakeup_on (p_wait parent) s = Some (s1, r)"
    and same: "proc_same s1 s2" and rp: "reparent cur ini s2 = Some s3"
    and s': "s' = set_proc cur (\<lambda>r. r\<lparr>p_state := PROC_DEAD, p_status := status\<rparr>) s3"
    using proc_cleanupE [OF run env] cur(1) ini(1) by (metis option.inject)
  note m = sched_more_procs [OF wakeup_more [OF w]]
  note f = proc_same_fields [OF same, unfolded m]
  have inv2: "proc_inv s2" using inv(1) f by (subst proc_inv_cong [of s2 s]) auto
  have inv3: "proc_inv s3"
    using reparent_inv [OF inv2 _ _ ini(3) [symmetric] rp] cur(2) ini(2) f by simp
  have p3: "\<And>p. procs s3 p = (procs s2 p)\<lparr>
      p_children := (if p = cur then [] else if p = ini then p_children (procs s2 ini) @ p_children (procs s2 cur)
                     else p_children (procs s2 p)),
      p_pproc := (if p \<in> set (p_children (procs s2 cur)) then Some ini else p_pproc (procs s2 p))\<rparr>"
    and l3: "k_proc_list s3 = k_proc_list s2"
    using reparent_result [OF ini(3) [symmetric], of s2] rp by auto
  have "proc_inv s'" using inv3 by (subst proc_inv_cong [of s' s3]) (auto simp: s')
  moreover have "dead_childless s'"
    using inv(2) ini f l3 by (auto simp: dead_childless_def s' p3)
  ultimately show ?thesis using ini(3) f l3 by (auto simp: s' p3)
qed

lemma proc_cleanup_sched:
  assumes run: "proc_cleanup env status s = Some s'" and env: "env_frame env" and inv: "sched_inv s"
  shows "sched_inv s' \<and> curthr s' = curthr s \<and> curproc s' = curproc s \<and>
    (\<forall>t. (kt_wchan (kt s t) = None \<longrightarrow> kt s' t = kt s t) \<and> kt_cancelled (kt s' t) = kt_cancelled (kt s t))"
proof -
  obtain cur ini parent s1 r s2 s3 where w: "sched_wakeup_on (p_wait parent) s = Some (s1, r)"
    and same: "proc_same s1 s2" and cur: "curproc s = Some cur" "proc_initproc s = Some ini"
    and rp: "reparent cur ini s2 = Some s3"
    and s': "s' = set_proc cur (\<lambda>r. r\<lparr>p_state := PROC_DEAD, p_status := status\<rparr>) s3"
    using proc_cleanupE [OF run env] by metis
  have i1: "sched_inv s1 \<and> curthr s1 = curthr s \<and> curproc s1 = curproc s \<and>
      (\<forall>t. (kt_wchan (kt s t) = None \<longrightarrow> kt s1 t = kt s t) \<and> kt_cancelled (kt s1 t) = kt_cancelled (kt s t))"
    using sched_wakeup_on_ok [OF inv, of "p_wait parent"] sched_wakeup_on_empty [of s "p_wait parent"] w inv
    by (cases "tq_list (kq s (p_wait parent)) = []") (auto simp: woken_def)
  have f3: "kt s3 = kt s2 \<and> kq s3 = kq s2 \<and> curthr s3 = curthr s2 \<and> curproc s3 = curproc s2"
    using reparent_frame [OF rp] by simp
  then show ?thesis using i1 same sched_inv_cong(1) [of s' s1] by (auto simp: s' proc_same_def)
qed

lemma cancel_threads_ok:
  assumes "me \<notin> set ts" and "sched_inv s" and "cur_running s" and "curthr s = Some me"
  shows "\<exists>s'. cancel_threads env rv irqs ts s = Some (Ret s' 0) \<and> sched_inv s' \<and> cur_running s'
     \<and> sched.more s' = sched.more s \<and> curthr s' = Some me \<and> curproc s' = curproc s \<and> kt s' me = kt s me
     \<and> (\<forall>t. t \<in> set ts \<or> kt_cancelled (kt s t) \<longrightarrow> kt_cancelled (kt s' t))"
  using assms
proof (induction ts arbitrary: s)
  case Nil
  then show ?case by simp
next
  case (Cons t ts)
  let ?s = "set_thr t (\<lambda>k. k\<lparr>kt_retval := rv\<rparr>) s"
  have i: "sched_inv ?s" using Cons.prems(2)
    by (auto simp: sched_inv_def queues_ok_def states_ok_def running_ok_def)
  obtain s1 where s1: "sched_cancel t ?s = Some s1" "sched_inv s1" "curthr s1 = curthr s" "curproc s1 = curproc s"
    "\<forall>u. u \<noteq> t \<longrightarrow> kt s1 u = kt s u" "kt_cancelled (kt s1 t)"
    using sched_cancel_ok [OF i, of t] by auto
  have m: "sched.more s1 = sched.more s" using cancel_more [OF s1(1)] by simp
  have "cur_running s1" using Cons.prems s1(3,5) by (auto simp: cur_running_def)
  then obtain s' where "cancel_threads env rv irqs ts s1 = Some (Ret s' 0)" "sched_inv s'" "cur_running s'"
    "sched.more s' = sched.more s1" "curthr s' = Some me" "curproc s' = curproc s1" "kt s' me = kt s1 me"
    "\<forall>u. u \<in> set ts \<or> kt_cancelled (kt s1 u) \<longrightarrow> kt_cancelled (kt s' u)"
    using Cons.IH [of s1] Cons.prems s1(2-5) by auto
  moreover have "kt_cancelled (kt s1 u)" if "kt_cancelled (kt s u)" for u using that s1(5,6) by (cases "u = t") auto
  ultimately show ?case using Cons.prems s1 m by (auto simp: kthread_cancel_def)
qed

text \<open>
  A thread that has exited and waits on no queue is never chosen again: the switch away
  from it goes to another thread, and no interrupt handled meanwhile wakes it.
\<close>

lemma switch_from_exited:
  assumes sw: "switch_from me ctx irqs s = Some (s', irqs')" and irqs: "list_all irq_ok irqs"
    and inv: "sched_inv s" and me: "curthr s = Some me" "kt_state (kt s me) = KT_EXITED" "kt_wchan (kt s me) = None"
  shows "curthr s' \<noteq> Some me \<and> kt_state (kt s' me) = KT_EXITED \<and> kt_wchan (kt s' me) = None"
proof -
  obtain s1 where f: "fill_runq irqs s = Some (s1, irqs')" and d: "dispatch me ctx s1 = Some s'"
    using sw by (rule switch_fromE)
  have k: "curthr s1 = Some me \<and> kt_state (kt s1 me) = KT_EXITED \<and> kt_wchan (kt s1 me) = None"
    using f irqs inv by (rule fill_runq_induct) (use me in \<open>auto simp: woken_def\<close>)
  note r = fill_runq_ok [OF f irqs inv]
  have "queues_ok s1" using r by (simp add: sched_inv_def)
  from queues_okD(3) [OF this] k have n: "me \<notin> set (tq_list (kq s1 kt_runq))" by simp
  then have "last (tq_list (kq s1 kt_runq)) \<noteq> me" using r last_in_set by blast
  moreover have "may_leave me s1" using k by (simp add: may_leave_def)
  ultimately show ?thesis using dispatch_ok [of s1 me ctx] d r k by auto
qed

text \<open>Waking and switching never touch what a thread returns, nor that it is cancelled.\<close>

lemma switch_from_keeps:
  assumes sw: "switch_from me ctx irqs s = Some (s', irqs')" and irqs: "list_all irq_ok irqs"
    and inv: "sched_inv s" and leave: "may_leave me s"
  shows "kt_retval (kt s' t) = kt_retval (kt s t) \<and> kt_cancelled (kt s' t) = kt_cancelled (kt s t)"
proof -
  obtain s1 where f: "fill_runq irqs s = Some (s1, irqs')" and d: "dispatch me ctx s1 = Some s'"
    using sw by (rule switch_fromE)
  have "may_leave me s1"
    using f irqs inv leave by (rule fill_runq_induct) (auto simp: may_leave_def woken_def)
  moreover have "kt_retval (kt s1 t) = kt_retval (kt s t) \<and> kt_cancelled (kt s1 t) = kt_cancelled (kt s t)"
    using f irqs inv by (rule fill_runq_induct) (auto simp: woken_def)
  ultimately show ?thesis using fill_runq_ok [OF f irqs inv] dispatch_ok [of s1 me ctx] d by auto
qed

lemma kthread_exit_ok:
  assumes run: "kthread_exit env rv irqs s = Some (s', irqs')" and env: "env_frame env"
    and irqs: "list_all irq_ok irqs" and inv: "sched_inv s" "cur_running s" and me: "curthr s = Some me"
  obtains st s1 s2 where "rv = Some st"
    and "s1 = set_thr me (\<lambda>k. k\<lparr>kt_retval := rv, kt_state := KT_EXITED\<rparr>) s"
    and "proc_cleanup env st s1 = Some s2" and "sched_switch irqs s2 = Some (s', irqs')"
    and "sched_inv s1" and "sched_inv s2" and "may_leave me s2"
    and "sched_inv s'" and "cur_running s'"
    and "curthr s' \<noteq> Some me" and "kt_state (kt s' me) = KT_EXITED" and "kt_wchan (kt s' me) = None"
    and "kt_retval (kt s' me) = rv" and "\<And>t. kt_cancelled (kt s' t) = kt_cancelled (kt s t)"
proof -
  define s1 where "s1 = set_thr me (\<lambda>k. k\<lparr>kt_retval := rv, kt_state := KT_EXITED\<rparr>) s"
  obtain st s2 where r: "rv = Some st" "proc_cleanup env st s1 = Some s2" "sched_switch irqs s2 = Some (s', irqs')"
    using run me by (auto simp: kthread_exit_def proc_thread_exited_def bind_Some_iff Let_def s1_def)
  have w: "kt_wchan (kt s me) = None" using inv(2) me by (simp add: cur_running_def)
  have i1: "sched_inv s1" using inv(1) me w
    by (auto simp: s1_def sched_inv_def queues_ok_def states_ok_def running_ok_def)
  have s2: "sched_inv s2" "curthr s2 = Some me" "kt s2 me = kt s1 me"
    using proc_cleanup_sched [OF r(2) env i1] me w by (simp_all add: s1_def)
  have l: "may_leave me s2" using s2(2,3) by (simp add: may_leave_def s1_def)
  have sw: "switch_from me (Ctx_switch (ipl s2)) irqs (s2\<lparr>ipl := IPL_HIGH\<rparr>) = Some (s', irqs')"
    using r(3) s2(2) by (simp add: sched_switch_def)
  have i3: "sched_inv (s2\<lparr>ipl := IPL_HIGH\<rparr>)" "may_leave me (s2\<lparr>ipl := IPL_HIGH\<rparr>)"
    using s2(1) l by (simp_all add: frame_simps may_leave_def)
  have c: "kt_cancelled (kt s2 t) = kt_cancelled (kt s t)" for t
    using proc_cleanup_sched [OF r(2) env i1] by (simp add: s1_def)
  show thesis
    using that [OF r(1) s1_def r(2,3) i1 s2(1) l] sched_switch_ok [OF r(3) irqs s2(1,2) l]
      switch_from_exited [OF sw irqs i3(1)] switch_from_keeps [OF sw irqs i3] s2(2,3) w c
    by (simp add: s1_def)
qed

lemma do_exit_ok:
  assumes run: "do_exit env st irqs s = Some (s', irqs')" and env: "env_frame env" and irqs: "list_all irq_ok irqs"
    and sched: "sched_inv s" "cur_running s" and inv: "proc_inv s" "dead_childless s"
    and me: "curthr s = Some me" and cur: "curproc s = Some cur" "cur \<in> set (k_proc_list s)"
    and ini: "proc_initproc s = Some ini" "ini \<in> set (k_proc_list s)" "ini \<noteq> cur" "p_state (procs s ini) = PROC_RUNNING"
  shows "sched_inv s' \<and> cur_running s' \<and> curthr s' \<noteq> Some me
    \<and> kt_state (kt s' me) = KT_EXITED \<and> kt_retval (kt s' me) = Some st \<and> kt_wchan (kt s' me) = None
    \<and> (\<forall>t \<in> set (p_threads (procs s cur)). t = me \<or> kt_cancelled (kt s' t))
    \<and> proc_inv s' \<and> dead_childless s' \<and> k_proc_list s' = k_proc_list s
    \<and> p_state (procs s' cur) = PROC_DEAD \<and> p_status (procs s' cur) = st
    \<and> p_children (procs s' cur) = []
    \<and> p_children (procs s' ini) = p_children (procs s ini) @ p_children (procs s cur)
    \<and> (\<forall>c \<in> set (p_children (procs s cur)). p_pproc (procs s' c) = Some ini)"
proof -
  let ?ts = "filter (\<lambda>t. curthr s \<noteq> Some t) (p_threads (procs s cur))"
  have "me \<notin> set ?ts" using me by simp
  from cancel_threads_ok [OF this sched me, of env "Some st" irqs] obtain s1 where
    s1: "cancel_threads env (Some st) irqs ?ts s = Some (Ret s1 0)" "sched_inv s1" "cur_running s1"
      "sched.more s1 = sched.more s" "curthr s1 = Some me" "curproc s1 = curproc s"
      "\<forall>t. t \<in> set ?ts \<or> kt_cancelled (kt s t) \<longrightarrow> kt_cancelled (kt s1 t)" by blast
  have ex: "kthread_exit env (Some st) irqs s1 = Some (s', irqs')" using run cur(1) s1(1) by (simp add: do_exit_def)
  obtain s2 s3 where s2: "s2 = set_thr me (\<lambda>k. k\<lparr>kt_retval := Some st, kt_state := KT_EXITED\<rparr>) s1"
    and cl: "proc_cleanup env st s2 = Some s3" and sw: "sched_switch irqs s3 = Some (s', irqs')"
    and ok: "sched_inv s'" "cur_running s'" "curthr s' \<noteq> Some me" "kt_state (kt s' me) = KT_EXITED"
      "kt_retval (kt s' me) = Some st" "kt_wchan (kt s' me) = None"
    and can: "\<And>t. kt_cancelled (kt s' t) = kt_cancelled (kt s1 t)"
    using kthread_exit_ok [OF ex env irqs s1(2,3,5)] by (metis option.inject)
  have can': "\<forall>t \<in> set (p_threads (procs s cur)). t = me \<or> kt_cancelled (kt s' t)"
    using s1(7) me unfolding can by auto
  note m1 = sched_more_procs [OF s1(4)]
  have eq2: "procs s2 = procs s" "k_proc_list s2 = k_proc_list s" "proc_initproc s2 = proc_initproc s"
    "next_pid s2 = next_pid s" "curproc s2 = curproc s" using m1 s1(6) by (simp_all add: s2)
  have i2: "proc_inv s2" "dead_childless s2"
    using inv eq2 by (simp_all add: proc_inv_def dead_childless_def)
  note m3 = sched_more_procs [OF switch_more [OF sw]]
  have "proc_inv s' = proc_inv s3" "dead_childless s' = dead_childless s3"
    using m3 by (simp_all add: proc_inv_def dead_childless_def)
  then show ?thesis
    using proc_cleanup_tree [OF cl env i2, of cur ini] cur ini eq2 ok can' m3 by simp
qed

section \<open>Waiting\<close>

text \<open>What destroying threads leaves alone.\<close>

definition threads_only :: "'a kproc_scheme \<Rightarrow> 'a kproc_scheme \<Rightarrow> bool" where
  "threads_only s s' \<longleftrightarrow> k_proc_list s' = k_proc_list s \<and> next_pid s' = next_pid s \<and> curproc s' = curproc s
    \<and> kq s' = kq s \<and> curthr s' = curthr s \<and> proc_initproc s' = proc_initproc s
    \<and> (\<forall>p. (procs s' p)\<lparr>p_threads := []\<rparr> = (procs s p)\<lparr>p_threads := []\<rparr>)
    \<and> (\<forall>u. (kt s' u)\<lparr>kt_plink := False\<rparr> = (kt s u)\<lparr>kt_plink := False\<rparr>)"

lemma kthread_destroy_threads_only: "kthread_destroy t s = Some s' \<Longrightarrow> threads_only s s'"
  by (auto simp: kthread_destroy_def threads_only_def split: if_splits)

lemma threads_only_fields:
  assumes "threads_only s s'"
  shows "p_children (procs s' p) = p_children (procs s p)" "p_pproc (procs s' p) = p_pproc (procs s p)"
    "p_pid (procs s' p) = p_pid (procs s p)" "p_state (procs s' p) = p_state (procs s p)"
    "p_status (procs s' p) = p_status (procs s p)"
    "kt_state (kt s' t) = kt_state (kt s t)" "kt_wchan (kt s' t) = kt_wchan (kt s t)"
    "kt_qlink (kt s' t) = kt_qlink (kt s t)"
proof -
  have p: "(procs s' p)\<lparr>p_threads := []\<rparr> = (procs s p)\<lparr>p_threads := []\<rparr>"
    and k: "(kt s' t)\<lparr>kt_plink := False\<rparr> = (kt s t)\<lparr>kt_plink := False\<rparr>"
    using assms by (auto simp: threads_only_def)
  show "p_children (procs s' p) = p_children (procs s p)" "p_pproc (procs s' p) = p_pproc (procs s p)"
    "p_pid (procs s' p) = p_pid (procs s p)" "p_state (procs s' p) = p_state (procs s p)"
    "p_status (procs s' p) = p_status (procs s p)"
    using arg_cong [OF p, of p_children] arg_cong [OF p, of p_pproc] arg_cong [OF p, of p_pid]
      arg_cong [OF p, of p_state] arg_cong [OF p, of p_status] by simp_all
  show "kt_state (kt s' t) = kt_state (kt s t)" "kt_wchan (kt s' t) = kt_wchan (kt s t)"
    "kt_qlink (kt s' t) = kt_qlink (kt s t)"
    using arg_cong [OF k, of kt_state] arg_cong [OF k, of kt_wchan] arg_cong [OF k, of kt_qlink] by simp_all
qed

lemma reap_result:
  assumes "reap d s = Some s'"
  obtains s1 where "threads_only s s1"
    and "s' = s1\<lparr>procs := (\<lambda>p. (procs s1 p)\<lparr>p_children := remove1 d (p_children (procs s1 p))\<rparr>),
                 k_proc_list := remove1 d (k_proc_list s1)\<rparr>"
proof -
  from assms obtain s1 where f: "foldM (\<lambda>t s. do { KASSERT (kt_state (kt s t) = KT_EXITED); kthread_destroy t s })
      (p_threads (procs s d)) s = Some s1"
    and s': "s' = s1\<lparr>procs := (\<lambda>p. (procs s1 p)\<lparr>p_children := remove1 d (p_children (procs s1 p))\<rparr>),
                 k_proc_list := remove1 d (k_proc_list s1)\<rparr>"
    by (auto simp: reap_def bind_Some_iff Let_def)
  have "threads_only s s1"
    by (rule foldM_invariant [OF f])
      (auto simp: threads_only_def dest!: kthread_destroy_threads_only split: if_splits)
  then show thesis using that s' by blast
qed

lemma reap_ok:
  assumes run: "reap d s = Some s'" and inv: "proc_inv s" "dead_childless s"
    and d: "d \<in> set (k_proc_list s)" "p_state (procs s d) = PROC_DEAD"
  shows "proc_inv s' \<and> dead_childless s' \<and> k_proc_list s' = remove1 d (k_proc_list s) \<and> d \<notin> set (k_proc_list s')
    \<and> (sched_inv s \<longrightarrow> sched_inv s') \<and> curthr s' = curthr s \<and> curproc s' = curproc s
    \<and> (\<forall>p. p_pid (procs s' p) = p_pid (procs s p) \<and> p_children (procs s' p) = remove1 d (p_children (procs s p)))"
proof -
  obtain s1 where t: "threads_only s s1" and s': "s' = s1\<lparr>procs := (\<lambda>p. (procs s1 p)\<lparr>p_children := remove1 d (p_children (procs s1 p))\<rparr>),
                 k_proc_list := remove1 d (k_proc_list s1)\<rparr>"
    using run by (rule reap_result)
  note f = threads_only_fields [OF t]
  have l: "k_proc_list s1 = k_proc_list s" "next_pid s1 = next_pid s" using t by (simp_all add: threads_only_def)
  have L: "set (remove1 d (k_proc_list s)) = set (k_proc_list s) - {d}" "distinct (remove1 d (k_proc_list s))"
    using proc_invD(1) [OF inv(1)] by (simp_all add: set_remove1_eq)
  have nochild: "p_pproc (procs s c) \<noteq> Some d" if "c \<in> set (k_proc_list s)" for c
    using proc_invD(6) [OF inv(1) d(1), of c] inv(2) d that by (auto simp: dead_childless_def)
  have ch: "distinct (remove1 d (p_children (procs s p))) \<and> (\<forall>c. c \<in> set (remove1 d (p_children (procs s p)))
      \<longleftrightarrow> (c \<in> set (k_proc_list s) \<and> c \<noteq> d) \<and> p_pproc (procs s c) = Some p)" if "p \<in> set (k_proc_list s)" for p
    using proc_invD(5,6) [OF inv(1) that] by (auto simp: set_remove1_eq)
  have inj: "inj_on (\<lambda>p. p_pid (procs s p)) (set (k_proc_list s) - {d})"
    using proc_invD(4) [OF inv(1)] by (rule inj_on_subset) blast
  have "proc_inv s'"
    unfolding proc_inv_def using ch inj L nochild proc_invD(2,3,7) [OF inv(1)] by (auto simp: s' l f)
  moreover have "dead_childless s'" using inv(2) L by (auto simp: dead_childless_def s' l f)
  moreover have "sched_inv s'" if "sched_inv s"
    using that t f by (auto simp: s' sched_inv_def queues_ok_def states_ok_def running_ok_def threads_only_def)
  ultimately show ?thesis using L t by (auto simp: s' l f threads_only_def)
qed

lemma waitpid_round_reaped:
  assumes run: "waitpid_round want irqs s = Some (Reaped s' r st)" and inv: "proc_inv s" "dead_childless s"
    and cur: "curproc s = Some cur" "cur \<in> set (k_proc_list s)"
  shows "\<exists>d \<in> set (p_children (procs s cur)). p_state (procs s d) = PROC_DEAD \<and> r = p_pid (procs s d)
    \<and> st = (if want then Some (p_status (procs s d)) else None)
    \<and> k_proc_list s' = remove1 d (k_proc_list s) \<and> d \<notin> set (k_proc_list s')
    \<and> p_children (procs s' cur) = remove1 d (p_children (procs s cur))
    \<and> proc_inv s' \<and> dead_childless s' \<and> (sched_inv s \<longrightarrow> sched_inv s')"
proof -
  from run cur obtain d where d: "find (\<lambda>c. p_state (procs s c) = PROC_DEAD) (p_children (procs s cur)) = Some d"
    "reap d s = Some s'" "r = p_pid (procs s' d)" "st = (if want then Some (p_status (procs s d)) else None)"
    by (auto simp: waitpid_round_def bind_Some_iff Let_def split: option.splits)
  have dd: "d \<in> set (p_children (procs s cur))" "p_state (procs s d) = PROC_DEAD"
    using d(1) by (auto simp: find_Some_iff)
  then have "d \<in> set (k_proc_list s)" using proc_invD(6) [OF inv(1) cur(2)] by blast
  from reap_ok [OF d(2) inv this dd(2)] show ?thesis using d(3,4) dd by auto
qed

lemma reparent_self:
  assumes "reparent cur ini s = Some s'"
  shows "cur = ini \<longrightarrow> p_children (procs s cur) = []"
proof (rule reparent.raw_induct [where P = "\<lambda>cur ini s s'. cur = ini \<longrightarrow> p_children (procs s cur) = []", OF _ assms])
  fix rec and cur ini :: pref and s s' :: "'a kproc_scheme"
  assume IH: "\<And>cur ini s s'. rec cur ini s = Some s' \<Longrightarrow> cur = ini \<longrightarrow> p_children (procs s cur) = []"
    and eq: "(case p_children (procs s cur) of [] \<Rightarrow> Some s
      | c # cs \<Rightarrow> rec cur ini (set_proc c (\<lambda>r. r\<lparr>p_pproc := Some ini\<rparr>)
          (set_proc ini (\<lambda>r. r\<lparr>p_children := p_children r @ [c]\<rparr>) (set_proc cur (\<lambda>r. r\<lparr>p_children := cs\<rparr>) s)))) = Some s'"
  show "cur = ini \<longrightarrow> p_children (procs s cur) = []"
  proof (cases "p_children (procs s cur)")
    case (Cons c cs)
    from IH [OF eq [unfolded Cons list.case]] show ?thesis by (auto split: if_splits)
  qed auto
qed

section \<open>Properties\<close>

text \<open>
  Idle (10), init (11), its child (12), which runs thread 1, and a grandchild (13); thread 2 is
  ready.  The environment calls do nothing.
\<close>

definition blank_proc :: proc where
  "blank_proc = \<lparr>p_pid = 0, p_comm = [], p_threads = [], p_children = [], p_pproc = None, p_status = 0,
     p_state = PROC_RUNNING, p_pagedir = Some 1, p_files = replicate 32 None, p_cwd = None, p_brk = 0,
     p_start_brk = 0, p_vmmap = None\<rparr>"

definition family :: kproc where
  "family = \<lparr>
     kt = (\<lambda>_. blank_thr)(1 := blank_thr\<lparr>kt_state := KT_RUN, kt_proc := Some 12, kt_plink := True\<rparr>,
            2 := blank_thr\<lparr>kt_state := KT_RUN, kt_proc := Some 11, kt_wchan := Some kt_runq, kt_qlink := True\<rparr>),
     kq = (\<lambda>_. blank_q)(kt_runq := \<lparr>tq_list = [2], tq_size = 1\<rparr>),
     curthr = Some 1, curproc = Some 12, ipl = 0, km_holder = (\<lambda>_. None),
     procs = (\<lambda>_. blank_proc)(10 := blank_proc\<lparr>p_children := [11]\<rparr>,
            11 := blank_proc\<lparr>p_pid := 1, p_pproc := Some 10, p_children := [12], p_threads := [2]\<rparr>,
            12 := blank_proc\<lparr>p_pid := 2, p_pproc := Some 11, p_children := [13], p_threads := [1]\<rparr>,
            13 := blank_proc\<lparr>p_pid := 3, p_pproc := Some 12\<rparr>),
     k_proc_list = [10, 11, 12, 13], proc_initproc = Some 11, next_pid = 4, map_proc = (\<lambda>_. None)\<rparr>"

definition quiet_env :: "kproc penv" where
  "quiet_env = \<lparr>e_vput = (\<lambda>v s. Some s), e_close = (\<lambda>fd s. Some s), e_vmmap_destroy = (\<lambda>m s. Some s)\<rparr>"

lemma quiet_env_frame: "env_frame quiet_env"
  by (simp add: env_frame_def quiet_env_def proc_same_def)

lemma family_sched: "sched_inv family" "cur_running family"
  by (auto simp: family_def blank_thr_def blank_q_def sched_inv_def queues_ok_def states_ok_def running_ok_def
      cur_running_def)

lemma family_tree: "proc_inv family" "dead_childless family"
  by (auto simp: family_def blank_proc_def proc_inv_def dead_childless_def)

text \<open>
  C6. \<^verbatim>\<open>_proc_getid\<close> always returns: the result is a pid in range that no
  process has, or -1 exactly when all 65536 pids are taken.
\<close>

theorem proc_getid_fresh:
  assumes "0 \<le> next_pid s" and "next_pid s < PROC_MAX_COUNT"
  shows "\<exists>s' pid. proc_getid s = Some (s', pid) \<and> 0 \<le> next_pid s' \<and> next_pid s' < PROC_MAX_COUNT
    \<and> (if \<forall>p. 0 \<le> p \<and> p < PROC_MAX_COUNT \<longrightarrow> pid_used s p then pid = - 1
       else 0 \<le> pid \<and> pid < PROC_MAX_COUNT \<and> \<not> pid_used s pid)"
proof -
  obtain pid nx where "getid_loop (next_pid s) (pid_used s) (next_pid s) = Some (pid, nx)"
    "0 \<le> nx" "nx < PROC_MAX_COUNT"
    "if \<forall>p. 0 \<le> p \<and> p < PROC_MAX_COUNT \<longrightarrow> pid_used s p then pid = - 1
     else 0 \<le> pid \<and> pid < PROC_MAX_COUNT \<and> \<not> pid_used s pid"
    using getid_loop_ok [OF assms, of "pid_used s"] by blast
  then show ?thesis by (intro exI [of _ "s\<lparr>next_pid := nx\<rparr>"] exI [of _ pid]) (simp add: proc_getid_def)
qed

theorem proc_getid_fresh_witness:
  "\<exists>s' pid. proc_getid family = Some (s', pid) \<and> 0 \<le> next_pid s' \<and> next_pid s' < 65536"
proof -
  have "0 \<le> next_pid family" "next_pid family < PROC_MAX_COUNT" by (simp_all add: family_def)
  from proc_getid_fresh [OF this] show ?thesis by blast
qed

text \<open>
  C7. \<^verbatim>\<open>proc_create\<close> adds one process to the tree: it gets a pid in range that no
  listed process has, is running and without children, and the tree invariant is kept.  It
  is appended to the children of the current process, in the last place, and nothing else
  about any other process changes.
\<close>

theorem proc_create_keeps_tree:
  assumes "proc_create name (Some np) newmap pd s = Some (s', p)" and "proc_inv s"
    and "np \<notin> set (k_proc_list s)" and "\<And>c. curproc s = Some c \<Longrightarrow> c \<in> set (k_proc_list s)"
    and "0 \<le> f" and "f < PROC_MAX_COUNT" and "\<not> pid_used s f"
  shows "p = np \<and> proc_inv s' \<and> k_proc_list s' = k_proc_list s @ [np]
    \<and> p_pproc (procs s' np) = curproc s \<and> p_children (procs s' np) = [] \<and> p_state (procs s' np) = PROC_RUNNING
    \<and> 0 \<le> p_pid (procs s' np) \<and> p_pid (procs s' np) < PROC_MAX_COUNT \<and> \<not> pid_used s (p_pid (procs s' np))
    \<and> (\<forall>q. q \<noteq> np \<longrightarrow> procs s' q = (if curproc s = Some q
           then (procs s q)\<lparr>p_children := p_children (procs s q) @ [np]\<rparr> else procs s q))"
  using assms by (rule proc_create_inv)

lemma family_create:
  "\<exists>s'. proc_create ''sh'' (Some 14) (Some 7) (Some 8) family = Some (s', 14)"
proof -
  have "getid_loop 4 u 4 = Some (4, 5)" if "\<not> u 4" for u using getid_loop.simps [of 4 u 4] that by simp
  then show ?thesis
    by (simp add: proc_create_def proc_getid_def family_def blank_proc_def pid_used_def Let_def set_proc_def
        sched_queue_init_def set_kq_def)
qed

theorem proc_create_keeps_tree_witness:
  "\<exists>s'. proc_create ''sh'' (Some 14) (Some 7) (Some 8) family = Some (s', 14) \<and> proc_inv s'
     \<and> k_proc_list s' = [10, 11, 12, 13, 14] \<and> p_pproc (procs s' 14) = Some 12
     \<and> p_children (procs s' 12) = [13, 14] \<and> p_children (procs s' 11) = [12]"
proof -
  obtain s' where s': "proc_create ''sh'' (Some 14) (Some 7) (Some 8) family = Some (s', 14)"
    using family_create by blast
  from proc_create_keeps_tree [OF s' family_tree(1), of 4] show ?thesis
    using s' by (auto simp: family_def pid_used_def blank_proc_def)
qed

text \<open>
  C1. \<^verbatim>\<open>do_exit\<close> by a process other than init: the calling thread has exited with
  the given status, is on no queue and is no longer the current thread, another thread runs
  in its place, and every other thread of the process has been cancelled.  The process is
  dead with the given status, all its children have become children of init, after init's
  own, and the invariants of the tree and of the scheduler hold.
\<close>

theorem do_exit_reparents:
  assumes "do_exit env st irqs s = Some (s', irqs')" and "env_frame env" and "list_all irq_ok irqs"
    and "sched_inv s" and "cur_running s" and "proc_inv s" and "dead_childless s"
    and "curthr s = Some me" and "curproc s = Some cur" and "cur \<in> set (k_proc_list s)"
    and "proc_initproc s = Some ini" and "ini \<in> set (k_proc_list s)" and "ini \<noteq> cur"
    and "p_state (procs s ini) = PROC_RUNNING"
  shows "sched_inv s' \<and> cur_running s' \<and> curthr s' \<noteq> Some me
    \<and> kt_state (kt s' me) = KT_EXITED \<and> kt_retval (kt s' me) = Some st \<and> kt_wchan (kt s' me) = None
    \<and> (\<forall>t \<in> set (p_threads (procs s cur)). t = me \<or> kt_cancelled (kt s' t))
    \<and> proc_inv s' \<and> dead_childless s' \<and> k_proc_list s' = k_proc_list s
    \<and> p_state (procs s' cur) = PROC_DEAD \<and> p_status (procs s' cur) = st
    \<and> p_children (procs s' cur) = []
    \<and> p_children (procs s' ini) = p_children (procs s ini) @ p_children (procs s cur)
    \<and> (\<forall>c \<in> set (p_children (procs s cur)). p_pproc (procs s' c) = Some ini)"
  using assms by (rule do_exit_ok)

lemma family_exit: "\<exists>s'. do_exit quiet_env 7 [] family = Some (s', [])"
proof -
  have r: "reparent 12 11 s = Some (set_proc 13 (\<lambda>r. r\<lparr>p_pproc := Some 11\<rparr>)
      (set_proc 11 (\<lambda>r. r\<lparr>p_children := p_children r @ [13]\<rparr>) (set_proc 12 (\<lambda>r. r\<lparr>p_children := []\<rparr>) s)))"
    if "p_children (procs s 12) = [13]" for s :: kproc
    using that reparent.simps [of 12 11 s] by (subst reparent.simps, simp add: reparent.simps)
  have fds: "close_files f 12 s = Some s" if "p_files (procs s 12) = replicate 32 None" for f and s :: kproc
  proof -
    have "foldM (\<lambda>fd s. if fd < length (p_files (procs s 12)) \<and> p_files (procs s 12) ! fd \<noteq> None then f fd s else Some s)
        fds s = Some s" for fds using that by (induction fds) auto
    then show ?thesis by (simp add: close_files_def)
  qed
  show ?thesis
    by (simp add: do_exit_def family_def blank_proc_def blank_thr_def blank_q_def kthread_exit_def
        proc_thread_exited_def proc_cleanup_def sched_wakeup_on_empty set_thr_def fds destroy_map_def r
        sched_switch_def set_proc_def switch_from_def fill_runq_def dispatch_def ktqueue_dequeue_def set_kq_def
        context_switch_def Let_def)
qed

theorem do_exit_reparents_witness:
  "\<exists>s'. do_exit quiet_env 7 [] family = Some (s', []) \<and> p_state (procs s' 12) = PROC_DEAD
     \<and> p_status (procs s' 12) = 7 \<and> p_children (procs s' 11) = [12, 13] \<and> p_pproc (procs s' 13) = Some 11
     \<and> curthr s' \<noteq> Some 1 \<and> kt_state (kt s' 1) = KT_EXITED \<and> kt_retval (kt s' 1) = Some 7"
proof -
  obtain s' where s': "do_exit quiet_env 7 [] family = Some (s', [])" using family_exit by blast
  from do_exit_reparents [OF s' quiet_env_frame _ family_sched family_tree, of 1 12 11] show ?thesis
    using s' by (auto simp: family_def blank_proc_def)
qed

text \<open>
  C5. When \<^verbatim>\<open>do_waitpid\<close> disposes of a child, it is a dead child of the caller, the
  returned value is its pid and the status handed out is its exit status; the child is
  gone from the process list and from the caller's children, and the tree invariant is kept.
\<close>

theorem do_waitpid_reaps:
  assumes run: "do_waitpid pid want irqs s = Some (Reaped s' r st)" and inv: "proc_inv s" "dead_childless s"
    and cur: "curproc s = Some cur" "cur \<in> set (k_proc_list s)"
  shows "\<exists>d \<in> set (p_children (procs s cur)). p_state (procs s d) = PROC_DEAD \<and> r = p_pid (procs s d)
    \<and> st = (if want then Some (p_status (procs s d)) else None)
    \<and> k_proc_list s' = remove1 d (k_proc_list s) \<and> d \<notin> set (k_proc_list s')
    \<and> p_children (procs s' cur) = remove1 d (p_children (procs s cur))
    \<and> proc_inv s' \<and> dead_childless s' \<and> (sched_inv s \<longrightarrow> sched_inv s')"
proof (rule waitpid_round_reaped [OF _ inv cur])
  show "waitpid_round want irqs s = Some (Reaped s' r st)"
    using run cur(1) by (auto simp: do_waitpid_def split: if_splits option.splits)
qed

text \<open>The same family seen from idle's child init, whose child 12 has died.\<close>

definition bereaved :: kproc where
  "bereaved = family\<lparr>curproc := Some 12,
     procs := (procs family)(13 := blank_proc\<lparr>p_pid := 3, p_pproc := Some 12, p_state := PROC_DEAD, p_status := 5\<rparr>)\<rparr>"

lemma bereaved_tree: "proc_inv bereaved" "dead_childless bereaved"
  by (auto simp: bereaved_def family_def blank_proc_def proc_inv_def dead_childless_def)

theorem do_waitpid_reaps_witness:
  "\<exists>s'. do_waitpid (- 1) True [] bereaved = Some (Reaped s' 3 (Some 5)) \<and> k_proc_list s' = [10, 11, 12]"
proof -
  obtain s' where s': "do_waitpid (- 1) True [] bereaved = Some (Reaped s' 3 (Some 5))"
    by (simp add: do_waitpid_def waitpid_round_def reap_def bereaved_def family_def blank_proc_def)
  from do_waitpid_reaps [OF s' bereaved_tree, of 12] show ?thesis
    using s' by (auto simp: bereaved_def family_def blank_proc_def)
qed

text \<open>
  C13. Naming a child makes no difference: for any child of the caller,
  \<^verbatim>\<open>do_waitpid(pid)\<close> behaves exactly as \<^verbatim>\<open>do_waitpid(-1)\<close>, so it may
  dispose of, and return, a child other than the one asked for.
\<close>

theorem do_waitpid_ignores_pid:
  assumes "0 < pid" and "curproc s = Some cur" and "proc_lookup pid s = Some p" and "p_pproc (procs s p) = Some cur"
  shows "do_waitpid pid want irqs s = do_waitpid (- 1) want irqs s"
proof -
  have "p_pid (procs s p) = pid" using assms(3) by (auto simp: proc_lookup_def find_Some_iff)
  then show ?thesis using assms by (simp add: do_waitpid_def)
qed

text \<open>Process 12 has the dead child 13 (pid 3) and the running child 14 (pid 4).\<close>

definition bereaved2 :: kproc where
  "bereaved2 = bereaved\<lparr>k_proc_list := [10, 11, 12, 13, 14],
     procs := (procs bereaved)(14 := blank_proc\<lparr>p_pid := 4, p_pproc := Some 12\<rparr>,
                               12 := (procs bereaved 12)\<lparr>p_children := [13, 14]\<rparr>)\<rparr>"

theorem do_waitpid_ignores_pid_witness: "\<exists>s'. do_waitpid 4 False [] bereaved2 = Some (Reaped s' 3 None)"
proof -
  have "\<exists>s'. do_waitpid (- 1) False [] bereaved2 = Some (Reaped s' 3 None)"
    by (simp add: do_waitpid_def waitpid_round_def reap_def bereaved2_def bereaved_def family_def blank_proc_def)
  moreover have "do_waitpid 4 False [] bereaved2 = do_waitpid (- 1) False [] bereaved2"
    by (rule do_waitpid_ignores_pid [of 4 _ 12 14])
      (simp_all add: proc_lookup_def bereaved2_def bereaved_def family_def blank_proc_def)
  ultimately show ?thesis by simp
qed

text \<open>
  C14. A process that is its own reaper never finishes exiting: if init still has
  children, \<^verbatim>\<open>proc_cleanup\<close> moves them to the end of its own list for ever.
\<close>

theorem init_cleanup_diverges:
  assumes env: "env_frame env" and "curproc s = Some ini" and "proc_initproc s = Some ini"
    and "p_children (procs s ini) \<noteq> []"
  shows "proc_cleanup env status s = None"
proof (rule ccontr)
  assume "proc_cleanup env status s \<noteq> None"
  then obtain s' where run: "proc_cleanup env status s = Some s'" by blast
  obtain parent s1 r s2 s3 where w: "sched_wakeup_on (p_wait parent) s = Some (s1, r)"
    and same: "proc_same s1 s2" and rp: "reparent ini ini s2 = Some s3"
    using proc_cleanupE [OF run env] assms(2,3) by (metis option.inject)
  have "p_children (procs s2 ini) = p_children (procs s ini)"
    using proc_same_fields(1) [OF same] sched_more_procs(1) [OF wakeup_more [OF w]] by simp
  then show False using reparent_self [OF rp] assms(4) by simp
qed

theorem init_cleanup_diverges_witness: "proc_cleanup quiet_env 0 (family\<lparr>curproc := Some 11\<rparr>) = None"
  by (rule init_cleanup_diverges [OF quiet_env_frame, of _ 11]) (simp_all add: family_def)

end
