(* ===== verification/Vmmap.thy ===== *)
theory Vmmap
imports KPrelude
begin

text \<open>
  Address spaces: \<^verbatim>\<open>vm/vmmap.c\<close> and the page macros of
  \<^verbatim>\<open>include/mm/page.h\<close>.  Page numbers are 32-bit words with the wrap-around of the
  C code; an address space is the list of its areas in list order.  What the code does to
  memory objects (references, shadow objects) is returned as a list of events; the frames
  of an object are an argument of reading and writing.
\<close>

type_synonym pn = "32 word"

section \<open>Page macros\<close>

abbreviation (input) PAGE_SHIFT :: nat where "PAGE_SHIFT \<equiv> 12"
abbreviation (input) PAGE_SIZE :: "32 word" where "PAGE_SIZE \<equiv> 4096"
abbreviation (input) USER_MEM_LOW :: "32 word" where "USER_MEM_LOW \<equiv> 0x400000"
abbreviation (input) USER_MEM_HIGH :: "32 word" where "USER_MEM_HIGH \<equiv> 0xc0000000"

definition ADDR_TO_PN :: "32 word \<Rightarrow> 32 word" where
  "ADDR_TO_PN x = drop_bit PAGE_SHIFT x"

definition PN_TO_ADDR :: "32 word \<Rightarrow> 32 word" where
  "PN_TO_ADDR x = push_bit PAGE_SHIFT x"

definition PAGE_OFFSET :: "32 word \<Rightarrow> 32 word" where
  "PAGE_OFFSET x = take_bit PAGE_SHIFT x"

definition PAGE_ALIGNED :: "32 word \<Rightarrow> bool" where
  "PAGE_ALIGNED x \<longleftrightarrow> x mod PAGE_SIZE = 0"

abbreviation (input) LOW_PN :: pn where "LOW_PN \<equiv> 0x400"
abbreviation (input) HIGH_PN :: pn where "HIGH_PN \<equiv> 0xc0000"

lemma user_mem_pns: "ADDR_TO_PN USER_MEM_LOW = LOW_PN" "ADDR_TO_PN USER_MEM_HIGH = HIGH_PN"
  by (simp_all add: ADDR_TO_PN_def)

section \<open>Areas\<close>

abbreviation (input) PROT_READ :: nat where "PROT_READ \<equiv> 1"
abbreviation (input) PROT_WRITE :: nat where "PROT_WRITE \<equiv> 2"
abbreviation (input) PROT_EXEC :: nat where "PROT_EXEC \<equiv> 4"
abbreviation (input) MAP_SHARED :: nat where "MAP_SHARED \<equiv> 1"
abbreviation (input) MAP_PRIVATE :: nat where "MAP_PRIVATE \<equiv> 2"
abbreviation (input) MAP_FIXED :: nat where "MAP_FIXED \<equiv> 4"
abbreviation (input) MAP_ANON :: nat where "MAP_ANON \<equiv> 8"

record vmarea =
  vma_start :: pn
  vma_end :: pn
  vma_off :: pn
  vma_prot :: nat
  vma_flags :: nat
  vma_vmmap :: bool
  vma_obj :: "nat option"

record vmmap =
  vmm_list :: "vmarea list"
  vmm_proc :: "nat option"

datatype vmmap_dir = VMMAP_DIR_LOHI | VMMAP_DIR_HILO

text \<open>What happens to memory objects.\<close>

datatype mm_event = Mm_put nat | Mm_ref nat | Mm_shadow nat nat

text \<open>
  An area fresh from \<^verbatim>\<open>vmarea_alloc\<close>: only \<^verbatim>\<open>vma_vmmap\<close> is initialised; the
  rest is what the allocator left, the argument.
\<close>

definition vmarea_alloc :: "vmarea option \<Rightarrow> vmarea option" where
  "vmarea_alloc obj = map_option (\<lambda>v. v\<lparr>vma_vmmap := False\<rparr>) obj"

definition vmmap_create :: "bool \<Rightarrow> vmmap option" where
  "vmmap_create obj = (if obj then Some \<lparr>vmm_list = [], vmm_proc = None\<rparr> else None)"

definition vmmap_destroy :: "vmmap \<Rightarrow> vmmap" where
  "vmmap_destroy mp = mp\<lparr>vmm_list := [], vmm_proc := None\<rparr>"

fun insert_area :: "vmarea \<Rightarrow> vmarea list \<Rightarrow> vmarea list" where
  "insert_area new [] = [new]"
| "insert_area new (v # vs) =
     (if vma_start v > vma_start new \<and> vma_end new \<le> vma_start v then new # v # vs
      else v # insert_area new vs)"

definition vmmap_insert :: "vmmap \<Rightarrow> vmarea \<Rightarrow> vmmap option" where
  "vmmap_insert mp newvma = do {
     KASSERT (\<not> vma_vmmap newvma);
     KASSERT (vma_start newvma < vma_end newvma);
     KASSERT (ADDR_TO_PN USER_MEM_LOW \<le> vma_start newvma \<and> ADDR_TO_PN USER_MEM_HIGH \<ge> vma_end newvma);
     Some (mp\<lparr>vmm_list := insert_area (newvma\<lparr>vma_vmmap := True\<rparr>) (vmm_list mp)\<rparr>)
   }"

text \<open>The two scans of \<^verbatim>\<open>vmmap_find_range\<close>; the result is the page number as a C \<^verbatim>\<open>int\<close>.\<close>

fun find_lohi :: "pn \<Rightarrow> pn \<Rightarrow> vmarea list \<Rightarrow> int" where
  "find_lohi npages start [] =
     (if start + npages < ADDR_TO_PN USER_MEM_HIGH then sint start else - 1)"
| "find_lohi npages start (v # vs) =
     (if vma_start v - start > npages then sint start else find_lohi npages (vma_end v) vs)"

fun find_hilo :: "pn \<Rightarrow> pn \<Rightarrow> vmarea list \<Rightarrow> int" where
  "find_hilo npages end [] =
     (if end - npages > ADDR_TO_PN USER_MEM_LOW then sint (end - npages) else - 1)"
| "find_hilo npages end (v # vs) =
     (if end - vma_end v > npages then sint (end - npages) else find_hilo npages (vma_start v) vs)"

definition vmmap_find_range :: "vmmap \<Rightarrow> pn \<Rightarrow> vmmap_dir \<Rightarrow> int option" where
  "vmmap_find_range mp npages dir = do {
     KASSERT (0 < npages);
     Some (if vmm_list mp = [] then - 1
           else case dir of
             VMMAP_DIR_LOHI \<Rightarrow> find_lohi npages (ADDR_TO_PN USER_MEM_LOW) (vmm_list mp)
           | VMMAP_DIR_HILO \<Rightarrow> find_hilo npages (ADDR_TO_PN USER_MEM_HIGH) (rev (vmm_list mp)))
   }"

definition vmmap_lookup :: "vmmap \<Rightarrow> pn \<Rightarrow> vmarea option" where
  "vmmap_lookup mp vfn = find (\<lambda>v. vfn < vma_end v \<and> vma_start v \<le> vfn) (vmm_list mp)"

text \<open>\<^verbatim>\<open>vmmap_clone\<close>: the new areas keep the object the allocator's memory held.\<close>

fun clone_areas :: "vmarea option list \<Rightarrow> vmarea list \<Rightarrow> vmarea list option" where
  "clone_areas objs [] = Some []"
| "clone_areas [] (v # vs) = None"
| "clone_areas (None # objs) (v # vs) = None"
| "clone_areas (Some n # objs) (v # vs) = do {
     rest \<leftarrow> clone_areas objs vs;
     Some (n\<lparr>vma_start := vma_start v, vma_end := vma_end v, vma_off := vma_off v, vma_flags := vma_flags v,
            vma_prot := vma_prot v, vma_vmmap := True\<rparr> # rest)
   }"

definition vmmap_clone :: "bool \<Rightarrow> vmarea option list \<Rightarrow> vmmap \<Rightarrow> vmmap option" where
  "vmmap_clone obj areas mp = do {
     dest \<leftarrow> vmmap_create obj;
     vs \<leftarrow> clone_areas areas (vmm_list mp);
     Some (dest\<lparr>vmm_list := vs\<rparr>)
   }"

definition vmmap_is_range_empty :: "vmmap \<Rightarrow> pn \<Rightarrow> pn \<Rightarrow> bool option" where
  "vmmap_is_range_empty mp startvfn npages = do {
     let endvfn = startvfn + npages;
     KASSERT (startvfn < endvfn \<and> ADDR_TO_PN USER_MEM_LOW \<le> startvfn \<and> ADDR_TO_PN USER_MEM_HIGH \<ge> endvfn);
     Some (list_all (\<lambda>v. \<not> ((vma_start v < startvfn \<and> startvfn < vma_end v) \<or>
                            (vma_start v < endvfn \<and> endvfn < vma_end v) \<or>
                            vma_start v = startvfn)) (vmm_list mp))
   }"

text \<open>
  \<^verbatim>\<open>vmmap_remove\<close> on one area, the four tests in their order.  Splitting an area
  reads the object pointer of the area just allocated, which is not initialised
  (\<^const>\<open>None\<close>), unless the allocation fails, which ends the call with the area cut.
  \<^verbatim>\<open>junk\<close> is the page number read from the first frame of the object.
\<close>

datatype removed = Stop vmarea | Keep vmarea bool | Drop vmarea

definition remove_area :: "bool \<Rightarrow> (nat option \<Rightarrow> pn) \<Rightarrow> pn \<Rightarrow> pn \<Rightarrow> vmarea \<Rightarrow> removed option" where
  "remove_area alloc junk lopage npages v =
     (let hipage = lopage + npages in
      if vma_start v < lopage \<and> hipage < vma_end v then
        (if alloc then None else Some (Stop (v\<lparr>vma_end := lopage\<rparr>)))
      else
        let cut = (vma_start v < lopage \<and> vma_end v < hipage \<and> vma_end v > lopage);
            v1 = (if cut then v\<lparr>vma_end := lopage\<rparr> else v);
            move = (lopage < vma_start v1 \<and> vma_end v1 < hipage \<and> hipage > vma_start v1);
            v2 = (if move then v1\<lparr>vma_start := hipage, vma_off := junk (vma_obj v1)\<rparr> else v1)
        in if lopage \<le> vma_start v2 \<and> vma_end v2 \<le> hipage then Some (Drop v2)
           else Some (Keep v2 (cut \<or> move)))"

text \<open>The loop, with \<^verbatim>\<open>passed\<close>; the failed allocation returns NULL whatever was done before.\<close>

fun remove_areas :: "bool \<Rightarrow> (nat option \<Rightarrow> pn) \<Rightarrow> pn \<Rightarrow> pn \<Rightarrow> bool \<Rightarrow> vmarea list
    \<Rightarrow> (vmarea list \<times> bool \<times> mm_event list) option" where
  "remove_areas alloc junk lopage npages passed [] = Some ([], passed, [])"
| "remove_areas alloc junk lopage npages passed (v # vs) = do {
     r \<leftarrow> remove_area alloc junk lopage npages v;
     case r of
       Stop v' \<Rightarrow> Some (v' # vs, False, [])
     | Keep v' p \<Rightarrow> do {
         (vs', p', es) \<leftarrow> remove_areas alloc junk lopage npages (passed \<or> p) vs;
         Some (v' # vs', p', es)
       }
     | Drop v' \<Rightarrow> do {
         obj \<leftarrow> vma_obj v';
         (vs', p', es) \<leftarrow> remove_areas alloc junk lopage npages True vs;
         Some (vs', p', Mm_put obj # es)
       }
   }"

definition vmmap_remove :: "bool \<Rightarrow> (nat option \<Rightarrow> pn) \<Rightarrow> vmmap \<Rightarrow> pn \<Rightarrow> pn
    \<Rightarrow> (vmmap \<times> int \<times> mm_event list) option" where
  "vmmap_remove alloc junk mp lopage npages = do {
     (vs, p, es) \<leftarrow> remove_areas alloc junk lopage npages False (vmm_list mp);
     Some (mp\<lparr>vmm_list := vs\<rparr>, if p then 1 else 0, es)
   }"

text \<open>
  \<^verbatim>\<open>vmmap_map\<close>.  The allocator, the anonymous and shadow object constructors and the
  \<^verbatim>\<open>mmap\<close> operation of the vnode (its error, or the object) are arguments; the third
  component of the result is the value stored through \<^verbatim>\<open>new\<close>.  The object of the
  new area is assigned after the insertion, which does not look at it; the model inserts
  the area with its final object.
\<close>

record map_env =
  me_area :: "vmarea option"
  me_anon :: "nat option"
  me_shadow :: "nat option"
  me_mmap :: "nat \<Rightarrow> int + nat"
  me_alloc :: bool
  me_junk :: "nat option \<Rightarrow> pn"

definition map_shadow :: "map_env \<Rightarrow> nat \<Rightarrow> nat \<Rightarrow> (nat \<times> mm_event list) option" where
  "map_shadow env flags memobj =
     (if flags div MAP_PRIVATE mod 2 = 1 then do {
        sh \<leftarrow> me_shadow env;
        Some (sh, [Mm_ref sh, Mm_shadow sh memobj])
      } else Some (memobj, []))"

definition map_area :: "vmarea \<Rightarrow> pn \<Rightarrow> pn \<Rightarrow> nat \<Rightarrow> nat \<Rightarrow> pn \<Rightarrow> vmarea" where
  "map_area v lopage npages prot flags off =
     v\<lparr>vma_start := lopage, vma_end := lopage + npages, vma_off := off, vma_prot := prot,
       vma_flags := (if flags div MAP_PRIVATE mod 2 = 1 then MAP_PRIVATE else MAP_SHARED)\<rparr>"

definition vmmap_map :: "map_env \<Rightarrow> vmmap \<Rightarrow> nat option \<Rightarrow> pn \<Rightarrow> pn \<Rightarrow> nat \<Rightarrow> nat \<Rightarrow> pn \<Rightarrow> vmmap_dir
    \<Rightarrow> (vmmap \<times> int \<times> pn option \<times> mm_event list) option" where
  "vmmap_map env mp file lopage npages prot flags off dir = do {
     KASSERT (0 < npages);
     KASSERT (prot < 8);
     KASSERT (flags mod 2 = 1 \<or> flags div 2 mod 2 = 1);
     KASSERT (lopage = 0 \<or> ADDR_TO_PN USER_MEM_LOW \<le> lopage);
     KASSERT (lopage = 0 \<or> ADDR_TO_PN USER_MEM_HIGH \<ge> lopage + npages);
     KASSERT (PAGE_ALIGNED off);
     (mp, start, es) \<leftarrow>
       (if lopage = 0 then do {
          s \<leftarrow> vmmap_find_range mp npages dir;
          Some (mp, s, [])
        } else do {
          e \<leftarrow> vmmap_is_range_empty mp lopage npages;
          if e then Some (mp, uint lopage, [])
          else do {
            (mp, _, es) \<leftarrow> vmmap_remove (me_alloc env) (me_junk env) mp lopage npages;
            Some (mp, uint lopage, es)
          }
        });
     if start < 0 then Some (mp, start, None, es)
     else case vmarea_alloc (me_area env) of
       None \<Rightarrow> Some (mp, - 1, None, es)
     | Some v \<Rightarrow> do {
         let lo = word_of_int start;
         let newvma = map_area v lo npages prot flags off;
         case file of
           None \<Rightarrow>
             (case me_anon env of
                None \<Rightarrow> Some (mp, - 1, Some (PN_TO_ADDR lo), es)
              | Some obj \<Rightarrow> do {
                  (top, es') \<leftarrow> map_shadow env flags obj;
                  mp \<leftarrow> vmmap_insert mp (newvma\<lparr>vma_obj := Some top\<rparr>);
                  Some (mp, 0, Some (PN_TO_ADDR lo), es @ [Mm_ref obj] @ es')
                })
         | Some f \<Rightarrow>
             (case me_mmap env f of
                Inl e \<Rightarrow> do {
                  mp \<leftarrow> vmmap_insert mp newvma;
                  Some (mp, e, Some (PN_TO_ADDR lo), es)
                }
              | Inr obj \<Rightarrow> do {
                  (top, es') \<leftarrow> map_shadow env flags obj;
                  mp \<leftarrow> vmmap_insert mp (newvma\<lparr>vma_obj := Some top\<rparr>);
                  Some (mp, 0, Some (PN_TO_ADDR lo), es @ es')
                })
       }
   }"

section \<open>Reading and writing\<close>

text \<open>
  The frame of page \<^verbatim>\<open>n\<close> of an object, as \<^verbatim>\<open>pframe_get\<close> delivers it, is a list of
  4096 bytes; a copy that runs over the end of the frame is \<^const>\<open>None\<close>.  The loop
  copies the same bytes again on every round: neither the buffer nor the offset advances.
\<close>

type_synonym frames = "nat \<Rightarrow> 32 word \<Rightarrow> byte list option"

function read_loop :: "frames \<Rightarrow> nat \<Rightarrow> nat \<Rightarrow> nat \<Rightarrow> int \<Rightarrow> 32 word \<Rightarrow> byte list \<Rightarrow> byte list option" where
  "read_loop fr obj off n temp pagenum buf =
     (if temp > 0 then do {
        page \<leftarrow> fr obj pagenum;
        bs \<leftarrow> copy_out page off (min n 4096);
        read_loop fr obj off n (temp - 4096) (pagenum + 1) bs
      } else Some buf)"
  by pat_completeness auto
termination
  by (relation "measure (\<lambda>(fr, obj, off, n, temp, pagenum, buf). nat temp)") auto

text \<open>The address space, page frames and the result: 0 or the error, and the buffer.\<close>

definition vmmap_read :: "frames \<Rightarrow> vmmap \<Rightarrow> 32 word \<Rightarrow> byte list \<Rightarrow> 32 word \<Rightarrow> (int \<times> byte list) option" where
  "vmmap_read fr mp vaddr buf count =
     (case vmmap_lookup mp (ADDR_TO_PN vaddr) of
        None \<Rightarrow> Some (- 1, buf)
      | Some vma \<Rightarrow> do {
          let pagenum = ADDR_TO_PN vaddr - vma_start vma + vma_off vma;
          (if sint count > 0 then do {
             obj \<leftarrow> vma_obj vma;
             b \<leftarrow> read_loop fr obj (unat (PAGE_OFFSET vaddr)) (unat count) (sint count) pagenum buf;
             Some (0, b)
           } else Some (0, buf))
        })"

function write_loop :: "frames \<Rightarrow> nat \<Rightarrow> nat \<Rightarrow> int \<Rightarrow> 32 word \<Rightarrow> byte list \<Rightarrow> frames option" where
  "write_loop fr obj off temp pagenum bs =
     (if temp > 0 then do {
        page \<leftarrow> fr obj pagenum;
        page' \<leftarrow> copy_in page off (take 4096 bs);
        write_loop (fr(obj := (fr obj)(pagenum := Some page'))) obj off (temp - 4096) (pagenum + 1) bs
      } else Some fr)"
  by pat_completeness auto
termination
  by (relation "measure (\<lambda>(fr, obj, off, temp, pagenum, bs). nat temp)") auto

text \<open>The buffer holds \<^verbatim>\<open>count\<close> bytes.\<close>

definition vmmap_write :: "frames \<Rightarrow> vmmap \<Rightarrow> 32 word \<Rightarrow> byte list \<Rightarrow> 32 word \<Rightarrow> (frames \<times> int) option" where
  "vmmap_write fr mp vaddr buf count =
     (case vmmap_lookup mp (ADDR_TO_PN vaddr) of
        None \<Rightarrow> Some (fr, - 1)
      | Some vma \<Rightarrow> do {
          let pagenum = ADDR_TO_PN vaddr - vma_start vma + vma_off vma;
          (if sint count > 0 then do {
             obj \<leftarrow> vma_obj vma;
             fr \<leftarrow> write_loop fr obj (unat (PAGE_OFFSET vaddr)) (sint count) pagenum (take (unat count) buf);
             Some (fr, 0)
           } else Some (fr, 0))
        })"

declare read_loop.simps [simp del]
declare write_loop.simps [simp del]

section \<open>Well-formed address spaces\<close>

definition area_ok :: "vmarea \<Rightarrow> bool" where
  "area_ok v \<longleftrightarrow> LOW_PN \<le> vma_start v \<and> vma_start v < vma_end v \<and> vma_end v \<le> HIGH_PN"

definition vm_wf :: "vmarea list \<Rightarrow> bool" where
  "vm_wf vs \<longleftrightarrow> list_all area_ok vs \<and> sorted_wrt (\<lambda>a b. vma_end a \<le> vma_start b) vs"

definition in_area :: "pn \<Rightarrow> vmarea \<Rightarrow> bool" where
  "in_area p v \<longleftrightarrow> vma_start v \<le> p \<and> p < vma_end v"

definition covered :: "vmarea list \<Rightarrow> pn \<Rightarrow> bool" where
  "covered vs p \<longleftrightarrow> (\<exists>v \<in> set vs. in_area p v)"

lemma vm_wf_simps [simp]:
  "vm_wf []"
  "vm_wf (v # vs) \<longleftrightarrow> area_ok v \<and> (\<forall>w \<in> set vs. vma_end v \<le> vma_start w) \<and> vm_wf vs"
  by (auto simp: vm_wf_def)

lemma vm_wf_area: "vm_wf vs \<Longrightarrow> v \<in> set vs \<Longrightarrow> area_ok v"
  by (auto simp: vm_wf_def list_all_iff)

lemma covered_simps [simp]: "\<not> covered [] p" "covered (v # vs) p \<longleftrightarrow> in_area p v \<or> covered vs p"
  by (auto simp: covered_def)

lemma vm_wf_unique:
  "\<lbrakk> vm_wf vs; v \<in> set vs; w \<in> set vs; in_area p v; in_area p w \<rbrakk> \<Longrightarrow> v = w"
  by (induction vs) (auto simp: in_area_def)

lemma vmmap_lookup_iff:
  assumes "vm_wf (vmm_list mp)"
  shows "vmmap_lookup mp p = Some v \<longleftrightarrow> v \<in> set (vmm_list mp) \<and> in_area p v"
proof
  assume "vmmap_lookup mp p = Some v"
  then show "v \<in> set (vmm_list mp) \<and> in_area p v"
    by (auto simp: vmmap_lookup_def find_Some_iff in_area_def)
next
  assume v: "v \<in> set (vmm_list mp) \<and> in_area p v"
  then obtain w where w: "vmmap_lookup mp p = Some w"
    by (cases "vmmap_lookup mp p") (auto simp: vmmap_lookup_def find_None_iff in_area_def)
  then have "w \<in> set (vmm_list mp)" "in_area p w"
    by (auto simp: vmmap_lookup_def find_Some_iff in_area_def)
  then show "vmmap_lookup mp p = Some v" using v w vm_wf_unique [OF assms, of v w p] by simp
qed

lemma vmmap_lookup_None: "vmmap_lookup mp p = None \<longleftrightarrow> \<not> covered (vmm_list mp) p"
  by (auto simp: vmmap_lookup_def find_None_iff covered_def in_area_def)

section \<open>Insertion\<close>

definition apart :: "vmarea \<Rightarrow> vmarea \<Rightarrow> bool" where
  "apart v w \<longleftrightarrow> vma_end v \<le> vma_start w \<or> vma_end w \<le> vma_start v"

lemma insert_area_set [simp]: "set (insert_area new vs) = insert new (set vs)"
  by (induction vs) auto

lemma insert_area_wf:
  "\<lbrakk> vm_wf vs; area_ok new; \<forall>v \<in> set vs. apart new v \<rbrakk> \<Longrightarrow> vm_wf (insert_area new vs)"
proof (induction vs)
  case (Cons v vs)
  show ?case
  proof (cases "vma_start v > vma_start new \<and> vma_end new \<le> vma_start v")
    case True
    moreover have "vma_end new \<le> vma_start w" if "w \<in> set vs" for w
      using True that Cons.prems(1) by (auto simp: area_ok_def)
    ultimately show ?thesis using Cons.prems by auto
  next
    case False
    have "vma_end v \<le> vma_start new"
      using False Cons.prems by (auto simp: apart_def area_ok_def)
    with False show ?thesis using Cons by auto
  qed
qed simp

lemma vmmap_insert_ok:
  assumes "vm_wf (vmm_list mp)" and "area_ok new" and "\<not> vma_vmmap new" and "\<forall>v \<in> set (vmm_list mp). apart new v"
  shows "\<exists>mp'. vmmap_insert mp new = Some mp' \<and> vm_wf (vmm_list mp')
     \<and> set (vmm_list mp') = insert (new\<lparr>vma_vmmap := True\<rparr>) (set (vmm_list mp))"
  using assms insert_area_wf [of "vmm_list mp" "new\<lparr>vma_vmmap := True\<rparr>"]
  by (auto simp: vmmap_insert_def user_mem_pns area_ok_def apart_def)

section \<open>Finding a free range\<close>

definition range_free :: "vmarea list \<Rightarrow> pn \<Rightarrow> pn \<Rightarrow> bool" where
  "range_free vs start n \<longleftrightarrow> LOW_PN \<le> start \<and> uint start + uint n \<le> uint HIGH_PN
     \<and> (\<forall>v \<in> set vs. vma_end v \<le> start \<or> uint start + uint n \<le> uint (vma_start v))"

lemma find_lohi_sound:
  assumes "vm_wf vs" and "LOW_PN \<le> start" and "start \<le> HIGH_PN" and "\<forall>v \<in> set vs. start \<le> vma_start v"
    and "n \<le> 0x80000000" and "r = find_lohi n start vs" and "0 \<le> r"
  shows "\<exists>s. r = uint s \<and> start \<le> s \<and> range_free vs s n"
  using assms(1-4,6)
proof (induction vs arbitrary: start)
  case Nil
  then show ?case
    using assms(5,7) by (auto simp: user_mem_pns range_free_def word32_arith split: if_splits intro!: exI [of _ start])
next
  case (Cons v vs)
  show ?case
  proof (cases "vma_start v - start > n")
    case True
    have "start \<le> vma_start v" "area_ok v" using Cons.prems by auto
    moreover have "vma_start v \<le> vma_start w" if "w \<in> set vs" for w
      using Cons.prems(1) that by (auto simp: area_ok_def)
    ultimately show ?thesis
      using True Cons.prems assms(5) by (intro exI [of _ start]) (auto simp: range_free_def area_ok_def word32_arith)
  next
    case False
    have "area_ok v" using Cons.prems by auto
    moreover have "\<exists>s. r = uint s \<and> vma_end v \<le> s \<and> range_free vs s n"
      using Cons.prems False by (intro Cons.IH) (auto simp: area_ok_def)
    ultimately show ?thesis using Cons.prems(4) by (auto simp: range_free_def area_ok_def)
  qed
qed

lemma vm_wf_snoc:
  "vm_wf (vs @ [v]) \<longleftrightarrow> vm_wf vs \<and> area_ok v \<and> (\<forall>w \<in> set vs. vma_end w \<le> vma_start v)"
  by (induction vs) auto

lemma find_hilo_sound:
  assumes "vm_wf (rev ws)" and "end \<le> HIGH_PN" and "LOW_PN \<le> end" and "\<forall>v \<in> set ws. vma_end v \<le> end"
    and "n \<le> 0x80000000" and "r = find_hilo n end ws" and "0 \<le> r"
  shows "\<exists>s. r = uint s \<and> uint s + uint n \<le> uint end \<and> range_free ws s n"
  using assms(1-4,6)
proof (induction ws arbitrary: "end")
  case Nil
  then show ?case
    using assms(5,7)
    by (auto simp: user_mem_pns range_free_def word32_arith split: if_splits intro!: exI [of _ "end - n"])
      (use uint32_bounds(1) [of n] in linarith)
next
  case (Cons v ws)
  have v: "area_ok v" "vma_end v \<le> end" using Cons.prems by (auto simp: vm_wf_snoc)
  have below: "vma_end w \<le> vma_start v" if "w \<in> set ws" for w
    using Cons.prems(1) that by (auto simp: vm_wf_snoc)
  show ?case
  proof (cases "end - vma_end v > n")
    case True
    have t: "uint n < uint end - uint (vma_end v)"
      using True v(2) by (simp add: word_less_def word_le_def uint_minus32)
    then have "uint n \<le> uint end" using uint32_bounds(1) [of "vma_end v"] by linarith
    then have en: "uint (end - n) = uint end - uint n" by (simp add: uint_minus32)
    have b: "uint (vma_start v) < uint (vma_end v)" "1024 \<le> uint (vma_start v)" "uint end \<le> 786432"
      using v(1) Cons.prems(2) by (simp_all add: area_ok_def word_le_def word_less_def)
    have ends: "uint (vma_end w) \<le> uint (end - n)" if "w \<in> set (v # ws)" for w
    proof -
      have "vma_end w \<le> vma_end v" using below [of w] that v(1) by (auto simp: area_ok_def)
      then show ?thesis using t en by (simp add: word_le_def)
    qed
    have "uint (end - n) < 2147483648" using en b(3) uint32_bounds(1) [of n] by linarith
    then have "r = uint (end - n)" using True Cons.prems(5) by (simp add: sint32)
    moreover have "range_free (v # ws) (end - n) n"
      unfolding range_free_def using ends en b t by (auto simp: word_le_def)
    ultimately show ?thesis using en by (intro exI [of _ "end - n"]) simp
  next
    case False
    have "\<exists>s. r = uint s \<and> uint s + uint n \<le> uint (vma_start v) \<and> range_free ws s n"
      using Cons.prems False v below by (intro Cons.IH) (auto simp: vm_wf_snoc area_ok_def)
    then show ?thesis using v by (fastforce simp: range_free_def area_ok_def word_le_def word_less_def)
  qed
qed

lemma vmmap_find_range_free:
  assumes wf: "vm_wf (vmm_list mp)" and n: "n \<le> 0x80000000"
    and run: "vmmap_find_range mp n dir = Some r" and r: "0 \<le> r"
  shows "\<exists>s. r = uint s \<and> range_free (vmm_list mp) s n"
proof -
  have ne: "vmm_list mp \<noteq> []" using run r by (auto simp: vmmap_find_range_def)
  have bounds: "LOW_PN \<le> vma_start v \<and> vma_end v \<le> HIGH_PN" if "v \<in> set (vmm_list mp)" for v
    using vm_wf_area [OF wf that] by (simp add: area_ok_def)
  show ?thesis
  proof (cases dir)
    case VMMAP_DIR_LOHI
    then have e: "r = find_lohi n LOW_PN (vmm_list mp)"
      using run ne by (simp add: vmmap_find_range_def user_mem_pns)
    show ?thesis using find_lohi_sound [OF wf _ _ _ n e r] bounds by auto
  next
    case VMMAP_DIR_HILO
    then have e: "r = find_hilo n HIGH_PN (rev (vmm_list mp))"
      using run ne by (simp add: vmmap_find_range_def user_mem_pns)
    show ?thesis
      using find_hilo_sound [of "rev (vmm_list mp)", OF _ _ _ _ n e r] wf bounds by (auto simp: range_free_def)
  qed
qed

section \<open>Removal\<close>

lemma remove_area_cases:
  assumes v: "area_ok v" and ov: "lo < hi" "hi = lo + n"
    and run: "remove_area alloc junk lo n v = Some r"
  shows "case r of
      Stop v' \<Rightarrow> \<not> alloc \<and> v' = v\<lparr>vma_end := lo\<rparr> \<and> vma_start v < lo \<and> hi < vma_end v
    | Drop v' \<Rightarrow> lo \<le> vma_start v \<and> vma_end v \<le> hi \<and> vma_obj v' = vma_obj v
    | Keep v' p \<Rightarrow>
        (if vma_start v < lo \<and> lo < vma_end v \<and> vma_end v < hi then v' = v\<lparr>vma_end := lo\<rparr> \<and> p
         else v' = v \<and> \<not> p \<and> \<not> (lo \<le> vma_start v \<and> vma_end v \<le> hi))
        \<and> \<not> (vma_start v < lo \<and> hi < vma_end v)"
proof -
  have v': "vma_start v < vma_end v" using v by (simp add: area_ok_def)
  show ?thesis
  proof (cases "vma_start v < lo \<and> hi < vma_end v")
    case True
    then show ?thesis using run ov(2) by (auto simp: remove_area_def split: if_splits)
  next
    case False
    consider (cut) "vma_start v < lo" "lo < vma_end v" "vma_end v < hi"
      | (left) "vma_start v < lo" "\<not> (lo < vma_end v \<and> vma_end v < hi)"
      | (drop) "lo \<le> vma_start v" "vma_end v \<le> hi"
      | (right) "lo \<le> vma_start v" "hi < vma_end v" by force
    then show ?thesis
    proof cases
      case cut
      then show ?thesis using run False ov by (auto simp: remove_area_def Let_def split: if_splits)
    next
      case left
      then show ?thesis using run False ov v' by (auto simp: remove_area_def Let_def split: if_splits)
    next
      case drop
      then show ?thesis using run False ov v' by (auto simp: remove_area_def Let_def split: if_splits)
    next
      case right
      then show ?thesis using run False ov v' by (auto simp: remove_area_def Let_def split: if_splits)
    qed
  qed
qed

text \<open>
  What one pass over a well-formed list keeps: nothing outside the range loses its
  mapping, and inside it exactly the two cases the code forgets stay mapped.
\<close>

definition forgotten :: "pn \<Rightarrow> pn \<Rightarrow> vmarea \<Rightarrow> bool" where
  "forgotten lo hi v \<longleftrightarrow> (vma_start v < lo \<and> vma_end v = hi) \<or> (lo \<le> vma_start v \<and> vma_start v < hi \<and> hi < vma_end v)"

lemma remove_areas_ok:
  assumes "vm_wf vs" and ov: "lo < hi" "hi = lo + n"
    and "remove_areas True junk lo n passed vs = Some (vs', p, es)"
  shows "vm_wf vs' \<and> (\<forall>w \<in> set vs'. \<exists>v \<in> set vs. vma_start v \<le> vma_start w \<and> vma_end w \<le> vma_end v)
    \<and> (\<forall>q. covered vs' q \<longleftrightarrow> (\<exists>v \<in> set vs. in_area q v \<and> (\<not> (lo \<le> q \<and> q < hi) \<or> forgotten lo hi v)))"
  using assms(1,4)
proof (induction vs arbitrary: passed vs' p es)
  case Nil
  then show ?case by simp
next
  case (Cons v vs)
  have v: "area_ok v" "vm_wf vs" "\<forall>w \<in> set vs. vma_end v \<le> vma_start w" using Cons.prems(1) by auto
  from Cons.prems(2) obtain r where r: "remove_area True junk lo n v = Some r" by (auto simp: bind_Some_iff)
  note rc = remove_area_cases [OF v(1) ov r]
  have vse: "vma_start v < vma_end v" using v(1) by (simp add: area_ok_def)
  show ?case
  proof (cases r)
    case (Stop v')
    then show ?thesis using rc by simp
  next
    case (Keep v' p1)
    then obtain vs1 p2 p3 where rec: "remove_areas True junk lo n p3 vs = Some (vs1, p2, es)" and vs': "vs' = v' # vs1"
      using Cons.prems(2) r by (auto simp: bind_Some_iff)
    note IH = Cons.IH [OF v(2) rec]
    have v': "vma_start v' = vma_start v" "vma_end v' \<le> vma_end v" "area_ok v'"
      using rc Keep v(1) by (auto simp: area_ok_def split: if_splits)
    have cov: "in_area q v' \<longleftrightarrow> in_area q v \<and> (\<not> (lo \<le> q \<and> q < hi) \<or> forgotten lo hi v)" for q
      using rc Keep vse ov(1) by (auto simp: in_area_def forgotten_def split: if_splits)
    have "\<forall>w \<in> set vs1. vma_end v' \<le> vma_start w" using IH v(3) v'(2) by (meson order_trans)
    then show ?thesis using IH v' cov vs' by auto
  next
    case (Drop v')
    then obtain es1 p2 p3 where rec: "remove_areas True junk lo n p3 vs = Some (vs', p2, es1)"
      using Cons.prems(2) r by (auto simp: bind_Some_iff)
    note IH = Cons.IH [OF v(2) rec]
    have "\<not> (in_area q v \<and> (\<not> (lo \<le> q \<and> q < hi) \<or> forgotten lo hi v))" for q
      using rc Drop by (auto simp: in_area_def forgotten_def)
    then show ?thesis using IH by auto
  qed
qed

section \<open>Reading what was written\<close>

lemma loop_steps:
  "temp \<le> 0 \<Longrightarrow> write_loop fr obj off temp pn bs = Some fr"
  "0 < temp \<Longrightarrow> write_loop fr obj off temp pn bs = do {
     page \<leftarrow> fr obj pn; page' \<leftarrow> copy_in page off (take 4096 bs);
     write_loop (fr(obj := (fr obj)(pn := Some page'))) obj off (temp - 4096) (pn + 1) bs }"
  "temp \<le> 0 \<Longrightarrow> read_loop fr obj off n temp pn buf = Some buf"
  "0 < temp \<Longrightarrow> read_loop fr obj off n temp pn buf = do {
     page \<leftarrow> fr obj pn; b \<leftarrow> copy_out page off (min n 4096); read_loop fr obj off n (temp - 4096) (pn + 1) b }"
  by (subst write_loop.simps read_loop.simps, simp)+

lemma write_read_page:
  assumes wr: "vmmap_write fr mp vaddr buf count = Some (fr', 0)" and n: "0 < unat count" "unat count \<le> 4096"
    and len: "length buf = unat count" and obj: "vmmap_lookup mp (ADDR_TO_PN vaddr) = Some vma"
  shows "vmmap_read fr' mp vaddr b count = Some (0, buf)"
proof -
  define pn where "pn = ADDR_TO_PN vaddr - vma_start vma + vma_off vma"
  define off where "off = unat (PAGE_OFFSET vaddr)"
  define t where "t = sint count"
  have u: "uint count = int (unat count)" by simp
  have "0 < uint count" "uint count \<le> 4096" using n u by linarith+
  then have t: "0 < t" "t - 4096 \<le> 0" by (simp_all add: t_def sint32)
  obtain ob where ob: "vma_obj vma = Some ob" and w: "write_loop fr ob off t pn buf = Some fr'"
    using wr obj t(1) len unfolding vmmap_write_def off_def [symmetric] t_def [symmetric]
    by (auto simp: bind_Some_iff pn_def)
  from w obtain page page' where p: "fr ob pn = Some page" "copy_in page off buf = Some page'"
    and fr': "fr' = fr(ob := (fr ob)(pn := Some page'))"
    unfolding loop_steps(2) [OF t(1)] loop_steps(1) [OF t(2)] using n(2) len by (auto simp: bind_Some_iff)
  have "read_loop fr' ob off (unat count) t pn b = Some buf"
    unfolding loop_steps(4) [OF t(1)] loop_steps(3) [OF t(2)]
    using n(2) len copy_in_out(1) [OF p(2)] by (simp add: fr' min_def)
  then show ?thesis
    using obj t(1) ob unfolding vmmap_read_def off_def [symmetric] t_def [symmetric]
    by (simp add: pn_def)
qed

section \<open>Mapping a region\<close>

lemma lookup_after_insert:
  assumes wf: "vm_wf (vmm_list mp)" and wf': "vm_wf (vmm_list mp')"
    and set: "set (vmm_list mp') = insert new (set (vmm_list mp))"
  shows "vmmap_lookup mp' p = (if in_area p new then Some new else vmmap_lookup mp p)"
proof (cases "in_area p new")
  case True
  then show ?thesis using set by (simp add: vmmap_lookup_iff [OF wf'])
next
  case False
  show ?thesis
  proof (cases "vmmap_lookup mp p")
    case None
    then have "vmmap_lookup mp' p = None" using False set by (auto simp: vmmap_lookup_None covered_def)
    then show ?thesis using False None by simp
  next
    case (Some v)
    then have "v \<in> set (vmm_list mp')" "in_area p v" using set by (auto simp: vmmap_lookup_iff [OF wf])
    then show ?thesis using False Some by (simp add: vmmap_lookup_iff [OF wf'])
  qed
qed

text \<open>An area laid over a free range is apart from all others.\<close>

lemma range_free_apart:
  assumes "range_free vs s n" and "0 < n" and "vma_start new = s" and "vma_end new = s + n"
  shows "area_ok new" and "\<forall>v \<in> set vs. apart new v"
proof -
  have le: "uint s + uint n \<le> 786432" using assms(1) by (simp add: range_free_def)
  then have e: "uint (s + n) = uint s + uint n" by (simp add: uint_plus32)
  have "0 < uint n" using assms(2) by (simp add: word_less_def)
  then show "area_ok new"
    using assms le e by (simp add: area_ok_def range_free_def word_less_def word_le_def)
  show "\<forall>v \<in> set vs. apart new v"
    using assms e by (auto simp: apart_def range_free_def word_le_def)
qed

definition example_area :: vmarea where
  "example_area = \<lparr>vma_start = 0x500, vma_end = 0x510, vma_off = 0, vma_prot = 3, vma_flags = 2,
     vma_vmmap = True, vma_obj = Some 7\<rparr>"

definition example_map :: vmmap where
  "example_map = \<lparr>vmm_list = [example_area, example_area\<lparr>vma_start := 0x600, vma_end := 0x640, vma_obj := Some 8\<rparr>],
     vmm_proc = Some 1\<rparr>"

text \<open>
  C25. Inserting an area that is legal and apart from every other area succeeds and keeps
  the address space well formed.  Afterwards a page inside the new area is looked up to
  that area and every other page to the area it had before.
\<close>

theorem vmmap_insert_lookup:
  assumes "vm_wf (vmm_list mp)" and "area_ok new" and "\<not> vma_vmmap new" and "\<forall>v \<in> set (vmm_list mp). apart new v"
  shows "\<exists>mp'. vmmap_insert mp new = Some mp' \<and> vm_wf (vmm_list mp')
     \<and> (\<forall>p. vmmap_lookup mp' p = (if in_area p new then Some (new\<lparr>vma_vmmap := True\<rparr>) else vmmap_lookup mp p))"
proof -
  obtain mp' where run: "vmmap_insert mp new = Some mp'" and wf: "vm_wf (vmm_list mp')"
    and set: "set (vmm_list mp') = insert (new\<lparr>vma_vmmap := True\<rparr>) (set (vmm_list mp))"
    using vmmap_insert_ok [OF assms] by blast
  have "vmmap_lookup mp' p = (if in_area p new then Some (new\<lparr>vma_vmmap := True\<rparr>) else vmmap_lookup mp p)" for p
    using lookup_after_insert [OF assms(1) wf set, of p] by (simp add: in_area_def)
  with run wf show ?thesis by blast
qed

theorem vmmap_insert_lookup_witness:
  "\<exists>mp'. vmmap_insert example_map (example_area\<lparr>vma_start := 0x510, vma_end := 0x600, vma_vmmap := False\<rparr>) = Some mp'
     \<and> vm_wf (vmm_list mp') \<and> vma_start (the (vmmap_lookup mp' 0x5ff)) = 0x510"
proof -
  let ?new = "example_area\<lparr>vma_start := 0x510, vma_end := 0x600, vma_vmmap := False\<rparr>"
  obtain mp' where "vmmap_insert example_map ?new = Some mp'" "vm_wf (vmm_list mp')"
    and l: "\<forall>p. vmmap_lookup mp' p = (if in_area p ?new then Some (?new\<lparr>vma_vmmap := True\<rparr>) else vmmap_lookup example_map p)"
    using vmmap_insert_lookup [of example_map ?new]
    by (auto simp: example_map_def example_area_def area_ok_def apart_def)
  moreover have "vmmap_lookup mp' 0x5ff = Some (?new\<lparr>vma_vmmap := True\<rparr>)"
    using l by (simp add: in_area_def)
  ultimately show ?thesis by auto
qed

lemma map_area_fields [simp]:
  "vma_start (map_area v lo n prot flags off) = lo" "vma_end (map_area v lo n prot flags off) = lo + n"
  "vma_vmmap (map_area v lo n prot flags off) = vma_vmmap v"
  by (simp_all add: map_area_def)

lemma vmarea_alloc_unlinked: "vmarea_alloc a = Some v \<Longrightarrow> \<not> vma_vmmap v"
  by (auto simp: vmarea_alloc_def)

text \<open>
  C23. A successful mapping with no address given (\<^verbatim>\<open>lopage\<close> 0) puts the new area
  into a range of user memory no area used: the space stays well formed, exactly the pages
  of that range change, all of them to one area that carries the requested protection, and the
  address stored through \<^verbatim>\<open>new\<close> is that of the first page.
\<close>

theorem vmmap_map_anywhere:
  assumes wf: "vm_wf (vmm_list mp)" and n: "n \<le> 0x80000000"
    and run: "vmmap_map env mp file 0 n prot flags off dir = Some (mp', 0, new, es)"
    and errs: "\<And>f. file = Some f \<Longrightarrow> me_mmap env f \<noteq> Inl 0"
  shows "\<exists>s area. range_free (vmm_list mp) s n \<and> new = Some (PN_TO_ADDR s) \<and> vm_wf (vmm_list mp')
    \<and> vma_prot area = prot \<and> vma_off area = off
    \<and> (\<forall>p. vmmap_lookup mp' p = (if s \<le> p \<and> p < s + n then Some area else vmmap_lookup mp p))"
proof -
  obtain r where r: "vmmap_find_range mp n dir = Some r" and r0: "0 \<le> r" and n0: "0 < n"
    using run by (fastforce simp: vmmap_map_def bind_Some_iff split: if_splits)
  obtain s where rs: "r = uint s" and free: "range_free (vmm_list mp) s n"
    using vmmap_find_range_free [OF wf n r r0] by blast
  have lo: "word_of_int r = s" using rs by simp
  obtain v where v: "vmarea_alloc (me_area env) = Some v"
    using run r r0 by (auto simp: vmmap_map_def bind_Some_iff split: if_splits option.splits)
  define new0 where "new0 = map_area v s n prot flags off"
  obtain top where ins: "vmmap_insert mp (new0\<lparr>vma_obj := Some top\<rparr>) = Some mp'" and new: "new = Some (PN_TO_ADDR s)"
    using run r r0 v lo errs
    by (auto simp: vmmap_map_def Let_def new0_def bind_Some_iff split: if_splits option.splits sum.splits)
  let ?area = "new0\<lparr>vma_obj := Some top\<rparr>"
  have a: "area_ok ?area" "\<forall>w \<in> set (vmm_list mp). apart ?area w"
    using range_free_apart [OF free n0, of ?area] by (simp_all add: new0_def)
  have "\<not> vma_vmmap ?area" using vmarea_alloc_unlinked [OF v] by (simp add: new0_def)
  then have wf': "vm_wf (vmm_list mp')"
    and set: "set (vmm_list mp') = insert (?area\<lparr>vma_vmmap := True\<rparr>) (set (vmm_list mp))"
    using vmmap_insert_ok [OF wf a(1) _ a(2)] ins by auto
  show ?thesis
    using free new wf' lookup_after_insert [OF wf wf' set]
    by (intro exI [of _ s] exI [of _ "?area\<lparr>vma_vmmap := True\<rparr>"])
      (simp add: new0_def in_area_def, simp add: map_area_def)
qed

definition example_env :: map_env where
  "example_env = \<lparr>me_area = Some example_area, me_anon = Some 9, me_shadow = Some 10,
     me_mmap = (\<lambda>f. Inl (- 22)), me_alloc = True, me_junk = (\<lambda>_. 0)\<rparr>"

lemmas example_defs = example_env_def example_map_def example_area_def

theorem vmmap_map_anywhere_witness:
  "\<exists>mp' es. vmmap_map example_env example_map None 0 4 3 2 0 VMMAP_DIR_LOHI = Some (mp', 0, Some 0x400000, es)
     \<and> vm_wf (vmm_list mp')"
proof -
  obtain mp' es where run: "vmmap_map example_env example_map None 0 4 3 2 0 VMMAP_DIR_LOHI = Some (mp', 0, Some 0x400000, es)"
    by (simp add: vmmap_map_def example_defs PAGE_ALIGNED_def vmmap_find_range_def user_mem_pns vmarea_alloc_def
        map_shadow_def map_area_def vmmap_insert_def PN_TO_ADDR_def)
  have "vm_wf (vmm_list example_map)" by (simp add: example_defs area_ok_def)
  then show ?thesis using vmmap_map_anywhere [OF _ _ run] run by auto
qed

text \<open>
  C24. Unmapping a range leaves a well-formed address space in which every page outside the
  range keeps its mapping; a page of the range stays mapped exactly if its area is one of
  the two kinds the code forgets: areas ending exactly at the end of the range but starting
  before it, and areas starting in the range and reaching beyond it.
\<close>

theorem vmmap_remove_effect:
  assumes wf: "vm_wf (vmm_list mp)" and range: "lo < lo + n"
    and run: "vmmap_remove True junk mp lo n = Some (mp', r, es)"
  shows "vm_wf (vmm_list mp')
    \<and> (\<forall>q. vmmap_lookup mp' q \<noteq> None \<longleftrightarrow>
        (case vmmap_lookup mp q of None \<Rightarrow> False
         | Some v \<Rightarrow> \<not> (lo \<le> q \<and> q < lo + n) \<or> forgotten lo (lo + n) v))"
proof -
  obtain vs p where rm: "remove_areas True junk lo n False (vmm_list mp) = Some (vs, p, es)" and mp': "vmm_list mp' = vs"
    using run by (auto simp: vmmap_remove_def bind_Some_iff)
  note ok = remove_areas_ok [OF wf range refl rm]
  have eq: "vmmap_lookup mp' q \<noteq> None \<longleftrightarrow>
      (case vmmap_lookup mp q of None \<Rightarrow> False | Some v \<Rightarrow> \<not> (lo \<le> q \<and> q < lo + n) \<or> forgotten lo (lo + n) v)" for q
  proof -
    have 1: "vmmap_lookup mp' q \<noteq> None \<longleftrightarrow>
        (\<exists>v \<in> set (vmm_list mp). in_area q v \<and> (\<not> (lo \<le> q \<and> q < lo + n) \<or> forgotten lo (lo + n) v))"
      using spec [OF conjunct2 [OF conjunct2 [OF ok]], of q] by (simp only: vmmap_lookup_None mp' not_not)
    show ?thesis
    proof (cases "vmmap_lookup mp q")
      case None
      then have "\<not> in_area q v" if "v \<in> set (vmm_list mp)" for v using that by (auto simp: vmmap_lookup_None covered_def)
      then show ?thesis unfolding 1 None option.case by blast
    next
      case (Some v)
      then have v: "v \<in> set (vmm_list mp)" "in_area q v" by (simp_all add: vmmap_lookup_iff [OF wf])
      have "w = v" if "w \<in> set (vmm_list mp)" "in_area q w" for w
        using vm_wf_unique [OF wf that(1) v(1) that(2) v(2)] .
      then show ?thesis unfolding 1 Some option.case using v by blast
    qed
  qed
  show ?thesis using conjunct1 [OF ok] by (intro conjI allI eq) (simp only: mp')
qed

theorem vmmap_remove_effect_witness:
  "\<exists>mp' r es. vmmap_remove True (\<lambda>_. 0) example_map 0x508 0x100 = Some (mp', r, es)
     \<and> vmmap_lookup mp' 0x508 = None \<and> vmmap_lookup mp' 0x607 \<noteq> None"
proof -
  obtain mp' r es where run: "vmmap_remove True (\<lambda>_. 0) example_map 0x508 0x100 = Some (mp', r, es)"
    by (simp add: vmmap_remove_def example_defs remove_area_def)
  have "vm_wf (vmm_list example_map)" by (simp add: example_defs area_ok_def)
  note e = vmmap_remove_effect [OF this _ run]
  have l: "vmmap_lookup example_map 0x508 = Some example_area"
    "vmmap_lookup example_map 0x607 = Some (example_area\<lparr>vma_start := 0x600, vma_end := 0x640, vma_obj := Some 8\<rparr>)"
    by (simp_all add: vmmap_lookup_def example_defs)
  have "vmmap_lookup mp' 0x508 = None"
    using spec [OF conjunct2 [OF e], of "0x508"] unfolding l by (simp add: forgotten_def example_area_def)
  moreover have "vmmap_lookup mp' 0x607 \<noteq> None"
    using spec [OF conjunct2 [OF e], of "0x607"] unfolding l by (simp add: forgotten_def example_area_def)
  ultimately show ?thesis using run by blast
qed

text \<open>
  C26. What a successful write of at most one page stores is what a later read of the same
  address and length returns.
\<close>

theorem vmmap_write_read:
  assumes "vmmap_write fr mp vaddr buf count = Some (fr', 0)" and "0 < unat count" "unat count \<le> 4096"
    and "length buf = unat count"
  shows "vmmap_read fr' mp vaddr b count = Some (0, buf)"
proof -
  obtain vma where "vmmap_lookup mp (ADDR_TO_PN vaddr) = Some vma"
    using assms(1) by (auto simp: vmmap_write_def split: option.splits)
  from write_read_page [OF assms this] show ?thesis .
qed

theorem vmmap_write_read_witness:
  "\<exists>fr'. vmmap_write (\<lambda>_ _. Some (replicate 8 0)) example_map 0x500002 [1, 2, 3] 3 = Some (fr', 0)
     \<and> vmmap_read fr' example_map 0x500002 [] 3 = Some (0, [1, 2, 3])"
proof -
  obtain fr' where run: "vmmap_write (\<lambda>_ _. Some (replicate 8 0)) example_map 0x500002 [1, 2, 3] 3 = Some (fr', 0)"
    by (simp add: vmmap_write_def example_defs vmmap_lookup_def ADDR_TO_PN_def PAGE_OFFSET_def loop_steps copy_in_def
        sint32)
  show ?thesis using vmmap_write_read [OF run] run by simp
qed

text \<open>An area strictly inside a range does not make it non-empty for the code.\<close>

lemma is_range_empty_misses:
  assumes "\<forall>v \<in> set (vmm_list mp). startvfn < vma_start v \<and> vma_start v < vma_end v \<and> vma_end v \<le> startvfn + n"
    and "startvfn < startvfn + n" "LOW_PN \<le> startvfn" "startvfn + n \<le> HIGH_PN"
  shows "vmmap_is_range_empty mp startvfn n = Some True"
proof -
  have "\<not> (vma_start v < startvfn \<and> startvfn < vma_end v) \<and> \<not> (vma_start v < startvfn + n \<and> startvfn + n < vma_end v)
      \<and> vma_start v \<noteq> startvfn" if "v \<in> set (vmm_list mp)" for v
    using assms(1) that by (metis leD less_irrefl less_trans)
  then show ?thesis using assms(2-4) by (auto simp: vmmap_is_range_empty_def user_mem_pns list_all_iff)
qed

end
