(* ===== verification/Devices.thy ===== *)
theory Devices
imports KPrelude
begin

text \<open>
  Device identifiers (\<^verbatim>\<open>include/drivers/dev.h\<close>) and the two device tables
  (\<^verbatim>\<open>drivers/bytedev.c\<close>, \<^verbatim>\<open>drivers/blockdev.c\<close>).  A table is the list of
  registered devices; a registration is given the device, or \<^const>\<open>None\<close> for NULL.
  What a table promises its clients is the locale \<^verbatim>\<open>dev_table\<close>, interpreted for both.
\<close>

unbundle bit_operations_syntax

section \<open>Device identifiers\<close>

type_synonym devid = "32 word"

abbreviation (input) MINOR_BITS :: nat where "MINOR_BITS \<equiv> 8"

definition MINOR_MASK :: "32 word" where
  "MINOR_MASK = push_bit MINOR_BITS 1 - 1"

definition MAJOR :: "devid \<Rightarrow> 32 word" where
  "MAJOR d = drop_bit MINOR_BITS d"

definition MINOR :: "devid \<Rightarrow> 32 word" where
  "MINOR d = d AND MINOR_MASK"

definition MKDEVID :: "32 word \<Rightarrow> 32 word \<Rightarrow> devid" where
  "MKDEVID major minor = push_bit MINOR_BITS major OR minor"

definition NULL_DEVID :: devid where "NULL_DEVID = MKDEVID 0 0"
definition MEM_NULL_DEVID :: devid where "MEM_NULL_DEVID = MKDEVID 1 0"
definition MEM_ZERO_DEVID :: devid where "MEM_ZERO_DEVID = MKDEVID 1 1"

lemma MINOR_MASK_mask: "MINOR_MASK = mask 8"
  by (simp add: MINOR_MASK_def mask_eq_exp_minus_1)

lemma MINOR_take_bit: "MINOR d = take_bit 8 d"
  by (simp add: MINOR_def MINOR_MASK_mask take_bit_eq_mask)

lemma devid_join: "MKDEVID (MAJOR d) (MINOR d) = d"
  by (rule bit_word_eqI) (auto simp: MKDEVID_def MAJOR_def MINOR_take_bit bit_simps)

lemma devid_split:
  assumes "take_bit 8 minor = minor" and "take_bit 24 major = major"
  shows "MAJOR (MKDEVID major minor) = major \<and> MINOR (MKDEVID major minor) = minor"
proof
  show "MAJOR (MKDEVID major minor) = major"
  proof (rule bit_word_eqI)
    fix n :: nat assume "n < LENGTH(32)"
    have "\<not> bit minor (8 + n)" using assms(1) by (metis bit_take_bit_iff not_add_less1)
    moreover have "bit major n \<longrightarrow> n < 24" using assms(2) by (metis bit_take_bit_iff)
    ultimately show "bit (MAJOR (MKDEVID major minor)) n = bit major n"
      by (auto simp: MAJOR_def MKDEVID_def bit_simps)
  qed
  show "MINOR (MKDEVID major minor) = minor"
  proof (rule bit_word_eqI)
    fix n :: nat assume "n < LENGTH(32)"
    have "bit minor n \<longrightarrow> n < 8" using assms(1) by (metis bit_take_bit_iff)
    then show "bit (MINOR (MKDEVID major minor)) n = bit minor n"
      by (auto simp: MINOR_take_bit MKDEVID_def bit_simps)
  qed
qed

section \<open>The tables\<close>

record bytedev =
  cd_id :: devid
  cd_ops :: "nat option"

record blockdev =
  bd_id :: devid
  bd_ops :: "nat option"

definition bytedev_register :: "bytedev list \<Rightarrow> bytedev option \<Rightarrow> bytedev list \<times> int" where
  "bytedev_register bytedevs dev =
     (case dev of
        None \<Rightarrow> (bytedevs, - 1)
      | Some d \<Rightarrow>
          if NULL_DEVID = cd_id d \<or> cd_ops d = None then (bytedevs, - 1)
          else if list_ex (\<lambda>cd. cd_id d = cd_id cd) bytedevs then (bytedevs, - 1)
          else (bytedevs @ [d], 0))"

fun bytedev_lookup :: "bytedev list \<Rightarrow> devid \<Rightarrow> bytedev option option" where
  "bytedev_lookup [] i = Some None"
| "bytedev_lookup (cd # cds) i = do {
     KASSERT (NULL_DEVID \<noteq> cd_id cd);
     if i = cd_id cd then Some (Some cd) else bytedev_lookup cds i
   }"

definition blockdev_register :: "blockdev list \<Rightarrow> blockdev option \<Rightarrow> blockdev list \<times> int" where
  "blockdev_register blockdevs dev =
     (case dev of
        None \<Rightarrow> (blockdevs, - 1)
      | Some d \<Rightarrow>
          if NULL_DEVID = bd_id d \<or> bd_ops d = None then (blockdevs, - 1)
          else if list_ex (\<lambda>bd. bd_id d = bd_id bd) blockdevs then (blockdevs, - 1)
          else (blockdevs @ [d], 0))"

fun blockdev_lookup :: "blockdev list \<Rightarrow> devid \<Rightarrow> blockdev option" where
  "blockdev_lookup [] i = None"
| "blockdev_lookup (bd # bds) i = (if i = bd_id bd then Some bd else blockdev_lookup bds i)"

section \<open>What a table promises\<close>

definition table_ok :: "('d \<Rightarrow> devid) \<Rightarrow> 'd list \<Rightarrow> bool" where
  "table_ok ident ds \<longleftrightarrow> distinct (map ident ds) \<and> NULL_DEVID \<notin> ident ` set ds"

locale dev_table =
  fixes ident :: "'d \<Rightarrow> devid"
    and register :: "'d list \<Rightarrow> 'd option \<Rightarrow> 'd list \<times> int"
    and look :: "'d list \<Rightarrow> devid \<Rightarrow> 'd option option"
  assumes look_iff: "table_ok ident ds \<Longrightarrow> look ds i = Some (find (\<lambda>d. ident d = i) ds)"
    and register_ok: "register ds dev = (ds', 0) \<Longrightarrow>
      \<exists>d. dev = Some d \<and> ident d \<noteq> NULL_DEVID \<and> ident d \<notin> ident ` set ds \<and> ds' = ds @ [d]"
    and register_fail: "register ds dev = (ds', e) \<Longrightarrow> e \<noteq> 0 \<Longrightarrow> ds' = ds \<and> e = - 1"
begin

lemma register_keeps:
  assumes "table_ok ident ds" and "register ds dev = (ds', e)"
  shows "table_ok ident ds'"
proof (cases "e = 0")
  case True
  then show ?thesis using assms register_ok [of ds dev ds'] by (auto simp: table_ok_def)
next
  case False
  then show ?thesis using assms register_fail [of ds dev ds' e] by simp
qed

lemma look_after_register:
  assumes ok: "table_ok ident ds" and reg: "register ds dev = (ds', 0)"
  shows "\<exists>d. dev = Some d \<and> (\<forall>i. look ds' i = (if i = ident d then Some (Some d) else look ds i))"
proof -
  obtain d where d: "dev = Some d" "ident d \<noteq> NULL_DEVID" "ident d \<notin> ident ` set ds" "ds' = ds @ [d]"
    using register_ok [OF reg] by blast
  have none: "find (\<lambda>x. ident x = ident d) ds = None" using d(3) by (metis (mono_tags, lifting) find_None_iff image_eqI)
  have "find (\<lambda>x. ident x = i) (xs @ [d]) = (case find (\<lambda>x. ident x = i) xs of
      None \<Rightarrow> if ident d = i then Some d else None | Some y \<Rightarrow> Some y)" for xs i
    by (induction xs) auto
  then have "look ds' i = (if i = ident d then Some (Some d) else look ds i)" for i
    using look_iff [OF register_keeps [OF ok reg]] look_iff [OF ok] none d(4) by (auto split: option.splits)
  with d(1) show ?thesis by blast
qed

end

lemma bytedev_lookup_find:
  "table_ok cd_id ds \<Longrightarrow> bytedev_lookup ds i = Some (find (\<lambda>d. cd_id d = i) ds)"
  by (induction ds) (auto simp: table_ok_def)

lemma blockdev_lookup_find: "blockdev_lookup ds i = find (\<lambda>d. bd_id d = i) ds"
  by (induction ds) auto

interpretation bytedevs: dev_table cd_id bytedev_register bytedev_lookup
  by unfold_locales
    (auto simp: bytedev_lookup_find bytedev_register_def list_ex_iff split: option.splits if_splits)

interpretation blockdevs: dev_table bd_id blockdev_register "\<lambda>ds i. Some (blockdev_lookup ds i)"
  by unfold_locales
    (auto simp: blockdev_lookup_find blockdev_register_def list_ex_iff split: option.splits if_splits)

text \<open>
  C27. A byte device that registers successfully is found under its identifier, every other
  identifier is looked up as before, and the table keeps distinct identifiers none of which
  is the null identifier, so that a lookup never fails its assertion.
\<close>

theorem bytedev_register_lookup:
  assumes "table_ok cd_id ds" and "bytedev_register ds dev = (ds', 0)"
  shows "table_ok cd_id ds' \<and> (\<exists>d. dev = Some d
    \<and> (\<forall>i. bytedev_lookup ds' i = (if i = cd_id d then Some (Some d) else bytedev_lookup ds i)))"
  using bytedevs.register_keeps [OF assms] bytedevs.look_after_register [OF assms] by blast

theorem bytedev_register_lookup_witness:
  "bytedev_lookup [\<lparr>cd_id = MEM_NULL_DEVID, cd_ops = Some 1\<rparr>, \<lparr>cd_id = MEM_ZERO_DEVID, cd_ops = Some 2\<rparr>] 0x101
     = Some (Some \<lparr>cd_id = MEM_ZERO_DEVID, cd_ops = Some 2\<rparr>)"
  using bytedev_register_lookup [of "[\<lparr>cd_id = MEM_NULL_DEVID, cd_ops = Some 1\<rparr>]" "Some \<lparr>cd_id = MEM_ZERO_DEVID, cd_ops = Some 2\<rparr>"]
  by (simp add: table_ok_def bytedev_register_def MEM_NULL_DEVID_def MEM_ZERO_DEVID_def NULL_DEVID_def MKDEVID_def)

end
