(* ===== verification/Vnode.thy ===== *)
theory Vnode
imports Devices
begin

text \<open>
  Vnodes and the inodes of the memory file system: the core of \<^verbatim>\<open>fs/vnode.c\<close> and
  the \<^verbatim>\<open>fs_ops\<close> half of \<^verbatim>\<open>fs/ramfs/ramfs.c\<close>, which call each other.  There is
  one file system (mounting is compiled out), so the vnode with number \<^verbatim>\<open>n\<close> is named
  by \<^verbatim>\<open>n\<close> itself and \<^verbatim>\<open>vn_i\<close> is the inode in slot \<^verbatim>\<open>n\<close>.  A pointer to
  a vnode or inode that has been freed is dereferenced with the value \<^const>\<open>None\<close>.
\<close>

section \<open>File types\<close>

abbreviation (input) S_IFCHR :: "32 word" where "S_IFCHR \<equiv> 0x100"
abbreviation (input) S_IFDIR :: "32 word" where "S_IFDIR \<equiv> 0x200"
abbreviation (input) S_IFBLK :: "32 word" where "S_IFBLK \<equiv> 0x400"
abbreviation (input) S_IFREG :: "32 word" where "S_IFREG \<equiv> 0x800"

definition S_TYPE :: "32 word \<Rightarrow> 32 word" where "S_TYPE m = m AND 0xFF00"
definition S_ISCHR :: "32 word \<Rightarrow> bool" where "S_ISCHR m \<longleftrightarrow> S_TYPE m = S_IFCHR"
definition S_ISDIR :: "32 word \<Rightarrow> bool" where "S_ISDIR m \<longleftrightarrow> S_TYPE m = S_IFDIR"
definition S_ISBLK :: "32 word \<Rightarrow> bool" where "S_ISBLK m \<longleftrightarrow> S_TYPE m = S_IFBLK"
definition S_ISREG :: "32 word \<Rightarrow> bool" where "S_ISREG m \<longleftrightarrow> S_TYPE m = S_IFREG"

lemma S_IS_simps [simp]:
  "S_ISCHR S_IFCHR" "\<not> S_ISCHR S_IFDIR" "\<not> S_ISCHR S_IFBLK" "\<not> S_ISCHR S_IFREG"
  "S_ISDIR S_IFDIR" "\<not> S_ISDIR S_IFCHR" "\<not> S_ISDIR S_IFBLK" "\<not> S_ISDIR S_IFREG"
  "S_ISBLK S_IFBLK" "\<not> S_ISBLK S_IFCHR" "\<not> S_ISBLK S_IFDIR" "\<not> S_ISBLK S_IFREG"
  "S_ISREG S_IFREG" "\<not> S_ISREG S_IFCHR" "\<not> S_ISREG S_IFDIR" "\<not> S_ISREG S_IFBLK"
  by (simp_all add: S_ISCHR_def S_ISDIR_def S_ISBLK_def S_ISREG_def S_TYPE_def)

section \<open>Inodes and vnodes\<close>

datatype rf_type = RAMFS_TYPE_DATA | RAMFS_TYPE_DIR | RAMFS_TYPE_CHR | RAMFS_TYPE_BLK

record ramfs_dirent =
  rd_ino :: int
  rd_name :: string

text \<open>
  \<^verbatim>\<open>rf_mem\<close> is one page, read as bytes or as an array of directory entries, or a
  device identifier cast to a pointer.
\<close>

datatype rf_mem = Bytes "byte list" | Dirents "ramfs_dirent list" | Devid devid

abbreviation (input) RAMFS_MAX_FILES :: nat where "RAMFS_MAX_FILES \<equiv> 64"
abbreviation (input) RAMFS_MAX_DIRENT :: nat where "RAMFS_MAX_DIRENT \<equiv> 128"
abbreviation (input) SIZEOF_DIRENT :: int where "SIZEOF_DIRENT \<equiv> 32"

record ramfs_inode =
  rf_size :: int
  rf_ino :: nat
  rf_mem :: rf_mem
  rf_mode :: rf_type
  rf_linkcount :: int

datatype vop = Op_read | Op_write | Op_mmap | Op_create | Op_mknod | Op_lookup | Op_link | Op_unlink
  | Op_mkdir | Op_rmdir | Op_readdir | Op_stat | Op_fillpage | Op_dirtypage | Op_cleanpage

datatype vops = Ramfs_dir | Ramfs_file | Bytedev_spec | Blockdev_spec

text \<open>The entries of the four operation tables that are not NULL.\<close>

definition ramfs_dir_vops :: "vop list" where
  "ramfs_dir_vops = [Op_create, Op_mknod, Op_lookup, Op_link, Op_unlink, Op_mkdir, Op_rmdir, Op_readdir, Op_stat]"

definition ramfs_file_vops :: "vop list" where
  "ramfs_file_vops = [Op_read, Op_write, Op_stat]"

definition bytedev_spec_vops :: "vop list" where
  "bytedev_spec_vops = [Op_read, Op_write, Op_mmap, Op_stat, Op_fillpage, Op_dirtypage, Op_cleanpage]"

definition blockdev_spec_vops :: "vop list" where
  "blockdev_spec_vops = [Op_stat]"

fun vop_table :: "vops \<Rightarrow> vop list" where
  "vop_table Ramfs_dir = ramfs_dir_vops"
| "vop_table Ramfs_file = ramfs_file_vops"
| "vop_table Bytedev_spec = bytedev_spec_vops"
| "vop_table Blockdev_spec = blockdev_spec_vops"

record vnode =
  vn_ops :: "vops option"
  vn_vno :: nat
  vn_mode :: "32 word"
  vn_len :: int
  vn_refcount :: int
  vn_nrespages :: int
  vn_devid :: devid
  vn_cdev :: "bytedev option"
  vn_bdev :: "blockdev option"
  vn_busy :: bool

text \<open>
  The state of the file system.  \<^verbatim>\<open>allocs\<close> holds the outcomes of the coming memory
  allocations; when it is used up, allocations succeed.
\<close>

record fsys =
  rfs_inodes :: "nat \<Rightarrow> ramfs_inode option"
  vnodes :: "nat \<Rightarrow> vnode option"
  vnode_inuse_list :: "nat list"
  fs_root :: nat
  bytedevs :: "bytedev list"
  blockdevs :: "blockdev list"
  allocs :: "bool list"

definition kalloc :: "'a fsys_scheme \<Rightarrow> bool \<times> 'a fsys_scheme" where
  "kalloc s = (case allocs s of [] \<Rightarrow> (True, s) | ok # rest \<Rightarrow> (ok, s\<lparr>allocs := rest\<rparr>))"

definition put_inode :: "nat \<Rightarrow> ramfs_inode option \<Rightarrow> 'a fsys_scheme \<Rightarrow> 'a fsys_scheme" where
  "put_inode i x s = s\<lparr>rfs_inodes := (rfs_inodes s)(i := x)\<rparr>"

definition put_vnode :: "nat \<Rightarrow> vnode option \<Rightarrow> 'a fsys_scheme \<Rightarrow> 'a fsys_scheme" where
  "put_vnode v x s = s\<lparr>vnodes := (vnodes s)(v := x)\<rparr>"

text \<open>Whether the vnode's table has the operation; the tables of special files are set late.\<close>

definition has_op :: "'a fsys_scheme \<Rightarrow> nat \<Rightarrow> vop \<Rightarrow> bool option" where
  "has_op s v oper = do { vn \<leftarrow> vnodes s v; ops \<leftarrow> vn_ops vn; Some (oper \<in> set (vop_table ops)) }"

section \<open>The file system operations of ramfs\<close>

definition empty_dirent :: ramfs_dirent where
  "empty_dirent = \<lparr>rd_ino = 0, rd_name = ''''\<rparr>"

definition new_inode :: "nat \<Rightarrow> rf_type \<Rightarrow> devid \<Rightarrow> ramfs_inode" where
  "new_inode i type devid = \<lparr>rf_size = 0, rf_ino = i,
     rf_mem = (case type of
        RAMFS_TYPE_DATA \<Rightarrow> Bytes (replicate 4096 0)
      | RAMFS_TYPE_DIR \<Rightarrow> Dirents (replicate RAMFS_MAX_DIRENT empty_dirent)
      | _ \<Rightarrow> Devid devid),
     rf_mode = type, rf_linkcount = 1\<rparr>"

definition ramfs_alloc_inode :: "rf_type \<Rightarrow> devid \<Rightarrow> 'a fsys_scheme \<Rightarrow> int \<times> 'a fsys_scheme" where
  "ramfs_alloc_inode type devid s =
     (case find (\<lambda>i. rfs_inodes s i = None) [0..<RAMFS_MAX_FILES] of
        None \<Rightarrow> (- ENOSPC, s)
      | Some i \<Rightarrow>
          let (ok, s) = kalloc s in
          if \<not> ok then (- ENOSPC, s)
          else if type = RAMFS_TYPE_CHR \<or> type = RAMFS_TYPE_BLK
          then (int i, put_inode i (Some (new_inode i type devid)) s)
          else
            let (ok, s) = kalloc s in
            if \<not> ok then (- ENOSPC, s) else (int i, put_inode i (Some (new_inode i type devid)) s))"

definition ramfs_read_vnode :: "nat \<Rightarrow> vnode \<Rightarrow> 'a fsys_scheme \<Rightarrow> (vnode \<times> 'a fsys_scheme) option" where
  "ramfs_read_vnode v vn s = do {
     inode \<leftarrow> rfs_inodes s v;
     KASSERT (rf_ino inode = vn_vno vn);
     let inode = inode\<lparr>rf_linkcount := rf_linkcount inode + 1\<rparr>;
     let s = put_inode v (Some inode) s;
     let vn = vn\<lparr>vn_len := rf_size inode\<rparr>;
     case rf_mode inode of
       RAMFS_TYPE_DATA \<Rightarrow> Some (vn\<lparr>vn_mode := S_IFREG, vn_ops := Some Ramfs_file\<rparr>, s)
     | RAMFS_TYPE_DIR \<Rightarrow> Some (vn\<lparr>vn_mode := S_IFDIR, vn_ops := Some Ramfs_dir\<rparr>, s)
     | RAMFS_TYPE_CHR \<Rightarrow> (case rf_mem inode of
           Devid d \<Rightarrow> Some (vn\<lparr>vn_mode := S_IFCHR, vn_ops := None, vn_devid := d\<rparr>, s) | _ \<Rightarrow> None)
     | RAMFS_TYPE_BLK \<Rightarrow> (case rf_mem inode of
           Devid d \<Rightarrow> Some (vn\<lparr>vn_mode := S_IFBLK, vn_ops := None, vn_devid := d\<rparr>, s) | _ \<Rightarrow> None)
   }"

definition ramfs_delete_vnode :: "nat \<Rightarrow> 'a fsys_scheme \<Rightarrow> 'a fsys_scheme option" where
  "ramfs_delete_vnode v s = do {
     inode \<leftarrow> rfs_inodes s v;
     let inode = inode\<lparr>rf_linkcount := rf_linkcount inode - 1\<rparr>;
     Some (if rf_linkcount inode = 0 then put_inode v None s else put_inode v (Some inode) s)
   }"

definition ramfs_query_vnode :: "nat \<Rightarrow> 'a fsys_scheme \<Rightarrow> bool option" where
  "ramfs_query_vnode v s = do { inode \<leftarrow> rfs_inodes s v; Some (rf_linkcount inode > 1) }"

section \<open>References to vnodes\<close>

definition vref :: "nat \<Rightarrow> 'a fsys_scheme \<Rightarrow> 'a fsys_scheme option" where
  "vref v s = do {
     vn \<leftarrow> vnodes s v;
     KASSERT (0 < vn_refcount vn);
     Some (put_vnode v (Some (vn\<lparr>vn_refcount := vn_refcount vn + 1\<rparr>)) s)
   }"

definition init_special_vnode :: "'a fsys_scheme \<Rightarrow> vnode \<Rightarrow> vnode option" where
  "init_special_vnode s vn =
     (if S_ISCHR (vn_mode vn) then do {
        cd \<leftarrow> bytedev_lookup (bytedevs s) (vn_devid vn);
        Some (vn\<lparr>vn_ops := Some Bytedev_spec, vn_cdev := cd\<rparr>)
      } else do {
        KASSERT (S_ISBLK (vn_mode vn));
        Some (vn\<lparr>vn_ops := Some Blockdev_spec, vn_bdev := blockdev_lookup (blockdevs s) (vn_devid vn)\<rparr>)
      })"

text \<open>
  \<^verbatim>\<open>vget\<close>.  A busy vnode would put the caller to sleep, which is outside this
  model (\<^const>\<open>None\<close>); no operation of ramfs leaves one behind.  A failed allocation
  is retried, so that the failing outcomes are used up.
\<close>

definition blank_vnode :: "nat \<Rightarrow> vnode" where
  "blank_vnode v = \<lparr>vn_ops = None, vn_vno = v, vn_mode = 0, vn_len = 0, vn_refcount = 0, vn_nrespages = 0,
     vn_devid = 0, vn_cdev = None, vn_bdev = None, vn_busy = False\<rparr>"

definition vget :: "nat \<Rightarrow> 'a fsys_scheme \<Rightarrow> 'a fsys_scheme option" where
  "vget v s =
     (case vnodes s v of
        Some vn \<Rightarrow> if vn_busy vn then None else vref v s
      | None \<Rightarrow> do {
          let s = s\<lparr>allocs := drop 1 (dropWhile Not (allocs s))\<rparr>;
          let vn = (blank_vnode v)\<lparr>vn_busy := True\<rparr>;
          let s = s\<lparr>vnode_inuse_list := v # vnode_inuse_list s\<rparr>;
          (vn, s) \<leftarrow> ramfs_read_vnode v vn s;
          let vn = vn\<lparr>vn_busy := False\<rparr>;
          vn \<leftarrow> (if S_ISCHR (vn_mode vn) \<or> S_ISBLK (vn_mode vn) then init_special_vnode s vn else Some vn);
          Some (put_vnode v (Some (vn\<lparr>vn_refcount := 1\<rparr>)) s)
        })"

text \<open>Freeing the resident pages of a vnode drops the reference each of them holds.\<close>

definition free_respages :: "vnode \<Rightarrow> vnode" where
  "free_respages vn = vn\<lparr>vn_refcount := vn_refcount vn - vn_nrespages vn, vn_nrespages := 0\<rparr>"

definition vput :: "nat \<Rightarrow> 'a fsys_scheme \<Rightarrow> 'a fsys_scheme option" where
  "vput v s = do {
     vn \<leftarrow> vnodes s v;
     KASSERT (0 \<le> vn_nrespages vn);
     KASSERT (vn_nrespages vn < vn_refcount vn);
     KASSERT (\<not> vn_busy vn);
     vn \<leftarrow> (if vn_nrespages vn = vn_refcount vn - 1 then do {
              linked \<leftarrow> ramfs_query_vnode v s;
              Some (if linked then vn else free_respages vn)
            } else Some vn);
     let vn = vn\<lparr>vn_refcount := vn_refcount vn - 1\<rparr>;
     if 0 < vn_refcount vn then Some (put_vnode v (Some vn) s)
     else do {
       KASSERT (vn_refcount vn = 0);
       KASSERT (vn_nrespages vn = 0);
       s \<leftarrow> ramfs_delete_vnode v s;
       Some (put_vnode v None (s\<lparr>vnode_inuse_list := removeAll v (vnode_inuse_list s)\<rparr>))
     }
   }"

text \<open>\<^verbatim>\<open>vfs_is_in_use\<close> and \<^verbatim>\<open>vnode_inuse\<close> look at the vnodes in use.\<close>

definition vnode_refs :: "'a fsys_scheme \<Rightarrow> nat \<Rightarrow> int option" where
  "vnode_refs s v = do {
     vn \<leftarrow> vnodes s v;
     KASSERT (vn_refcount vn \<ge> vn_nrespages vn);
     KASSERT (vn_nrespages vn \<ge> 0);
     let refs = vn_refcount vn - vn_nrespages vn;
     KASSERT ((fs_root s = v \<and> 1 \<le> refs) \<or> (fs_root s \<noteq> v \<and> 0 \<le> refs));
     Some refs
   }"

definition vfs_is_in_use :: "'a fsys_scheme \<Rightarrow> int option" where
  "vfs_is_in_use s = foldM (\<lambda>v ret. do {
       refs \<leftarrow> vnode_refs s v;
       Some (if (fs_root s = v \<and> 1 < refs) \<or> (fs_root s \<noteq> v \<and> refs \<noteq> 0) then - EBUSY else ret)
     }) (vnode_inuse_list s) 0"

definition vnode_inuse :: "'a fsys_scheme \<Rightarrow> int" where
  "vnode_inuse s = int (length (vnode_inuse_list s))"

end
