(* ===== verification/Ramfs.thy ===== *)
theory Ramfs
imports Vnode
begin

text \<open>
  The memory file system, \<^verbatim>\<open>fs/ramfs/ramfs.c\<close>: mounting, and the operations on
  directories and files.  A name is passed as the C code passes it, as a pointer into the
  path (the rest of the path) with a length.  A directory is the array of its 128 entries;
  the name of an entry is the C string in its array, so that an unused entry has the empty
  name.  Results are paired with the new state; \<^const>\<open>None\<close> is a failed assertion.
\<close>

abbreviation (input) NAME_LEN :: nat where "NAME_LEN \<equiv> 28"

definition name_match :: "string \<Rightarrow> string \<Rightarrow> nat \<Rightarrow> bool" where
  "name_match fname name namelen \<longleftrightarrow> length fname = namelen \<and> take namelen fname = take namelen name"

section \<open>Directories\<close>

text \<open>The entries of a directory (\<^verbatim>\<open>VNODE_TO_DIRENT\<close>), and changing the inode of a vnode.\<close>

definition dirents_of :: "'a fsys_scheme \<Rightarrow> nat \<Rightarrow> ramfs_dirent list option" where
  "dirents_of s d = do {
     inode \<leftarrow> rfs_inodes s d;
     case rf_mem inode of Dirents es \<Rightarrow> Some es | _ \<Rightarrow> None
   }"

definition mod_inode :: "nat \<Rightarrow> (ramfs_inode \<Rightarrow> ramfs_inode) \<Rightarrow> 'a fsys_scheme \<Rightarrow> 'a fsys_scheme option" where
  "mod_inode i f s = do { inode \<leftarrow> rfs_inodes s i; Some (put_inode i (Some (f inode)) s) }"

text \<open>The loop over the entries of a directory, up to the first that satisfies a test.\<close>

fun scan_entries :: "(ramfs_dirent \<Rightarrow> bool) \<Rightarrow> ramfs_dirent list \<Rightarrow> nat option" where
  "scan_entries p [] = None"
| "scan_entries p (e # es) = (if p e then Some 0 else map_option Suc (scan_entries p es))"

definition free_entry :: "ramfs_dirent list \<Rightarrow> nat option" where
  "free_entry es = scan_entries (\<lambda>e. rd_name e = '''') es"

definition set_entry :: "nat \<Rightarrow> nat \<Rightarrow> int \<Rightarrow> string \<Rightarrow> nat \<Rightarrow> 'a fsys_scheme \<Rightarrow> 'a fsys_scheme option" where
  "set_entry d i ino name name_len s = do {
     es \<leftarrow> dirents_of s d;
     mod_inode d (\<lambda>x. x\<lparr>rf_mem := Dirents (es[i := \<lparr>rd_ino = ino, rd_name = take (min name_len (NAME_LEN - 1)) name\<rparr>]),
                        rf_size := rf_size x + SIZEOF_DIRENT\<rparr>) s
   }"

definition clear_entry :: "nat \<Rightarrow> string \<Rightarrow> nat \<Rightarrow> 'a fsys_scheme \<Rightarrow> 'a fsys_scheme option" where
  "clear_entry d name namelen s = do {
     es \<leftarrow> dirents_of s d;
     let es' = (case scan_entries (\<lambda>e. name_match (rd_name e) name namelen) es of
                  None \<Rightarrow> es | Some i \<Rightarrow> es[i := (es ! i)\<lparr>rd_name := ''''\<rparr>]);
     mod_inode d (\<lambda>x. x\<lparr>rf_mem := Dirents es', rf_size := rf_size x - SIZEOF_DIRENT\<rparr>) s
   }"

definition ramfs_lookup :: "nat \<Rightarrow> string \<Rightarrow> nat \<Rightarrow> 'a fsys_scheme \<Rightarrow> (int \<times> nat option \<times> 'a fsys_scheme) option" where
  "ramfs_lookup d name namelen s = do {
     es \<leftarrow> dirents_of s d;
     case scan_entries (\<lambda>e. name_match (rd_name e) name namelen) es of
       None \<Rightarrow> Some (- ENOENT, None, s)
     | Some i \<Rightarrow> do {
         let ino = nat (rd_ino (es ! i));
         s \<leftarrow> vget ino s;
         Some (0, Some ino, s)
       }
   }"

text \<open>The check all creating operations start with.\<close>

definition assert_absent :: "nat \<Rightarrow> string \<Rightarrow> nat \<Rightarrow> 'a fsys_scheme \<Rightarrow> unit option" where
  "assert_absent d name name_len s = do { (r, _) \<leftarrow> ramfs_lookup d name name_len s; KASSERT (0 \<noteq> r) }"

definition ramfs_create :: "nat \<Rightarrow> string \<Rightarrow> nat \<Rightarrow> 'a fsys_scheme \<Rightarrow> (int \<times> nat option \<times> 'a fsys_scheme) option" where
  "ramfs_create d name name_len s = do {
     assert_absent d name name_len s;
     es \<leftarrow> dirents_of s d;
     case free_entry es of
       None \<Rightarrow> Some (- ENOSPC, None, s)
     | Some i \<Rightarrow> do {
         let (ino, s) = ramfs_alloc_inode RAMFS_TYPE_DATA 0 s;
         if ino < 0 then Some (ino, None, s)
         else do {
           s \<leftarrow> vget (nat ino) s;
           s \<leftarrow> set_entry d i ino name name_len s;
           Some (0, Some (nat ino), s)
         }
       }
   }"

definition ramfs_mknod :: "nat \<Rightarrow> string \<Rightarrow> nat \<Rightarrow> 32 word \<Rightarrow> devid \<Rightarrow> 'a fsys_scheme \<Rightarrow> (int \<times> 'a fsys_scheme) option" where
  "ramfs_mknod d name name_len mode devid s = do {
     assert_absent d name name_len s;
     es \<leftarrow> dirents_of s d;
     case free_entry es of
       None \<Rightarrow> Some (- ENOSPC, s)
     | Some i \<Rightarrow> do {
         KASSERT (S_ISCHR mode \<or> S_ISBLK mode);
         let (ino, s) = ramfs_alloc_inode (if S_ISCHR mode then RAMFS_TYPE_CHR else RAMFS_TYPE_BLK) devid s;
         if ino < 0 then Some (ino, s)
         else do {
           s \<leftarrow> set_entry d i ino name name_len s;
           Some (0, s)
         }
       }
   }"

definition ramfs_link :: "nat \<Rightarrow> nat \<Rightarrow> string \<Rightarrow> nat \<Rightarrow> 'a fsys_scheme \<Rightarrow> (int \<times> 'a fsys_scheme) option" where
  "ramfs_link old d name name_len s = do {
     assert_absent d name name_len s;
     es \<leftarrow> dirents_of s d;
     case free_entry es of
       None \<Rightarrow> Some (- ENOSPC, s)
     | Some i \<Rightarrow> do {
         s \<leftarrow> set_entry d i (int old) name name_len s;
         s \<leftarrow> mod_inode old (\<lambda>x. x\<lparr>rf_linkcount := rf_linkcount x + 1\<rparr>) s;
         Some (0, s)
       }
   }"

definition ramfs_unlink :: "nat \<Rightarrow> string \<Rightarrow> nat \<Rightarrow> 'a fsys_scheme \<Rightarrow> (int \<times> 'a fsys_scheme) option" where
  "ramfs_unlink d name namelen s = do {
     (ret, res, s) \<leftarrow> ramfs_lookup d name namelen s;
     KASSERT (0 = ret);
     v \<leftarrow> res;
     vn \<leftarrow> vnodes s v;
     KASSERT (\<not> S_ISDIR (vn_mode vn));
     s \<leftarrow> clear_entry d name namelen s;
     s \<leftarrow> mod_inode v (\<lambda>x. x\<lparr>rf_linkcount := rf_linkcount x - 1\<rparr>) s;
     s \<leftarrow> vput v s;
     Some (0, s)
   }"

definition dot_entries :: "nat \<Rightarrow> nat \<Rightarrow> ramfs_dirent list \<Rightarrow> ramfs_dirent list" where
  "dot_entries self parent es =
     es[0 := \<lparr>rd_ino = int self, rd_name = ''.''\<rparr>, 1 := \<lparr>rd_ino = int parent, rd_name = ''..''\<rparr>]"

definition fill_dots :: "nat \<Rightarrow> nat \<Rightarrow> 'a fsys_scheme \<Rightarrow> 'a fsys_scheme option" where
  "fill_dots self parent s = do {
     es \<leftarrow> dirents_of s self;
     mod_inode self (\<lambda>x. x\<lparr>rf_mem := Dirents (dot_entries self parent es), rf_size := 2 * SIZEOF_DIRENT\<rparr>) s
   }"

definition ramfs_mkdir :: "nat \<Rightarrow> string \<Rightarrow> nat \<Rightarrow> 'a fsys_scheme \<Rightarrow> (int \<times> 'a fsys_scheme) option" where
  "ramfs_mkdir d name name_len s = do {
     assert_absent d name name_len s;
     es \<leftarrow> dirents_of s d;
     case free_entry es of
       None \<Rightarrow> Some (- ENOSPC, s)
     | Some i \<Rightarrow> do {
         let (ino, s) = ramfs_alloc_inode RAMFS_TYPE_DIR 0 s;
         if ino < 0 then Some (ino, s)
         else do {
           s \<leftarrow> set_entry d i ino name name_len s;
           s \<leftarrow> fill_dots (nat ino) d s;
           Some (0, s)
         }
       }
   }"

definition dir_is_empty :: "ramfs_dirent list \<Rightarrow> bool" where
  "dir_is_empty es = list_all (\<lambda>e. rd_name e = ''.'' \<or> rd_name e = ''..'' \<or> rd_name e = '''') es"

definition ramfs_rmdir :: "nat \<Rightarrow> string \<Rightarrow> nat \<Rightarrow> 'a fsys_scheme \<Rightarrow> (int \<times> 'a fsys_scheme) option" where
  "ramfs_rmdir d name name_len s = do {
     KASSERT (\<not> name_match ''.'' name name_len \<and> \<not> name_match ''..'' name name_len);
     (ret, res, s) \<leftarrow> ramfs_lookup d name name_len s;
     if ret \<noteq> 0 then Some (ret, s)
     else do {
       v \<leftarrow> res;
       vn \<leftarrow> vnodes s v;
       if \<not> S_ISDIR (vn_mode vn) then do { s \<leftarrow> vput v s; Some (- ENOTDIR, s) }
       else do {
         es \<leftarrow> dirents_of s v;
         if \<not> dir_is_empty es then do { s \<leftarrow> vput v s; Some (- ENOTEMPTY, s) }
         else do {
           s \<leftarrow> clear_entry d name name_len s;
           s \<leftarrow> mod_inode v (\<lambda>x. x\<lparr>rf_linkcount := rf_linkcount x - 1\<rparr>) s;
           s \<leftarrow> vput v s;
           Some (0, s)
         }
       }
     }
   }"

section \<open>Files\<close>

text \<open>The bytes of a file; a copy with a negative length never ends well.\<close>

definition file_bytes :: "'a fsys_scheme \<Rightarrow> nat \<Rightarrow> byte list option" where
  "file_bytes s v = do {
     inode \<leftarrow> rfs_inodes s v;
     case rf_mem inode of Bytes bs \<Rightarrow> Some bs | _ \<Rightarrow> None
   }"

definition ramfs_read :: "nat \<Rightarrow> int \<Rightarrow> 32 word \<Rightarrow> 'a fsys_scheme \<Rightarrow> (int \<times> byte list) option" where
  "ramfs_read v offset count s = do {
     vn \<leftarrow> vnodes s v;
     inode \<leftarrow> rfs_inodes s v;
     KASSERT (\<not> S_ISDIR (vn_mode vn));
     let ret = max 0 (min (sint count) (rf_size inode - offset));
     bs \<leftarrow> (if ret = 0 then Some []
            else do { KASSERT (0 \<le> offset); mem \<leftarrow> file_bytes s v; copy_out mem (nat offset) (nat ret) });
     Some (ret, bs)
   }"

definition ramfs_write :: "nat \<Rightarrow> int \<Rightarrow> byte list \<Rightarrow> 32 word \<Rightarrow> 'a fsys_scheme \<Rightarrow> (int \<times> 'a fsys_scheme) option" where
  "ramfs_write v offset buf count s = do {
     vn \<leftarrow> vnodes s v;
     inode \<leftarrow> rfs_inodes s v;
     KASSERT (\<not> S_ISDIR (vn_mode vn));
     let ret = min (sint count) (4096 - offset);
     mem \<leftarrow> file_bytes s v;
     KASSERT (0 \<le> offset \<and> 0 \<le> ret);
     mem' \<leftarrow> copy_in mem (nat offset) (take (nat ret) buf);
     KASSERT (vn_len vn = rf_size inode);
     let len = max (vn_len vn) (offset + ret);
     let s = put_vnode v (Some (vn\<lparr>vn_len := len\<rparr>)) s;
     s \<leftarrow> mod_inode v (\<lambda>x. x\<lparr>rf_mem := Bytes mem', rf_size := len\<rparr>) s;
     Some (ret, s)
   }"

record dirent =
  d_ino :: int
  d_off :: int
  d_name :: string

fun skip_unused :: "ramfs_dirent list \<Rightarrow> nat" where
  "skip_unused [] = 0"
| "skip_unused (e # es) = (if rd_name e = '''' then Suc (skip_unused es) else 0)"

definition ramfs_readdir :: "nat \<Rightarrow> int \<Rightarrow> 'a fsys_scheme \<Rightarrow> (int \<times> dirent option) option" where
  "ramfs_readdir d offset s = do {
     vn \<leftarrow> vnodes s d;
     KASSERT (S_ISDIR (vn_mode vn));
     KASSERT (offset mod SIZEOF_DIRENT = 0);
     es \<leftarrow> dirents_of s d;
     KASSERT (0 \<le> offset);
     let i = nat (offset div SIZEOF_DIRENT);
     let k = skip_unused (drop i es);
     if RAMFS_MAX_DIRENT \<le> i + k then Some (0, None)
     else do {
       let e = es ! (i + k);
       Some (SIZEOF_DIRENT + int k * SIZEOF_DIRENT,
             Some \<lparr>d_ino = rd_ino e, d_off = 0, d_name = take (NAME_LEN - 1) (rd_name e)\<rparr>)
     }
   }"

record stat =
  st_mode :: "32 word"
  st_ino :: nat
  st_dev :: int
  st_rdev :: devid
  st_nlink :: int
  st_size :: int
  st_blksize :: int
  st_blocks :: int

definition ramfs_stat :: "nat \<Rightarrow> 'a fsys_scheme \<Rightarrow> (int \<times> stat) option" where
  "ramfs_stat v s = do {
     vn \<leftarrow> vnodes s v;
     i \<leftarrow> rfs_inodes s v;
     rdev \<leftarrow> (if vn_mode vn = S_IFCHR \<or> vn_mode vn = S_IFBLK
              then case rf_mem i of Devid d \<Rightarrow> Some d | _ \<Rightarrow> None else Some 0);
     Some (0, \<lparr>st_mode = vn_mode vn, st_ino = vn_vno vn, st_dev = 0, st_rdev = rdev,
       st_nlink = rf_linkcount i - 1, st_size = rf_size i, st_blksize = 4096, st_blocks = 1\<rparr>)
   }"

section \<open>Mounting\<close>

text \<open>
  Mounting fills a fresh file system structure; the first allocation is that of the ramfs
  structure itself.  Unmounting frees every inode that is left.
\<close>

definition ramfs_mount :: "'a fsys_scheme \<Rightarrow> (int \<times> 'a fsys_scheme) option" where
  "ramfs_mount s =
     (let (ok, s) = kalloc s in
      if \<not> ok then Some (- ENOMEM, s)
      else do {
        let s = s\<lparr>rfs_inodes := (\<lambda>_. None)\<rparr>;
        let (root_ino, s) = ramfs_alloc_inode RAMFS_TYPE_DIR 0 s;
        if root_ino < 0 then Some (root_ino, s)
        else do {
          KASSERT (0 = root_ino);
          s \<leftarrow> fill_dots 0 0 s;
          s \<leftarrow> vget 0 s;
          Some (0, s\<lparr>fs_root := 0\<rparr>)
        }
      })"

definition ramfs_umount :: "'a fsys_scheme \<Rightarrow> (int \<times> 'a fsys_scheme) option" where
  "ramfs_umount s = do {
     s \<leftarrow> vput (fs_root s) s;
     Some (0, s\<lparr>rfs_inodes := (\<lambda>i. if i < RAMFS_MAX_FILES then None else rfs_inodes s i)\<rparr>)
   }"

end
