(* ===== verification/RamfsInv.thy ===== *)
theory RamfsInv
imports Ramfs
begin

text \<open>
  The invariant of the memory file system.  Every link count covers the directory entries
  that name the inode, the vnode in core and, for the root, the file system itself; every
  named directory entry leads to an inode; every vnode agrees with its inode.  In the
  middle of an operation a link count may be ahead of its entries: the invariant carries
  that surplus as an argument, and is the invariant proper when the surplus is 0.
\<close>

section \<open>Counting links\<close>

text \<open>An entry in use, other than the two every directory starts with.\<close>

definition named :: "ramfs_dirent \<Rightarrow> bool" where
  "named e \<longleftrightarrow> rd_name e \<notin> {'''', ''.'', ''..''}"

definition ent_links :: "nat \<Rightarrow> ramfs_dirent list \<Rightarrow> nat" where
  "ent_links i es = length (filter (\<lambda>e. named e \<and> rd_ino e = int i) es)"

definition node_links :: "ramfs_inode option \<Rightarrow> nat \<Rightarrow> nat" where
  "node_links x i = (case x of None \<Rightarrow> 0
     | Some n \<Rightarrow> (case rf_mem n of Dirents es \<Rightarrow> ent_links i es | _ \<Rightarrow> 0))"

definition link_sum :: "(nat \<Rightarrow> ramfs_inode option) \<Rightarrow> nat \<Rightarrow> nat" where
  "link_sum ns i = (\<Sum>d<RAMFS_MAX_FILES. node_links (ns d) i)"

lemma node_links_simps [simp]:
  "node_links None i = 0"
  "rf_mem x = Dirents es \<Longrightarrow> node_links (Some x) i = ent_links i es"
  "rf_mem x = Bytes bs \<Longrightarrow> node_links (Some x) i = 0"
  "rf_mem x = Devid dv \<Longrightarrow> node_links (Some x) i = 0"
  by (simp_all add: node_links_def)

lemma link_sum_upd:
  assumes "d < RAMFS_MAX_FILES"
  shows "link_sum (ns(d := y)) i + node_links (ns d) i = link_sum ns i + node_links y i"
proof -
  have "link_sum ns i = node_links (ns d) i + (\<Sum>j \<in> {..<RAMFS_MAX_FILES} - {d}. node_links (ns j) i)"
    using assms unfolding link_sum_def by (subst sum.remove [where x = d]) auto
  moreover have "link_sum (ns(d := y)) i = node_links y i + (\<Sum>j \<in> {..<RAMFS_MAX_FILES} - {d}. node_links (ns j) i)"
    using assms unfolding link_sum_def by (subst sum.remove [where x = d]) (auto intro!: sum.cong)
  ultimately show ?thesis by simp
qed

lemma link_sum_same:
  assumes "\<And>i. node_links y i = node_links (ns d) i"
  shows "link_sum (ns(d := y)) = link_sum ns"
  using assms by (auto simp: link_sum_def fun_eq_iff intro!: sum.cong)

lemma link_sum_pos:
  assumes "d < RAMFS_MAX_FILES" and "ns d = Some x" and "rf_mem x = Dirents es" and "e \<in> set es"
    and "named e" and "rd_ino e = int i"
  shows "0 < link_sum ns i"
proof -
  have "0 < node_links (ns d) i" using assms by (auto simp: ent_links_def length_greater_0_conv filter_empty_conv)
  also have "node_links (ns d) i \<le> link_sum ns i"
    unfolding link_sum_def using assms(1) by (intro member_le_sum) auto
  finally show ?thesis .
qed

section \<open>The invariant\<close>

definition inode_ok :: "ramfs_inode \<Rightarrow> bool" where
  "inode_ok x = (case (rf_mode x, rf_mem x) of
     (RAMFS_TYPE_DATA, Bytes bs) \<Rightarrow> length bs = 4096 \<and> 0 \<le> rf_size x \<and> rf_size x \<le> 4096
   | (RAMFS_TYPE_DIR, Dirents es) \<Rightarrow> length es = RAMFS_MAX_DIRENT
   | (RAMFS_TYPE_CHR, Devid _) \<Rightarrow> True
   | (RAMFS_TYPE_BLK, Devid _) \<Rightarrow> True
   | _ \<Rightarrow> False)"

fun mode_of :: "rf_type \<Rightarrow> 32 word" where
  "mode_of RAMFS_TYPE_DATA = S_IFREG"
| "mode_of RAMFS_TYPE_DIR = S_IFDIR"
| "mode_of RAMFS_TYPE_CHR = S_IFCHR"
| "mode_of RAMFS_TYPE_BLK = S_IFBLK"

fun ops_of :: "rf_type \<Rightarrow> vops" where
  "ops_of RAMFS_TYPE_DATA = Ramfs_file"
| "ops_of RAMFS_TYPE_DIR = Ramfs_dir"
| "ops_of RAMFS_TYPE_CHR = Bytedev_spec"
| "ops_of RAMFS_TYPE_BLK = Blockdev_spec"

definition vnode_ok :: "nat \<Rightarrow> vnode \<Rightarrow> ramfs_inode \<Rightarrow> bool" where
  "vnode_ok v vn x \<longleftrightarrow> vn_vno vn = v \<and> \<not> vn_busy vn \<and> 0 \<le> vn_nrespages vn \<and> vn_nrespages vn \<le> vn_refcount vn
     \<and> 0 < vn_refcount vn \<and> vn_mode vn = mode_of (rf_mode x) \<and> vn_ops vn = Some (ops_of (rf_mode x))
     \<and> (rf_mode x = RAMFS_TYPE_DATA \<longrightarrow> vn_len vn = rf_size x)"

definition slot_ok :: "nat \<Rightarrow> ramfs_inode option \<Rightarrow> bool" where
  "slot_ok i x \<longleftrightarrow> (case x of None \<Rightarrow> True | Some n \<Rightarrow> i < RAMFS_MAX_FILES \<and> rf_ino n = i \<and> inode_ok n)"

definition covers :: "(nat \<Rightarrow> int) \<Rightarrow> 'a fsys_scheme \<Rightarrow> nat \<Rightarrow> bool" where
  "covers k s i \<longleftrightarrow> (case rfs_inodes s i of None \<Rightarrow> True
     | Some x \<Rightarrow> int (link_sum (rfs_inodes s) i) + (if vnodes s i = None then 0 else 1)
         + (if i = 0 then 1 else 0) + k i \<le> rf_linkcount x)"

definition core_ok :: "'a fsys_scheme \<Rightarrow> nat \<Rightarrow> bool" where
  "core_ok s v \<longleftrightarrow> (case vnodes s v of None \<Rightarrow> True
     | Some vn \<Rightarrow> (case rfs_inodes s v of None \<Rightarrow> False | Some x \<Rightarrow> vnode_ok v vn x))"

definition target_ok :: "(nat \<Rightarrow> ramfs_inode option) \<Rightarrow> ramfs_dirent \<Rightarrow> bool" where
  "target_ok ns e \<longleftrightarrow> (named e \<longrightarrow> 0 \<le> rd_ino e \<and> ns (nat (rd_ino e)) \<noteq> None)"

definition entries_ok :: "(nat \<Rightarrow> ramfs_inode option) \<Rightarrow> ramfs_inode option \<Rightarrow> bool" where
  "entries_ok ns x \<longleftrightarrow> (case x of None \<Rightarrow> True
     | Some n \<Rightarrow> (case rf_mem n of Dirents es \<Rightarrow> (\<forall>e \<in> set es. target_ok ns e) | _ \<Rightarrow> True))"

definition fs_bal :: "(nat \<Rightarrow> int) \<Rightarrow> 'a fsys_scheme \<Rightarrow> bool" where
  "fs_bal k s \<longleftrightarrow> (\<forall>i. slot_ok i (rfs_inodes s i)) \<and> (\<forall>i. covers k s i) \<and> (\<forall>v. core_ok s v)
     \<and> (\<forall>d. entries_ok (rfs_inodes s) (rfs_inodes s d)) \<and> rfs_inodes s 0 \<noteq> None
     \<and> distinct (vnode_inuse_list s) \<and> set (vnode_inuse_list s) = dom (vnodes s)"

abbreviation fs_inv :: "'a fsys_scheme \<Rightarrow> bool" where
  "fs_inv \<equiv> fs_bal (\<lambda>_. 0)"

lemma fs_balD:
  assumes "fs_bal k s"
  shows "slot_ok i (rfs_inodes s i)" "covers k s i" "core_ok s i" "entries_ok (rfs_inodes s) (rfs_inodes s i)"
    "distinct (vnode_inuse_list s)" "set (vnode_inuse_list s) = dom (vnodes s)" "rfs_inodes s 0 \<noteq> None"
  using assms by (auto simp: fs_bal_def)

lemma fs_bal_inode:
  assumes "fs_bal k s" and "rfs_inodes s i = Some x"
  shows "i < RAMFS_MAX_FILES" "rf_ino x = i" "inode_ok x"
  using fs_balD(1) [OF assms(1), of i] assms(2) by (auto simp: slot_ok_def)

lemma fs_bal_vnode:
  assumes "fs_bal k s" and "vnodes s v = Some vn"
  obtains x where "rfs_inodes s v = Some x" and "vnode_ok v vn x"
  using fs_balD(3) [OF assms(1), of v] assms(2) by (auto simp: core_ok_def split: option.splits)

lemma fs_bal_cong:
  assumes "rfs_inodes s' = rfs_inodes s" and "vnodes s' = vnodes s" and "vnode_inuse_list s' = vnode_inuse_list s"
  shows "fs_bal k s' = fs_bal k s"
  unfolding fs_bal_def covers_def core_ok_def assms ..

lemma fs_bal_allocs [simp]: "fs_bal k (s\<lparr>allocs := a\<rparr>) = fs_bal k s"
  by (rule fs_bal_cong) simp_all

lemma fs_bal_root [simp]: "fs_bal k (s\<lparr>fs_root := a\<rparr>) = fs_bal k s"
  by (rule fs_bal_cong) simp_all

section \<open>Changing one inode\<close>

text \<open>
  Replacing the contents of an inode that is there: everything but the link counts is a
  condition on the new contents alone.
\<close>

lemma slot_present:
  assumes "entries_ok ns x" and "ns d \<noteq> None" and "y \<noteq> None"
  shows "entries_ok (ns(d := y)) x"
  using assms by (auto simp: entries_ok_def target_ok_def split: option.splits rf_mem.splits)

lemma covers_upd:
  assumes bal: "fs_bal k s" and x: "rfs_inodes s d = Some x"
    and links: "\<And>i. int (node_links (Some y) i) + k' i \<le> int (node_links (Some x) i) + k i + (if i = d then rf_linkcount y - rf_linkcount x else 0)"
  shows "covers k' (put_inode d (Some y) s) i"
proof -
  have "d < RAMFS_MAX_FILES" using fs_bal_inode [OF bal x] by simp
  from link_sum_upd [OF this, of "rfs_inodes s" "Some y" i] x links [of i] fs_balD(2) [OF bal, of i]
  show ?thesis by (auto simp: covers_def put_inode_def split: option.splits if_splits)
qed

lemma fs_bal_upd:
  assumes bal: "fs_bal k s" and x: "rfs_inodes s d = Some x"
    and links: "\<And>i. int (node_links (Some y) i) + k' i \<le> int (node_links (Some x) i) + k i + (if i = d then rf_linkcount y - rf_linkcount x else 0)"
    and y: "rf_ino y = rf_ino x" "rf_mode y = rf_mode x" "inode_ok y"
    and len: "rf_mode x = RAMFS_TYPE_DATA \<longrightarrow> vnodes s d \<noteq> None \<longrightarrow> rf_size y = rf_size x"
    and ents: "entries_ok (rfs_inodes s) (Some y)"
  shows "fs_bal k' (put_inode d (Some y) s)"
proof -
  let ?s = "put_inode d (Some y) s"
  have "slot_ok i (rfs_inodes ?s i)" for i
    using fs_balD(1) [OF bal, of i] x y by (auto simp: slot_ok_def put_inode_def)
  moreover have "core_ok ?s v" for v
    using fs_balD(3) [OF bal, of v] x y len by (auto simp: core_ok_def put_inode_def vnode_ok_def split: option.splits)
  moreover have "entries_ok (rfs_inodes ?s) (rfs_inodes ?s e)" for e
    using slot_present [OF fs_balD(4) [OF bal, of e], of d "Some y"] slot_present [OF ents, of d "Some y"] x
    by (simp add: put_inode_def)
  moreover have "covers k' ?s i" for i by (rule covers_upd [OF bal x links])
  ultimately show ?thesis using fs_balD(5-7) [OF bal] by (simp add: fs_bal_def put_inode_def)
qed

section \<open>References\<close>

lemma inode_ok_linkcount [simp]: "inode_ok (x\<lparr>rf_linkcount := n\<rparr>) = inode_ok x"
  by (simp add: inode_ok_def split: rf_type.splits rf_mem.splits)

lemma fs_bal_put_vnode:
  assumes bal: "fs_bal k s" and vn: "vnodes s v = Some vn" "rfs_inodes s v = Some x" "vnode_ok v vn' x"
  shows "fs_bal k (put_vnode v (Some vn') s)"
proof -
  have "covers k (put_vnode v (Some vn') s) i" for i
    using fs_balD(2) [OF bal, of i] vn(1) by (auto simp: covers_def put_vnode_def split: option.splits)
  moreover have "core_ok (put_vnode v (Some vn') s) w" for w
    using fs_balD(3) [OF bal, of w] vn by (auto simp: core_ok_def put_vnode_def split: option.splits)
  moreover have "dom (vnodes (put_vnode v (Some vn') s)) = dom (vnodes s)"
    using vn(1) by (auto simp: put_vnode_def)
  ultimately show ?thesis using bal by (auto simp: fs_bal_def put_vnode_def)
qed

lemma fs_bal_vref:
  assumes "fs_bal k s" and "vref v s = Some s'"
  shows "fs_bal k s'"
proof -
  obtain vn where vn: "vnodes s v = Some vn" and s': "s' = put_vnode v (Some (vn\<lparr>vn_refcount := vn_refcount vn + 1\<rparr>)) s"
    using assms(2) by (auto simp: vref_def bind_Some_iff)
  obtain x where x: "rfs_inodes s v = Some x" "vnode_ok v vn x" using fs_bal_vnode [OF assms(1) vn] .
  show ?thesis unfolding s' by (rule fs_bal_put_vnode [OF assms(1) vn x(1)]) (use x(2) in \<open>auto simp: vnode_ok_def\<close>)
qed

text \<open>A vnode brought in for an inode that had none, with the link count raised for it.\<close>

lemma fs_bal_enter:
  assumes bal: "fs_bal k s" and none: "vnodes s v = None" and x: "rfs_inodes s v = Some x"
    and ok: "vnode_ok v vn (x\<lparr>rf_linkcount := rf_linkcount x + 1\<rparr>)"
  shows "fs_bal k (put_vnode v (Some vn) (put_inode v (Some (x\<lparr>rf_linkcount := rf_linkcount x + 1\<rparr>))
     (s\<lparr>vnode_inuse_list := v # vnode_inuse_list s\<rparr>)))" (is "fs_bal k ?s")
proof -
  let ?x = "x\<lparr>rf_linkcount := rf_linkcount x + 1\<rparr>"
  have ls: "link_sum ((rfs_inodes s)(v := Some ?x)) = link_sum (rfs_inodes s)"
    by (rule link_sum_same) (simp add: x node_links_def)
  have "covers k ?s i" for i
    using fs_balD(2) [OF bal, of i] none x ls by (auto simp: covers_def put_vnode_def put_inode_def split: option.splits)
  moreover have "slot_ok i (rfs_inodes ?s i)" for i
    using fs_balD(1) [OF bal, of i] x by (auto simp: slot_ok_def put_inode_def put_vnode_def)
  moreover have "core_ok ?s w" for w
    using fs_balD(3) [OF bal, of w] ok x by (auto simp: core_ok_def put_vnode_def put_inode_def split: option.splits)
  moreover have "entries_ok (rfs_inodes ?s) (rfs_inodes ?s d)" for d
    using slot_present [OF fs_balD(4) [OF bal, of d], of v "Some ?x"] slot_present [OF fs_balD(4) [OF bal, of v], of v "Some ?x"] x
    by (auto simp: put_inode_def put_vnode_def entries_ok_def)
  moreover have "v \<notin> set (vnode_inuse_list s)" using fs_balD(6) [OF bal] none by auto
  ultimately show ?thesis using fs_balD(5-7) [OF bal] by (auto simp: fs_bal_def put_vnode_def put_inode_def)
qed

text \<open>What \<^verbatim>\<open>vget\<close> does to a vnode that is not in core.\<close>

lemma read_vnode_fields:
  assumes "ramfs_read_vnode v vn s = Some (vn', s')"
  shows "\<exists>x. rfs_inodes s v = Some x \<and> rf_ino x = vn_vno vn
    \<and> s' = put_inode v (Some (x\<lparr>rf_linkcount := rf_linkcount x + 1\<rparr>)) s
    \<and> vn_mode vn' = mode_of (rf_mode x) \<and> vn_len vn' = rf_size x \<and> vn_vno vn' = vn_vno vn \<and> vn_nrespages vn' = vn_nrespages vn
    \<and> (rf_mode x \<in> {RAMFS_TYPE_DATA, RAMFS_TYPE_DIR} \<longrightarrow> vn_ops vn' = Some (ops_of (rf_mode x)))"
proof -
  obtain x where x: "rfs_inodes s v = Some x" using assms by (auto simp: ramfs_read_vnode_def bind_Some_iff)
  then show ?thesis
    using assms by (cases "rf_mode x") (auto simp: ramfs_read_vnode_def bind_Some_iff Let_def split: rf_mem.splits)
qed

lemma special_vnode_fields:
  assumes "init_special_vnode s vn = Some vn'"
  shows "vn_mode vn' = vn_mode vn \<and> vn_len vn' = vn_len vn \<and> vn_vno vn' = vn_vno vn \<and> vn_nrespages vn' = vn_nrespages vn
    \<and> vn_busy vn' = vn_busy vn \<and> vn_ops vn' = Some (if S_ISCHR (vn_mode vn) then Bytedev_spec else Blockdev_spec)"
  using assms by (auto simp: init_special_vnode_def bind_Some_iff split: if_splits)

lemma vget_new:
  assumes "vget v s = Some s'" and none: "vnodes s v = None"
  shows "\<exists>x vn. rfs_inodes s v = Some x \<and> vn_refcount vn = 1 \<and> vn_nrespages vn = 0
     \<and> vnode_ok v vn (x\<lparr>rf_linkcount := rf_linkcount x + 1\<rparr>)
     \<and> s' = put_vnode v (Some vn) (put_inode v (Some (x\<lparr>rf_linkcount := rf_linkcount x + 1\<rparr>))
         (s\<lparr>allocs := drop 1 (dropWhile Not (allocs s)), vnode_inuse_list := v # vnode_inuse_list s\<rparr>))"
proof -
  let ?s = "s\<lparr>allocs := drop 1 (dropWhile Not (allocs s)), vnode_inuse_list := v # vnode_inuse_list s\<rparr>"
  obtain vn1 s1 vn2 where r: "ramfs_read_vnode v ((blank_vnode v)\<lparr>vn_busy := True\<rparr>) ?s = Some (vn1, s1)"
    and i: "(if S_ISCHR (vn_mode vn1) \<or> S_ISBLK (vn_mode vn1) then init_special_vnode s1 (vn1\<lparr>vn_busy := False\<rparr>)
       else Some (vn1\<lparr>vn_busy := False\<rparr>)) = Some vn2"
    and s': "s' = put_vnode v (Some (vn2\<lparr>vn_refcount := 1\<rparr>)) s1"
    using assms by (auto simp: vget_def Let_def bind_Some_iff)
  obtain x where x: "rfs_inodes s v = Some x" "s1 = put_inode v (Some (x\<lparr>rf_linkcount := rf_linkcount x + 1\<rparr>)) ?s"
    and f: "vn_mode vn1 = mode_of (rf_mode x)" "vn_len vn1 = rf_size x" "vn_vno vn1 = v" "vn_nrespages vn1 = 0"
      "rf_mode x \<in> {RAMFS_TYPE_DATA, RAMFS_TYPE_DIR} \<longrightarrow> vn_ops vn1 = Some (ops_of (rf_mode x))"
    using read_vnode_fields [OF r] by (auto simp: blank_vnode_def)
  have g: "vn_mode vn2 = mode_of (rf_mode x) \<and> vn_len vn2 = rf_size x \<and> vn_vno vn2 = v \<and> vn_nrespages vn2 = 0
      \<and> \<not> vn_busy vn2 \<and> vn_ops vn2 = Some (ops_of (rf_mode x))"
    using i f by (cases "rf_mode x") (auto dest: special_vnode_fields)
  show ?thesis
    unfolding s' x(2) using x(1) g by (intro exI [of _ x] exI [of _ "vn2\<lparr>vn_refcount := 1\<rparr>"]) (simp add: vnode_ok_def)
qed

lemma fs_bal_vget:
  assumes bal: "fs_bal k s" and get: "vget v s = Some s'"
  shows "fs_bal k s'"
proof (cases "vnodes s v")
  case None
  obtain x vn where x: "rfs_inodes s v = Some x" and ok: "vnode_ok v vn (x\<lparr>rf_linkcount := rf_linkcount x + 1\<rparr>)"
    and s': "s' = put_vnode v (Some vn) (put_inode v (Some (x\<lparr>rf_linkcount := rf_linkcount x + 1\<rparr>))
         (s\<lparr>allocs := drop 1 (dropWhile Not (allocs s)), vnode_inuse_list := v # vnode_inuse_list s\<rparr>))"
    using vget_new [OF get None] by blast
  from fs_bal_enter [OF _ _ _ ok, of k "s\<lparr>allocs := drop 1 (dropWhile Not (allocs s))\<rparr>"] bal None x
  show ?thesis unfolding s' by simp
next
  case (Some vn)
  then show ?thesis using get fs_bal_vref [OF bal] by (auto simp: vget_def split: if_splits)
qed

text \<open>The last reference to a vnode: it leaves core, and its inode goes if nothing names it.\<close>

lemma fs_bal_leave:
  assumes bal: "fs_bal k s" and vn: "vnodes s v = Some vn" and k: "0 \<le> k v"
    and del: "ramfs_delete_vnode v s = Some s1"
  shows "fs_bal k (put_vnode v None (s1\<lparr>vnode_inuse_list := removeAll v (vnode_inuse_list s1)\<rparr>))" (is "fs_bal k ?s")
proof -
  obtain x where x: "rfs_inodes s v = Some x" using fs_bal_vnode [OF bal vn] .
  define y where "y = (if rf_linkcount x = 1 then None else Some (x\<lparr>rf_linkcount := rf_linkcount x - 1\<rparr>))"
  have s1: "s1 = put_inode v y s" using del x by (auto simp: ramfs_delete_vnode_def y_def Let_def split: if_splits)
  have v64: "v < RAMFS_MAX_FILES" using fs_bal_inode [OF bal x] by simp
  have le: "link_sum ((rfs_inodes s)(v := y)) i \<le> link_sum (rfs_inodes s) i" for i
    using link_sum_upd [OF v64, of "rfs_inodes s" y i] x by (auto simp: y_def node_links_def split: if_splits)
  have cov: "int (link_sum (rfs_inodes s) v) + 1 + (if v = 0 then 1 else 0) + k v \<le> rf_linkcount x"
    using fs_balD(2) [OF bal, of v] x vn by (simp add: covers_def)
  have free: "link_sum (rfs_inodes s) v = 0" if "y = None"
    using cov k that by (auto simp: y_def split: if_splits)
  have "covers k ?s i" for i
    using fs_balD(2) [OF bal, of i] le [of i] x vn
    by (auto simp: covers_def s1 put_inode_def put_vnode_def y_def split: option.splits if_splits)
  moreover have "slot_ok i (rfs_inodes ?s i)" for i
    using fs_balD(1) [OF bal, of i] x by (auto simp: slot_ok_def s1 put_inode_def put_vnode_def y_def)
  moreover have "core_ok ?s w" for w
    using fs_balD(3) [OF bal, of w] by (auto simp: core_ok_def s1 put_inode_def put_vnode_def split: option.splits)
  moreover have "entries_ok (rfs_inodes ?s) (rfs_inodes ?s d)" for d
  proof (cases "y = None")
    case True
    have "target_ok ((rfs_inodes s)(v := None)) e"
      if e: "e \<in> set es" and z: "rfs_inodes s d = Some z" "rf_mem z = Dirents es" for z es e
    proof -
      have t: "target_ok (rfs_inodes s) e" using fs_balD(4) [OF bal, of d] e z by (simp add: entries_ok_def)
      have "\<not> (named e \<and> rd_ino e = int v)"
        using link_sum_pos [of d "rfs_inodes s" z es e v] fs_bal_inode(1) [OF bal z(1)] z e free [OF True] by auto
      then show ?thesis using t by (auto simp: target_ok_def)
    qed
    then show ?thesis using True by (auto simp: entries_ok_def s1 put_inode_def put_vnode_def split: option.splits rf_mem.splits)
  next
    case False
    then show ?thesis
      using slot_present [OF fs_balD(4) [OF bal, of d], of v y] slot_present [OF fs_balD(4) [OF bal, of v], of v y] x
      by (auto simp: s1 put_inode_def put_vnode_def y_def entries_ok_def)
  qed
  moreover have "y \<noteq> None" if "v = 0"
    using cov k that by (auto simp: y_def)
  ultimately show ?thesis
    using fs_balD(5-7) [OF bal] by (auto simp: fs_bal_def s1 put_inode_def put_vnode_def distinct_removeAll)
qed

lemma fs_bal_vput:
  assumes bal: "fs_bal k s" and k: "0 \<le> k v" and put: "vput v s = Some s'"
  shows "fs_bal k s'"
proof -
  obtain vn where vn: "vnodes s v = Some vn" "vn_nrespages vn < vn_refcount vn"
    using put by (auto simp: vput_def bind_Some_iff)
  obtain x where x: "rfs_inodes s v = Some x" "vnode_ok v vn x" using fs_bal_vnode [OF bal vn(1)] .
  define vn1 where "vn1 = (if vn_nrespages vn = vn_refcount vn - 1 \<and> \<not> rf_linkcount x > 1 then free_respages vn else vn)"
  define vn2 where "vn2 = vn1\<lparr>vn_refcount := vn_refcount vn1 - 1\<rparr>"
  have run: "(if 0 < vn_refcount vn2 then Some (put_vnode v (Some vn2) s)
     else do { KASSERT (vn_refcount vn2 = 0); KASSERT (vn_nrespages vn2 = 0);
       s \<leftarrow> ramfs_delete_vnode v s;
       Some (put_vnode v None (s\<lparr>vnode_inuse_list := removeAll v (vnode_inuse_list s)\<rparr>)) }) = Some s'"
    using put vn x by (auto simp: vput_def vn1_def vn2_def ramfs_query_vnode_def Let_def bind_Some_iff split: if_splits)
  show ?thesis
  proof (cases "0 < vn_refcount vn2")
    case True
    have "vnode_ok v vn2 x" using x(2) True vn(2) by (auto simp: vnode_ok_def vn2_def vn1_def free_respages_def)
    then show ?thesis using run True fs_bal_put_vnode [OF bal vn(1) x(1)] by auto
  next
    case False
    then show ?thesis using run fs_bal_leave [where k = k, OF bal vn(1) k] by (auto simp: bind_Some_iff split: if_splits)
  qed
qed

section \<open>Allocating an inode\<close>

lemma link_sum_free:
  assumes "\<And>d. entries_ok ns (ns d)" and "ns i = None"
  shows "link_sum ns i = 0"
proof -
  have "node_links (ns d) i = 0" for d
  proof -
    have "\<not> (named e \<and> rd_ino e = int i)" if "ns d = Some x" "rf_mem x = Dirents es" "e \<in> set es" for x es e
      using assms(1) [of d] assms(2) that by (auto simp: entries_ok_def target_ok_def)
    then show ?thesis by (auto simp: node_links_def ent_links_def filter_empty_conv split: option.splits rf_mem.splits)
  qed
  then show ?thesis by (simp add: link_sum_def)
qed

lemma kalloc_state: "snd (kalloc s) = s\<lparr>allocs := allocs (snd (kalloc s))\<rparr>"
  by (simp add: kalloc_def split: list.split)

lemma alloc_inode_cases:
  assumes run: "ramfs_alloc_inode t dv s = (ino, s')"
  obtains "ino = - ENOSPC" and "\<exists>a. s' = s\<lparr>allocs := a\<rparr>"
  | i a where "ino = int i" and "i < RAMFS_MAX_FILES" and "rfs_inodes s i = None"
      and "s' = put_inode i (Some (new_inode i t dv)) (s\<lparr>allocs := a\<rparr>)"
proof (cases "find (\<lambda>i. rfs_inodes s i = None) [0..<RAMFS_MAX_FILES]")
  case None
  then have "ino = - ENOSPC" "s' = s\<lparr>allocs := allocs s\<rparr>" using run by (simp_all add: ramfs_alloc_inode_def)
  then show ?thesis using that(1) by blast
next
  case (Some i)
  have i: "i < RAMFS_MAX_FILES" "rfs_inodes s i = None" using Some by (auto simp: find_Some_iff simp del: upt_rec_numeral)
  obtain ok a ok2 a2 where k: "kalloc s = (ok, s\<lparr>allocs := a\<rparr>)" "kalloc (s\<lparr>allocs := a\<rparr>) = (ok2, s\<lparr>allocs := a2\<rparr>)"
    by (cases "kalloc s", cases "kalloc (s\<lparr>allocs := allocs (snd (kalloc s))\<rparr>)")
      (metis kalloc_state snd_conv fsys.ext_inject fsys.surjective fsys.update_convs(7))
  show ?thesis using run that(1) that(2) [OF _ i] unfolding ramfs_alloc_inode_def Some option.case k(1) Let_def prod.case k(2)
    by (auto split: if_splits)
qed

lemma new_inode_ok: "inode_ok (new_inode i t dv)" "rf_ino (new_inode i t dv) = i" "rf_linkcount (new_inode i t dv) = 1"
  "node_links (Some (new_inode i t dv)) j = 0" "entries_ok ns (Some (new_inode i t dv))"
  by (auto simp: new_inode_def inode_ok_def node_links_def ent_links_def entries_ok_def target_ok_def empty_dirent_def
      named_def split: rf_type.splits)

lemma fs_bal_new_inode:
  assumes bal: "fs_bal k s" and free: "rfs_inodes s i = None" and i: "i < RAMFS_MAX_FILES"
  shows "fs_bal (k(i := 1)) (put_inode i (Some (new_inode i t dv)) s)" (is "fs_bal ?k ?s")
proof -
  have i0: "i \<noteq> 0" using free fs_balD(7) [OF bal] by metis
  have none: "vnodes s i = None" using fs_balD(3) [OF bal, of i] free by (auto simp: core_ok_def split: option.splits)
  have ls: "link_sum ((rfs_inodes s)(i := Some (new_inode i t dv))) = link_sum (rfs_inodes s)"
    by (rule link_sum_same) (simp add: new_inode_ok free)
  have zero: "link_sum (rfs_inodes s) i = 0" using link_sum_free [of "rfs_inodes s" i] fs_balD(4) [OF bal] free by blast
  have "covers ?k ?s j" for j
    using fs_balD(2) [OF bal, of j] ls zero none i0
    by (auto simp: covers_def put_inode_def new_inode_ok split: option.splits)
  moreover have "slot_ok j (rfs_inodes ?s j)" for j
    using fs_balD(1) [OF bal, of j] i by (auto simp: slot_ok_def put_inode_def new_inode_ok)
  moreover have "core_ok ?s w" for w
    using fs_balD(3) [OF bal, of w] none by (auto simp: core_ok_def put_inode_def split: option.splits)
  moreover have "entries_ok (rfs_inodes ?s) (rfs_inodes ?s d)" for d
  proof (cases "d = i")
    case True
    then show ?thesis using new_inode_ok(5) by (simp add: put_inode_def)
  next
    case False
    then show ?thesis using fs_balD(4) [OF bal, of d]
      by (auto simp: put_inode_def entries_ok_def target_ok_def split: option.splits rf_mem.splits)
  qed
  ultimately show ?thesis using fs_balD(5-7) [OF bal] by (simp add: fs_bal_def put_inode_def)
qed

section \<open>Changing directory entries\<close>

lemma length_filter_update:
  "i < length xs \<Longrightarrow> length (filter P (xs[i := y])) + (if P (xs ! i) then 1 else 0)
     = length (filter P xs) + (if P y then 1 else 0)"
proof (induction xs arbitrary: i)
  case (Cons x xs)
  show ?case
  proof (cases i)
    case (Suc n)
    then have "length (filter P (xs[n := y])) + (if P (xs ! n) then 1 else 0) = length (filter P xs) + (if P y then 1 else 0)"
      using Cons.prems by (intro Cons.IH) simp
    then show ?thesis using Suc by simp
  qed simp
qed simp

lemma ent_links_update:
  "i < length es \<Longrightarrow> ent_links j (es[i := e]) + (if named (es ! i) \<and> rd_ino (es ! i) = int j then 1 else 0)
     = ent_links j es + (if named e \<and> rd_ino e = int j then 1 else 0)"
  unfolding ent_links_def by (rule length_filter_update)

lemma dirents_of_Some: "dirents_of s d = Some es \<longleftrightarrow> (\<exists>x. rfs_inodes s d = Some x \<and> rf_mem x = Dirents es)"
  by (cases "rfs_inodes s d") (auto simp: dirents_of_def split: rf_mem.splits)

lemma inode_ok_dir: "inode_ok x \<Longrightarrow> rf_mem x = Dirents es \<Longrightarrow> rf_mode x = RAMFS_TYPE_DIR \<and> length es = RAMFS_MAX_DIRENT"
  by (simp add: inode_ok_def split: rf_type.splits)

text \<open>Writing one entry of a directory, which may or may not have named something before.\<close>

lemma fs_bal_entry:
  assumes bal: "fs_bal k s" and es: "rfs_inodes s d = Some x" "rf_mem x = Dirents es" and i: "i < length es"
    and k': "\<And>j. k' j \<le> k j + (if named (es ! i) \<and> rd_ino (es ! i) = int j then 1 else 0)
        - (if named e \<and> rd_ino e = int j then 1 else 0)"
    and t: "target_ok (rfs_inodes s) e"
  shows "fs_bal k' (put_inode d (Some (x\<lparr>rf_mem := Dirents (es[i := e]), rf_size := n\<rparr>)) s)"
proof (rule fs_bal_upd [OF bal es(1)])
  have ok: "inode_ok x" using fs_bal_inode [OF bal es(1)] by simp
  note dir = inode_ok_dir [OF ok es(2)]
  show "inode_ok (x\<lparr>rf_mem := Dirents (es[i := e]), rf_size := n\<rparr>)" using dir by (simp add: inode_ok_def)
  show "rf_mode x = RAMFS_TYPE_DATA \<longrightarrow> vnodes s d \<noteq> None \<longrightarrow>
      rf_size (x\<lparr>rf_mem := Dirents (es[i := e]), rf_size := n\<rparr>) = rf_size x" using dir by simp
  have "\<forall>a \<in> set es. target_ok (rfs_inodes s) a" using fs_balD(4) [OF bal, of d] es by (simp add: entries_ok_def)
  then show "entries_ok (rfs_inodes s) (Some (x\<lparr>rf_mem := Dirents (es[i := e]), rf_size := n\<rparr>))"
    using t set_update_subset_insert [of es i e] by (auto simp: entries_ok_def)
  show "int (node_links (Some (x\<lparr>rf_mem := Dirents (es[i := e]), rf_size := n\<rparr>)) j) + k' j
      \<le> int (node_links (Some x) j) + k j
        + (if j = d then rf_linkcount (x\<lparr>rf_mem := Dirents (es[i := e]), rf_size := n\<rparr>) - rf_linkcount x else 0)" for j
    using ent_links_update [OF i, of j e] es(2) k' [of j] by (auto simp: node_links_def split: if_splits)
qed simp_all

lemma scan_entries_Some:
  "scan_entries p es = Some i \<longleftrightarrow> i < length es \<and> p (es ! i) \<and> (\<forall>j<i. \<not> p (es ! j))"
proof (induction es arbitrary: i)
  case (Cons e es)
  then show ?case by (cases i) (auto simp: nth_Cons' less_Suc_eq_0_disj)
qed simp

lemma scan_entries_None: "scan_entries p es = None \<longleftrightarrow> (\<forall>e \<in> set es. \<not> p e)"
  by (induction es) auto

definition proper :: "string \<Rightarrow> nat \<Rightarrow> bool" where
  "proper name len \<longleftrightarrow> 0 < len \<and> len \<le> length name \<and> take len name \<notin> {''.'', ''..''}"

lemma match_take: "name_match fname name len \<Longrightarrow> fname = take len name"
  by (auto simp: name_match_def)

lemma match_iff: "len \<le> length name \<Longrightarrow> name_match fname name len \<longleftrightarrow> fname = take len name"
  by (auto simp: name_match_def)

lemma match_named:
  assumes "proper name len" and "name_match (rd_name e) name len"
  shows "named e"
  using assms(1) match_take [OF assms(2)] by (auto simp: proper_def named_def)

lemma fs_bal_set_entry:
  assumes bal: "fs_bal k s" and run: "set_entry d i (int ino) name len s = Some s'"
    and es: "dirents_of s d = Some es" "free_entry es = Some i" and ino: "rfs_inodes s ino \<noteq> None"
  shows "fs_bal (k(ino := k ino - 1)) s'"
proof -
  obtain x where x: "rfs_inodes s d = Some x" "rf_mem x = Dirents es" using es(1) by (auto simp: dirents_of_Some)
  let ?e = "\<lparr>rd_ino = int ino, rd_name = take (min len 27) name\<rparr>"
  have s': "s' = put_inode d (Some (x\<lparr>rf_mem := Dirents (es[i := ?e]), rf_size := rf_size x + 32\<rparr>)) s"
    using run es(1) x by (simp add: set_entry_def mod_inode_def)
  have i: "i < length es" "\<not> named (es ! i)" using es(2) by (auto simp: free_entry_def scan_entries_Some named_def)
  show ?thesis unfolding s'
    by (rule fs_bal_entry [OF bal x i(1)]) (use i(2) ino in \<open>auto simp: target_ok_def\<close>)
qed

lemma fs_bal_clear_entry:
  assumes bal: "fs_bal k s" and run: "clear_entry d name len s = Some s'" and p: "proper name len"
    and es: "dirents_of s d = Some es" "scan_entries (\<lambda>e. name_match (rd_name e) name len) es = Some i"
  shows "fs_bal (k(nat (rd_ino (es ! i)) := k (nat (rd_ino (es ! i))) + 1)) s'"
proof -
  obtain x where x: "rfs_inodes s d = Some x" "rf_mem x = Dirents es" using es(1) by (auto simp: dirents_of_Some)
  have s': "s' = put_inode d (Some (x\<lparr>rf_mem := Dirents (es[i := (es ! i)\<lparr>rd_name := ''''\<rparr>]), rf_size := rf_size x - 32\<rparr>)) s"
    using run es x by (simp add: clear_entry_def mod_inode_def)
  have i: "i < length es" "named (es ! i)" using es(2) match_named [OF p] by (auto simp: scan_entries_Some)
  have "target_ok (rfs_inodes s) (es ! i)" using fs_balD(4) [OF bal, of d] x i(1) by (simp add: entries_ok_def)
  then have "0 \<le> rd_ino (es ! i)" using i(2) by (simp add: target_ok_def)
  then show ?thesis unfolding s'
    by (intro fs_bal_entry [OF bal x i(1)]) (use i(2) in \<open>auto simp: target_ok_def named_def\<close>)
qed

lemma fs_bal_linkcount:
  assumes bal: "fs_bal k s" and run: "mod_inode i (\<lambda>x. x\<lparr>rf_linkcount := rf_linkcount x + n\<rparr>) s = Some s'"
  shows "fs_bal (k(i := k i + n)) s'"
proof -
  obtain x where x: "rfs_inodes s i = Some x" and s': "s' = put_inode i (Some (x\<lparr>rf_linkcount := rf_linkcount x + n\<rparr>)) s"
    using run by (auto simp: mod_inode_def bind_Some_iff)
  show ?thesis unfolding s'
    using fs_bal_inode(3) [OF bal x] fs_balD(4) [OF bal, of i] x
    by (intro fs_bal_upd [OF bal x]) (auto simp: node_links_def entries_ok_def)
qed

section \<open>What the operations leave of a directory\<close>

lemma dirents_of_put_vnode [simp]: "dirents_of (put_vnode v x s) d = dirents_of s d"
  by (simp add: dirents_of_def put_vnode_def)

lemma dirents_of_put_inode:
  "dirents_of (put_inode i (Some x) s) d =
     (if d = i then (case rf_mem x of Dirents es \<Rightarrow> Some es | _ \<Rightarrow> None) else dirents_of s d)"
  by (simp add: dirents_of_def put_inode_def)

lemma dirents_of_upd [simp]:
  "dirents_of (s\<lparr>allocs := a\<rparr>) d = dirents_of s d" "dirents_of (s\<lparr>vnode_inuse_list := l\<rparr>) d = dirents_of s d"
  "dirents_of (s\<lparr>fs_root := r\<rparr>) d = dirents_of s d"
  by (simp_all add: dirents_of_def)

lemma dirents_of_vget:
  assumes "vget v s = Some s'"
  shows "dirents_of s' d = dirents_of s d"
proof (cases "vnodes s v")
  case None
  from vget_new [OF assms this] obtain x vn where "rfs_inodes s v = Some x"
    "s' = put_vnode v (Some vn) (put_inode v (Some (x\<lparr>rf_linkcount := rf_linkcount x + 1\<rparr>))
         (s\<lparr>allocs := drop 1 (dropWhile Not (allocs s)), vnode_inuse_list := v # vnode_inuse_list s\<rparr>))" by blast
  then show ?thesis by (simp add: dirents_of_put_inode) (simp add: dirents_of_def)
next
  case (Some vn)
  then show ?thesis using assms by (auto simp: vget_def vref_def split: if_splits)
qed

lemma vget_keeps_inodes:
  assumes "vget v s = Some s'"
  shows "rfs_inodes s' i \<noteq> None \<longleftrightarrow> rfs_inodes s i \<noteq> None"
proof (cases "vnodes s v")
  case None
  from vget_new [OF assms this] show ?thesis by (auto simp: put_vnode_def put_inode_def split: if_splits)
next
  case (Some vn)
  then show ?thesis using assms by (auto simp: vget_def vref_def put_vnode_def split: if_splits)
qed

lemma lookup_cases:
  assumes "ramfs_lookup d name len s = Some (r, res, s')"
  obtains "r = - ENOENT" and "res = None" and "s' = s"
  | es i where "dirents_of s d = Some es" and "scan_entries (\<lambda>e. name_match (rd_name e) name len) es = Some i"
      and "r = 0" and "res = Some (nat (rd_ino (es ! i)))" and "vget (nat (rd_ino (es ! i))) s = Some s'"
  using assms by (auto simp: ramfs_lookup_def bind_Some_iff Let_def split: option.splits)

lemma assert_absentD:
  assumes "assert_absent d name len s = Some u"
  shows "\<exists>es. dirents_of s d = Some es \<and> scan_entries (\<lambda>e. name_match (rd_name e) name len) es = None"
  using assms by (fastforce simp: assert_absent_def ramfs_lookup_def bind_Some_iff Let_def split: option.splits)

section \<open>The operations keep the invariant\<close>

lemma no_surplus [simp]: "(\<lambda>_. 0)(n := 0) = (\<lambda>_. 0)"
  by auto

lemma fs_bal_lookup: "fs_bal k s \<Longrightarrow> ramfs_lookup d name len s = Some (r, res, s') \<Longrightarrow> fs_bal k s'"
  by (erule lookup_cases) (auto intro: fs_bal_vget)

lemma fs_bal_create:
  assumes bal: "fs_inv s" and run: "ramfs_create d name len s = Some (r, res, s')"
  shows "fs_inv s'"
proof -
  obtain es where es: "dirents_of s d = Some es" using run by (auto simp: ramfs_create_def bind_Some_iff)
  show ?thesis
  proof (cases "free_entry es")
    case None
    then show ?thesis using run es bal by (auto simp: ramfs_create_def bind_Some_iff)
  next
    case (Some i)
    obtain ino s1 where al: "ramfs_alloc_inode RAMFS_TYPE_DATA 0 s = (ino, s1)" by fastforce
    from al show ?thesis
    proof (cases rule: alloc_inode_cases)
      case 1
      then show ?thesis using run es Some al bal by (auto simp: ramfs_create_def bind_Some_iff)
    next
      case (2 n a)
      have b1: "fs_bal ((\<lambda>_. 0)(n := 1)) s1"
        unfolding 2(4) by (rule fs_bal_new_inode) (use bal 2 in simp_all)
      obtain s2 where g: "vget n s1 = Some s2" and se: "set_entry d i (int n) name len s2 = Some s'"
        using run es Some al 2(1) by (auto simp: ramfs_create_def bind_Some_iff)
      have "d \<noteq> n" using es 2(3) by (auto simp: dirents_of_Some)
      then have es2: "dirents_of s2 d = Some es" using es by (simp add: dirents_of_vget [OF g] 2(4) dirents_of_put_inode)
      have "rfs_inodes s2 n \<noteq> None" by (simp only: vget_keeps_inodes [OF g]) (simp add: 2(4) put_inode_def)
      from fs_bal_set_entry [OF fs_bal_vget [OF b1 g] se es2 Some this] show ?thesis by simp
    qed
  qed
qed

lemma fs_bal_mknod:
  assumes bal: "fs_inv s" and run: "ramfs_mknod d name len mode dv s = Some (r, s')"
  shows "fs_inv s'"
proof -
  obtain es where es: "dirents_of s d = Some es" using run by (auto simp: ramfs_mknod_def bind_Some_iff)
  show ?thesis
  proof (cases "free_entry es")
    case None
    then show ?thesis using run es bal by (auto simp: ramfs_mknod_def bind_Some_iff)
  next
    case (Some i)
    obtain ino s1 where al: "ramfs_alloc_inode (if S_ISCHR mode then RAMFS_TYPE_CHR else RAMFS_TYPE_BLK) dv s = (ino, s1)"
      by fastforce
    from al show ?thesis
    proof (cases rule: alloc_inode_cases)
      case 1
      then show ?thesis using run es Some al bal by (auto simp: ramfs_mknod_def bind_Some_iff)
    next
      case (2 n a)
      have b1: "fs_bal ((\<lambda>_. 0)(n := 1)) s1"
        unfolding 2(4) by (rule fs_bal_new_inode) (use bal 2 in simp_all)
      have se: "set_entry d i (int n) name len s1 = Some s'"
        using run es Some al 2(1) by (auto simp: ramfs_mknod_def bind_Some_iff)
      have "d \<noteq> n" using es 2(3) by (auto simp: dirents_of_Some)
      then have es1: "dirents_of s1 d = Some es" using es by (simp add: 2(4) dirents_of_put_inode)
      have "rfs_inodes s1 n \<noteq> None" by (simp add: 2(4) put_inode_def)
      from fs_bal_set_entry [OF b1 se es1 Some this] show ?thesis by simp
    qed
  qed
qed

lemma fs_bal_link:
  assumes bal: "fs_inv s" and old: "rfs_inodes s old \<noteq> None"
    and run: "ramfs_link old d name len s = Some (r, s')"
  shows "fs_inv s'"
proof -
  obtain es where es: "dirents_of s d = Some es" using run by (auto simp: ramfs_link_def bind_Some_iff)
  show ?thesis
  proof (cases "free_entry es")
    case None
    then show ?thesis using run es bal by (auto simp: ramfs_link_def bind_Some_iff)
  next
    case (Some i)
    obtain s1 where se: "set_entry d i (int old) name len s = Some s1"
      and lc: "mod_inode old (\<lambda>x. x\<lparr>rf_linkcount := rf_linkcount x + 1\<rparr>) s1 = Some s'"
      using run es Some by (auto simp: ramfs_link_def bind_Some_iff)
    from fs_bal_linkcount [OF fs_bal_set_entry [OF bal se es Some old] lc] show ?thesis by simp
  qed
qed

lemma fs_bal_drop_entry:
  assumes bal: "fs_inv s" and p: "proper name len"
    and look: "ramfs_lookup d name len s = Some (0, Some v, s1)"
    and clr: "clear_entry d name len s1 = Some s2"
    and lc: "mod_inode v (\<lambda>x. x\<lparr>rf_linkcount := rf_linkcount x - 1\<rparr>) s2 = Some s3" and put: "vput v s3 = Some s'"
  shows "fs_inv s'"
  using look
proof (cases rule: lookup_cases)
  case (2 es i)
  have b1: "fs_inv s1" by (rule fs_bal_vget [OF bal 2(5)])
  have "dirents_of s1 d = Some es" using 2(1) by (simp add: dirents_of_vget [OF 2(5)])
  from fs_bal_clear_entry [OF b1 clr p this 2(2)] 2(4) have b2: "fs_bal ((\<lambda>_. 0)(v := 1)) s2" by simp
  have "mod_inode v (\<lambda>x. x\<lparr>rf_linkcount := rf_linkcount x + (- 1)\<rparr>) s2 = Some s3" using lc by simp
  from fs_bal_linkcount [OF b2 this] have "fs_inv s3" by simp
  then show ?thesis by (rule fs_bal_vput [OF _ _ put]) simp
qed simp

lemma fs_bal_unlink:
  assumes bal: "fs_inv s" and p: "proper name len" and run: "ramfs_unlink d name len s = Some (r, s')"
  shows "fs_inv s'"
proof -
  obtain v s1 s2 s3 where "ramfs_lookup d name len s = Some (0, Some v, s1)" "clear_entry d name len s1 = Some s2"
    "mod_inode v (\<lambda>x. x\<lparr>rf_linkcount := rf_linkcount x - 1\<rparr>) s2 = Some s3" "vput v s3 = Some s'"
    using run by (auto simp: ramfs_unlink_def bind_Some_iff)
  then show ?thesis by (rule fs_bal_drop_entry [OF bal p])
qed

lemma put_inode_put [simp]: "put_inode d y (put_inode d x s) = put_inode d y s"
  by (simp add: put_inode_def)

lemma fs_bal_fill_dots:
  assumes bal: "fs_bal k s" and run: "fill_dots d p s = Some s'"
    and es: "dirents_of s d = Some es" "\<forall>e \<in> set es. \<not> named e"
  shows "fs_bal k s'"
proof -
  obtain x where x: "rfs_inodes s d = Some x" "rf_mem x = Dirents es" using es(1) by (auto simp: dirents_of_Some)
  have len: "length es = RAMFS_MAX_DIRENT" using inode_ok_dir [OF fs_bal_inode(3) [OF bal x(1)] x(2)] by simp
  let ?e0 = "\<lparr>rd_ino = int d, rd_name = ''.''\<rparr>" and ?e1 = "\<lparr>rd_ino = int p, rd_name = ''..''\<rparr>"
  have dots: "\<not> named ?e0" "\<not> named ?e1" by (simp_all add: named_def)
  let ?y = "x\<lparr>rf_mem := Dirents (es[0 := ?e0]), rf_size := 64\<rparr>"
  have es': "\<not> named (es ! 0)" "\<not> named (es[0 := ?e0] ! 1)" using es(2) len by (auto simp: nth_list_update)
  have b1: "fs_bal k (put_inode d (Some ?y) s)"
    by (rule fs_bal_entry [OF bal x]) (use len dots es' in \<open>auto simp: target_ok_def\<close>)
  have "fs_bal k (put_inode d (Some (?y\<lparr>rf_mem := Dirents (es[0 := ?e0, 1 := ?e1]), rf_size := 64\<rparr>)) (put_inode d (Some ?y) s))"
    by (rule fs_bal_entry [OF b1, where es = "es[0 := ?e0]"])
      (use len dots es' in \<open>auto simp: target_ok_def put_inode_def\<close>)
  moreover have "s' = put_inode d (Some (x\<lparr>rf_mem := Dirents (es[0 := ?e0, 1 := ?e1]), rf_size := 64\<rparr>)) s"
    using run es(1) x by (simp add: fill_dots_def mod_inode_def dot_entries_def)
  ultimately show ?thesis by simp
qed

lemma fs_bal_mkdir:
  assumes bal: "fs_inv s" and run: "ramfs_mkdir d name len s = Some (r, s')"
  shows "fs_inv s'"
proof -
  obtain es where es: "dirents_of s d = Some es" using run by (auto simp: ramfs_mkdir_def bind_Some_iff)
  show ?thesis
  proof (cases "free_entry es")
    case None
    then show ?thesis using run es bal by (auto simp: ramfs_mkdir_def bind_Some_iff)
  next
    case (Some i)
    obtain ino s1 where al: "ramfs_alloc_inode RAMFS_TYPE_DIR 0 s = (ino, s1)" by fastforce
    from al show ?thesis
    proof (cases rule: alloc_inode_cases)
      case 1
      then show ?thesis using run es Some al bal by (auto simp: ramfs_mkdir_def bind_Some_iff)
    next
      case (2 n a)
      have b1: "fs_bal ((\<lambda>_. 0)(n := 1)) s1"
        unfolding 2(4) by (rule fs_bal_new_inode) (use bal 2 in simp_all)
      obtain s2 where se: "set_entry d i (int n) name len s1 = Some s2" and fd: "fill_dots n d s2 = Some s'"
        using run es Some al 2(1) by (auto simp: ramfs_mkdir_def bind_Some_iff)
      have dn: "d \<noteq> n" using es 2(3) by (auto simp: dirents_of_Some)
      then have es1: "dirents_of s1 d = Some es" using es by (simp add: 2(4) dirents_of_put_inode)
      have "rfs_inodes s1 n \<noteq> None" by (simp add: 2(4) put_inode_def)
      from fs_bal_set_entry [OF b1 se es1 Some this] have b2: "fs_inv s2" by simp
      have "dirents_of s2 n = Some (replicate RAMFS_MAX_DIRENT empty_dirent)"
        using se dn by (auto simp: set_entry_def mod_inode_def bind_Some_iff dirents_of_put_inode)
          (simp add: 2(4) dirents_of_put_inode new_inode_def)
      then show ?thesis by (rule fs_bal_fill_dots [OF b2 fd]) (simp add: named_def empty_dirent_def)
    qed
  qed
qed

lemma fs_bal_rmdir:
  assumes bal: "fs_inv s" and len: "0 < len" "len \<le> length name" and run: "ramfs_rmdir d name len s = Some (r, s')"
  shows "fs_inv s'"
proof -
  have "\<not> name_match ''.'' name len \<and> \<not> name_match ''..'' name len" using run by (simp add: ramfs_rmdir_def)
  then have p: "proper name len" using len by (auto simp: match_iff proper_def)
  obtain ret res s1 where look: "ramfs_lookup d name len s = Some (ret, res, s1)"
    using run by (auto simp: ramfs_rmdir_def bind_Some_iff)
  have b1: "fs_inv s1" by (rule fs_bal_lookup [OF bal look])
  show ?thesis
  proof (cases "ret = 0")
    case False
    then show ?thesis using run look b1 by (auto simp: ramfs_rmdir_def bind_Some_iff)
  next
    case True
    then obtain v where res: "res = Some v" using look by (auto elim: lookup_cases)
    consider "vput v s1 = Some s'"
      | s2 s3 where "clear_entry d name len s1 = Some s2"
        "mod_inode v (\<lambda>x. x\<lparr>rf_linkcount := rf_linkcount x - 1\<rparr>) s2 = Some s3" "vput v s3 = Some s'"
      using run look True res by (auto simp: ramfs_rmdir_def bind_Some_iff split: if_splits)
    then show ?thesis
    proof cases
      case 1
      show ?thesis by (rule fs_bal_vput [OF b1 _ 1]) simp
    next
      case 2
      then show ?thesis using fs_bal_drop_entry [OF bal p] look True res by blast
    qed
  qed
qed

lemma fs_bal_write:
  assumes bal: "fs_bal k s" and run: "ramfs_write v off buf cnt s = Some (r, s')"
  shows "fs_bal k s'"
proof -
  obtain vn x mem where vn: "vnodes s v = Some vn" and x: "rfs_inodes s v = Some x" and mem: "rf_mem x = Bytes mem"
    using run by (auto simp: ramfs_write_def bind_Some_iff file_bytes_def split: rf_mem.splits)
  have ok: "inode_ok x" "vnode_ok v vn x" using fs_bal_inode [OF bal x] fs_bal_vnode [OF bal vn] x by auto
  define len where "len = max (vn_len vn) (off + min (sint cnt) (4096 - off))"
  obtain mem' where m': "copy_in mem (nat off) (take (nat (min (sint cnt) (4096 - off))) buf) = Some mem'"
    and s': "s' = put_inode v (Some (x\<lparr>rf_mem := Bytes mem', rf_size := len\<rparr>)) (put_vnode v (Some (vn\<lparr>vn_len := len\<rparr>)) s)"
    using run vn x mem
    by (auto simp: ramfs_write_def bind_Some_iff file_bytes_def Let_def mod_inode_def put_vnode_def len_def)
  have d: "rf_mode x = RAMFS_TYPE_DATA" "length mem' = 4096"
    using ok(1) mem copy_in_out(2) [OF m'] by (auto simp: inode_ok_def split: rf_type.splits)
  have len: "0 \<le> len" "len \<le> 4096" using ok d(1) mem by (auto simp: len_def vnode_ok_def inode_ok_def)
  let ?x = "x\<lparr>rf_mem := Bytes mem', rf_size := len\<rparr>"
  have ls: "link_sum ((rfs_inodes s)(v := Some ?x)) = link_sum (rfs_inodes s)"
    by (rule link_sum_same) (simp add: x mem)
  have "covers k s' i" for i
    using fs_balD(2) [OF bal, of i] ls x vn by (auto simp: covers_def s' put_inode_def put_vnode_def split: option.splits)
  moreover have "slot_ok i (rfs_inodes s' i)" for i
    using fs_balD(1) [OF bal, of i] x d len by (auto simp: slot_ok_def s' put_inode_def put_vnode_def inode_ok_def)
  moreover have "core_ok s' w" for w
    using fs_balD(3) [OF bal, of w] ok(2) x d by (auto simp: core_ok_def s' put_inode_def put_vnode_def vnode_ok_def split: option.splits)
  moreover have "entries_ok (rfs_inodes s') (rfs_inodes s' e)" for e
    using slot_present [OF fs_balD(4) [OF bal, of e], of v "Some ?x"] x
    by (auto simp: s' put_inode_def put_vnode_def entries_ok_def)
  ultimately show ?thesis using fs_balD(5-7) [OF bal] vn by (auto simp: fs_bal_def s' put_inode_def put_vnode_def)
qed

section \<open>Mounting establishes the invariant\<close>

lemma fs_inv_root:
  assumes "vnodes s = (\<lambda>_. None)" and "vnode_inuse_list s = []" and "rfs_inodes s = (\<lambda>_. None)"
  shows "fs_inv (put_inode 0 (Some (new_inode 0 RAMFS_TYPE_DIR dv)) s)" (is "fs_inv ?s")
proof -
  have "link_sum (rfs_inodes ?s) i = 0" for i
    by (simp add: link_sum_def put_inode_def assms new_inode_ok)
  then have "covers (\<lambda>_. 0) ?s i" for i by (simp add: covers_def put_inode_def assms new_inode_ok)
  moreover have "slot_ok i (rfs_inodes ?s i)" for i by (simp add: slot_ok_def put_inode_def assms new_inode_ok)
  moreover have "core_ok ?s v" for v by (simp add: core_ok_def put_inode_def assms)
  moreover have "entries_ok (rfs_inodes ?s) (rfs_inodes ?s d)" for d
    by (simp add: put_inode_def assms new_inode_ok) (simp add: entries_ok_def)
  ultimately show ?thesis by (simp add: fs_bal_def put_inode_def assms)
qed

lemma fs_inv_mount:
  assumes "vnodes s = (\<lambda>_. None)" and "vnode_inuse_list s = []" and run: "ramfs_mount s = Some (0, s')"
  shows "fs_inv s' \<and> fs_root s' = 0 \<and> (\<exists>vn. vnodes s' 0 = Some vn \<and> vn_refcount vn = 1 \<and> vn_nrespages vn = 0)"
proof -
  obtain a ok where k: "kalloc s = (ok, s\<lparr>allocs := a\<rparr>)" by (metis kalloc_state prod.collapse)
  let ?s = "s\<lparr>allocs := a, rfs_inodes := (\<lambda>_. None)\<rparr>"
  obtain ino s1 where al: "ramfs_alloc_inode RAMFS_TYPE_DIR 0 ?s = (ino, s1)" by fastforce
  from al show ?thesis
  proof (cases rule: alloc_inode_cases)
    case 1
    then show ?thesis using run k al by (auto simp: ramfs_mount_def split: if_splits)
  next
    case (2 n b)
    obtain s2 s3 where n0: "n = 0" and fd: "fill_dots 0 0 s1 = Some s2" and g: "vget 0 s2 = Some s3"
      and s': "s' = s3\<lparr>fs_root := 0\<rparr>"
      using run k al 2(1) by (auto simp: ramfs_mount_def bind_Some_iff split: if_splits)
    have "fs_inv s1" unfolding 2(4) n0 by (rule fs_inv_root) (simp_all add: assms)
    moreover have "dirents_of s1 0 = Some (replicate RAMFS_MAX_DIRENT empty_dirent)"
      by (simp add: 2(4) n0 dirents_of_put_inode new_inode_def)
    ultimately have "fs_inv s2" by (rule fs_bal_fill_dots [OF _ fd]) (simp add: named_def empty_dirent_def)
    then have "fs_inv s3" by (rule fs_bal_vget [OF _ g])
    moreover have "vnodes s2 = vnodes s1" using fd by (auto simp: fill_dots_def mod_inode_def bind_Some_iff put_inode_def)
    then have "vnodes s2 0 = None" using assms by (simp add: 2(4) put_inode_def)
    from vget_new [OF g this] have "\<exists>vn. vnodes s3 0 = Some vn \<and> vn_refcount vn = 1 \<and> vn_nrespages vn = 0"
      by (auto simp: put_vnode_def)
    ultimately show ?thesis by (simp add: s')
  qed
qed

section \<open>Runs of the file system\<close>

text \<open>
  What can happen to a mounted file system: references to vnodes are taken and dropped, and
  the vnode operations are called.  The removing operations are called with the names the
  path walk passes, which are not empty, a file is not unlinked by one of the dots, and a link is made
  to an inode that is allocated.
\<close>

inductive fs_step :: "'a fsys_scheme \<Rightarrow> 'a fsys_scheme \<Rightarrow> bool" where
  Get: "vget v s = Some s' \<Longrightarrow> fs_step s s'"
| Ref: "vref v s = Some s' \<Longrightarrow> fs_step s s'"
| Put: "vput v s = Some s' \<Longrightarrow> fs_step s s'"
| Look: "ramfs_lookup d name len s = Some (r, res, s') \<Longrightarrow> fs_step s s'"
| Create: "ramfs_create d name len s = Some (r, res, s') \<Longrightarrow> fs_step s s'"
| Mknod: "ramfs_mknod d name len mode dv s = Some (r, s') \<Longrightarrow> fs_step s s'"
| Link: "rfs_inodes s old \<noteq> None \<Longrightarrow> ramfs_link old d name len s = Some (r, s') \<Longrightarrow> fs_step s s'"
| Unlink: "proper name len \<Longrightarrow> ramfs_unlink d name len s = Some (r, s') \<Longrightarrow> fs_step s s'"
| Mkdir: "ramfs_mkdir d name len s = Some (r, s') \<Longrightarrow> fs_step s s'"
| Rmdir: "0 < len \<Longrightarrow> len \<le> length name \<Longrightarrow> ramfs_rmdir d name len s = Some (r, s') \<Longrightarrow> fs_step s s'"
| Write: "ramfs_write v off buf cnt s = Some (r, s') \<Longrightarrow> fs_step s s'"

lemma fs_step_inv: "fs_step s s' \<Longrightarrow> fs_inv s \<Longrightarrow> fs_inv s'"
  by (induction rule: fs_step.induct)
    (blast intro: fs_bal_vget fs_bal_vref fs_bal_vput [where k = "\<lambda>_. 0", OF _ order_refl] fs_bal_lookup
      fs_bal_create fs_bal_mknod fs_bal_link fs_bal_unlink fs_bal_mkdir fs_bal_rmdir fs_bal_write)+

lemma fs_run_inv: "fs_step\<^sup>*\<^sup>* s s' \<Longrightarrow> fs_inv s \<Longrightarrow> fs_inv s'"
  by (induction rule: rtranclp_induct) (auto intro: fs_step_inv)

lemma named_entry_links:
  assumes bal: "fs_bal k s" and es: "dirents_of s d = Some es" "e \<in> set es" "named e"
  shows "\<exists>x. rfs_inodes s (nat (rd_ino e)) = Some x \<and> int (link_sum (rfs_inodes s) (nat (rd_ino e))) + k (nat (rd_ino e)) \<le> rf_linkcount x
     \<and> 0 < link_sum (rfs_inodes s) (nat (rd_ino e))"
proof -
  obtain z where z: "rfs_inodes s d = Some z" "rf_mem z = Dirents es" using es(1) by (auto simp: dirents_of_Some)
  have t: "0 \<le> rd_ino e" "rfs_inodes s (nat (rd_ino e)) \<noteq> None"
    using fs_balD(4) [OF bal, of d] z es by (auto simp: entries_ok_def target_ok_def)
  then obtain x where x: "rfs_inodes s (nat (rd_ino e)) = Some x" by blast
  moreover have "0 < link_sum (rfs_inodes s) (nat (rd_ino e))"
    using link_sum_pos [of d "rfs_inodes s" z es e "nat (rd_ino e)"] fs_bal_inode(1) [OF bal z(1)] z es(2,3) t(1) by simp
  ultimately show ?thesis
    using fs_balD(2) [OF bal, of "nat (rd_ino e)"] by (auto simp: covers_def split: if_splits)
qed

text \<open>A file system before it is mounted.\<close>

definition unmounted :: fsys where
  "unmounted = \<lparr>rfs_inodes = (\<lambda>_. None), vnodes = (\<lambda>_. None), vnode_inuse_list = [], fs_root = 0,
     bytedevs = [], blockdevs = [], allocs = []\<rparr>"

text \<open>
  C17. In every state a freshly mounted file system can get to by operations of which none unlinks
  \<^verbatim>\<open>.\<close> or \<^verbatim>\<open>..\<close>, links an inode that is not allocated or removes a
  directory by an empty name, each directory entry in use other than \<^verbatim>\<open>.\<close> and
  \<^verbatim>\<open>..\<close> leads to an allocated inode, and that inode's link count is at least the
  number of all such entries naming it.  Of \<^verbatim>\<open>..\<close> this is not true: the entry of a
  directory that was removed while a vnode holds it stays, and its parent can be removed, and freed,
  after it.
\<close>

theorem ramfs_no_dangling:
  assumes "vnodes s0 = (\<lambda>_. None)" and "vnode_inuse_list s0 = []" and "ramfs_mount s0 = Some (0, s)" and "fs_step\<^sup>*\<^sup>* s s'"
    and "dirents_of s' d = Some es" and "e \<in> set es" and "rd_name e \<notin> {'''', ''.'', ''..''}"
  shows "\<exists>x. rfs_inodes s' (nat (rd_ino e)) = Some x \<and> int (link_sum (rfs_inodes s') (nat (rd_ino e))) \<le> rf_linkcount x
     \<and> 0 < link_sum (rfs_inodes s') (nat (rd_ino e))"
  using fs_inv_mount [OF assms(1-3)] fs_run_inv [OF assms(4)] named_entry_links [OF _ assms(5,6) assms(7) [folded named_def], of "\<lambda>_. 0"] by auto

definition mounted :: fsys where
  "mounted = unmounted\<lparr>
     rfs_inodes := [0 \<mapsto> \<lparr>rf_size = 64, rf_ino = 0,
       rf_mem = Dirents (dot_entries 0 0 (replicate RAMFS_MAX_DIRENT empty_dirent)), rf_mode = RAMFS_TYPE_DIR, rf_linkcount = 2\<rparr>],
     vnodes := [0 \<mapsto> (blank_vnode 0)\<lparr>vn_ops := Some Ramfs_dir, vn_mode := S_IFDIR, vn_len := 64, vn_refcount := 1\<rparr>],
     vnode_inuse_list := [0]\<rparr>"

lemma kalloc_unlimited: "kalloc unmounted = (True, unmounted)" "kalloc mounted = (True, mounted)"
  by (simp_all add: kalloc_def unmounted_def mounted_def)

lemma mount_unmounted: "ramfs_mount unmounted = Some (0, mounted)"
proof -
  have "find (\<lambda>i. rfs_inodes unmounted i = None) [0..<RAMFS_MAX_FILES] = Some 0"
    by (rule find_first) (simp_all add: unmounted_def)
  then have "ramfs_alloc_inode RAMFS_TYPE_DIR 0 unmounted = (0, put_inode 0 (Some (new_inode 0 RAMFS_TYPE_DIR 0)) unmounted)"
    by (simp add: ramfs_alloc_inode_def kalloc_unlimited del: upt_rec_numeral)
  moreover have "unmounted\<lparr>rfs_inodes := \<lambda>_. None\<rparr> = unmounted" by (simp add: unmounted_def)
  ultimately show ?thesis
    by (simp add: ramfs_mount_def kalloc_def unmounted_def mounted_def fill_dots_def dirents_of_def mod_inode_def
        put_inode_def put_vnode_def new_inode_def vget_def ramfs_read_vnode_def blank_vnode_def Let_def)
qed

lemma mounted_root: "dirents_of mounted 0 = Some (dot_entries 0 0 (replicate RAMFS_MAX_DIRENT empty_dirent))"
  by (simp add: mounted_def dirents_of_def)

lemma fs_inv_mounted: "fs_inv mounted"
  using fs_inv_mount [OF _ _ mount_unmounted] by (simp add: unmounted_def)

text \<open>Creating a file in the fresh root directory takes its third entry and the inode 1.\<close>

lemma fresh_root_entries:
  assumes "\<not> name_match '''' name len" and "\<not> name_match ''.'' name len" and "\<not> name_match ''..'' name len"
  shows "scan_entries (\<lambda>e. name_match (rd_name e) name len) (dot_entries 0 0 (replicate RAMFS_MAX_DIRENT empty_dirent)) = None"
    and "free_entry (dot_entries 0 0 (replicate RAMFS_MAX_DIRENT empty_dirent)) = Some 2"
proof -
  have "rd_name e \<in> {'''', ''.'', ''..''}" if "e \<in> set (dot_entries 0 0 (replicate RAMFS_MAX_DIRENT empty_dirent))" for e
    using that by (auto simp: dot_entries_def empty_dirent_def in_set_conv_nth nth_list_update split: if_splits)
  then show "scan_entries (\<lambda>e. name_match (rd_name e) name len) (dot_entries 0 0 (replicate RAMFS_MAX_DIRENT empty_dirent)) = None"
    using assms by (fastforce simp: scan_entries_None)
  show "free_entry (dot_entries 0 0 (replicate RAMFS_MAX_DIRENT empty_dirent)) = Some 2"
    by (auto simp: free_entry_def scan_entries_Some dot_entries_def empty_dirent_def nth_list_update less_2_cases_iff numeral_2_eq_2
        less_Suc_eq)
qed

lemma create_in_mounted:
  "\<exists>s'. ramfs_create 0 ''a'' 1 mounted = Some (0, Some 1, s')
     \<and> dirents_of s' 0 = Some ((dot_entries 0 0 (replicate RAMFS_MAX_DIRENT empty_dirent))[2 := \<lparr>rd_ino = 1, rd_name = ''a''\<rparr>])"
proof -
  note e = fresh_root_entries [of "''a''" 1]
  have nm: "\<not> name_match '''' ''a'' 1" "\<not> name_match ''.'' ''a'' 1" "\<not> name_match ''..'' ''a'' 1"
    by (simp_all add: name_match_def)
  have "find (\<lambda>i. rfs_inodes mounted i = None) [0..<RAMFS_MAX_FILES] = Some 1"
    by (rule find_first) (simp_all add: mounted_def)
  then have al: "ramfs_alloc_inode RAMFS_TYPE_DATA 0 mounted = (1, put_inode 1 (Some (new_inode 1 RAMFS_TYPE_DATA 0)) mounted)"
    by (simp add: ramfs_alloc_inode_def kalloc_unlimited del: upt_rec_numeral)
  have abs: "assert_absent 0 ''a'' 1 mounted = Some ()"
    using e(1) nm by (simp add: assert_absent_def ramfs_lookup_def mounted_root KASSERT_def)
  obtain s2 where g: "vget 1 (put_inode 1 (Some (new_inode 1 RAMFS_TYPE_DATA 0)) mounted) = Some s2"
    by (simp add: vget_def mounted_def unmounted_def put_inode_def ramfs_read_vnode_def new_inode_def blank_vnode_def Let_def)
  have d2: "dirents_of s2 0 = Some (dot_entries 0 0 (replicate RAMFS_MAX_DIRENT empty_dirent))"
    by (simp add: dirents_of_vget [OF g] dirents_of_put_inode mounted_root)
  then obtain x where x: "rfs_inodes s2 0 = Some x" by (auto simp: dirents_of_Some)
  show ?thesis
    using e(2) nm abs al g d2 x
    by (simp add: ramfs_create_def mounted_root set_entry_def mod_inode_def dirents_of_put_inode)
qed

theorem ramfs_no_dangling_witness:
  "\<exists>s' x. ramfs_create 0 ''a'' 1 mounted = Some (0, Some 1, s') \<and> rfs_inodes s' 1 = Some x \<and> 1 \<le> rf_linkcount x"
proof -
  let ?es = "(dot_entries 0 0 (replicate RAMFS_MAX_DIRENT empty_dirent))[2 := \<lparr>rd_ino = 1, rd_name = ''a''\<rparr>]"
  obtain s' where run: "ramfs_create 0 ''a'' 1 mounted = Some (0, Some 1, s')" and es: "dirents_of s' 0 = Some ?es"
    using create_in_mounted by blast
  have "fs_step mounted s'" by (rule fs_step.Create [OF run])
  then have step: "fs_step\<^sup>*\<^sup>* mounted s'" by blast
  have e: "\<lparr>rd_ino = 1, rd_name = ''a''\<rparr> \<in> set ?es"
    by (rule set_update_memI) (simp add: dot_entries_def)
  have "rd_name \<lparr>rd_ino = 1, rd_name = ''a''\<rparr> \<notin> {'''', ''.'', ''..''}" by simp
  from ramfs_no_dangling [OF _ _ mount_unmounted step es e this] run show ?thesis by (fastforce simp: unmounted_def)
qed

end
