(* ===== verification/RamfsProps.thy ===== *)
theory RamfsProps
imports RamfsInv
begin

text \<open>
  What the operations of the memory file system do: a created file is found again (unless
  its name is too long), what is written is read back, a listing visits every entry once.
\<close>

section \<open>Creating and finding\<close>

lemma create_effect:
  assumes inv: "fs_inv s" and run: "ramfs_create d name len s = Some (0, Some v, s')"
  shows "\<exists>es i vn. dirents_of s d = Some es \<and> scan_entries (\<lambda>e. name_match (rd_name e) name len) es = None
    \<and> free_entry es = Some i \<and> rfs_inodes s v = None
    \<and> dirents_of s' d = Some (es[i := \<lparr>rd_ino = int v, rd_name = take (min len 27) name\<rparr>])
    \<and> vnodes s' v = Some vn \<and> vn_refcount vn = 1 \<and> vn_nrespages vn = 0 \<and> vn_mode vn = S_IFREG \<and> \<not> vn_busy vn \<and> vn_len vn = 0"
proof -
  obtain u where "assert_absent d name len s = Some u" using run by (auto simp: ramfs_create_def bind_Some_iff)
  then obtain es where es: "dirents_of s d = Some es" and abs: "scan_entries (\<lambda>e. name_match (rd_name e) name len) es = None"
    using assert_absentD by blast
  obtain ino s1 where al: "ramfs_alloc_inode RAMFS_TYPE_DATA 0 s = (ino, s1)" by fastforce
  obtain i s2 where i: "free_entry es = Some i" and ino: "0 \<le> ino" "v = nat ino" and g: "vget v s1 = Some s2"
    and se: "set_entry d i ino name len s2 = Some s'"
    using run es al by (auto simp: ramfs_create_def bind_Some_iff split: option.splits if_splits)
  from al show ?thesis
  proof (cases rule: alloc_inode_cases)
    case 1
    then show ?thesis using ino by simp
  next
    case (2 n a)
    have nv: "n = v" using 2(1) ino by simp
    have dv: "d \<noteq> v" using es 2(3) nv by (auto simp: dirents_of_Some)
    have none: "vnodes s1 v = None"
      using fs_balD(3) [OF inv, of v] 2(3) nv by (auto simp: 2(4) core_ok_def put_inode_def split: option.splits)
    obtain x vn where x: "rfs_inodes s1 v = Some x" and vn: "vn_refcount vn = 1" "vn_nrespages vn = 0"
        "vnode_ok v vn (x\<lparr>rf_linkcount := rf_linkcount x + 1\<rparr>)" "vnodes s2 v = Some vn"
      using vget_new [OF g none] by (auto simp: put_vnode_def)
    have "x = new_inode v RAMFS_TYPE_DATA 0" using x nv by (simp add: 2(4) put_inode_def)
    then have "vn_mode vn = S_IFREG" "\<not> vn_busy vn" "vn_len vn = 0" using vn(3) by (auto simp: vnode_ok_def new_inode_def)
    moreover have "dirents_of s2 d = Some es" using es dv nv by (simp add: dirents_of_vget [OF g] 2(4) dirents_of_put_inode)
    then have "dirents_of s' d = Some (es[i := \<lparr>rd_ino = int v, rd_name = take (min len 27) name\<rparr>])" "vnodes s' = vnodes s2"
      using se 2(1) nv by (auto simp: set_entry_def mod_inode_def bind_Some_iff dirents_of_put_inode) (simp add: put_inode_def)
    ultimately show ?thesis using es abs i 2(3) nv vn by auto
  qed
qed

lemma scan_update:
  assumes none: "scan_entries p es = None" and i: "i < length es"
  shows "scan_entries p (es[i := e]) = (if p e then Some i else None)"
proof (cases "p e")
  case True
  have "\<not> p (es ! j)" if "j < length es" for j using none that by (simp add: scan_entries_None)
  then show ?thesis using True i by (auto simp: scan_entries_Some nth_list_update)
next
  case False
  then show ?thesis using none set_update_subset_insert [of es i e] by (auto simp: scan_entries_None)
qed

text \<open>
  C20. A file that was created is a fresh inode with an empty regular file in core, and
  looking its name up finds it and takes a second reference, provided the name has at most
  27 characters; a longer name is cut when it is stored, and in the state the call leaves no lookup
  of it succeeds.
\<close>

theorem ramfs_create_lookup:
  assumes "fs_inv s" and "0 < len" "len \<le> length name" and "ramfs_create d name len s = Some (0, Some v, s')"
  shows "rfs_inodes s v = None
    \<and> (\<exists>vn. vnodes s' v = Some vn \<and> vn_refcount vn = 1 \<and> vn_mode vn = S_IFREG \<and> vn_len vn = 0
       \<and> ramfs_lookup d name len s' =
          (if len \<le> 27 then Some (0, Some v, put_vnode v (Some (vn\<lparr>vn_refcount := 2\<rparr>)) s') else Some (- ENOENT, None, s')))"
proof -
  obtain es i vn where es: "scan_entries (\<lambda>e. name_match (rd_name e) name len) es = None" "free_entry es = Some i"
      "dirents_of s' d = Some (es[i := \<lparr>rd_ino = int v, rd_name = take (min len 27) name\<rparr>])"
    and new: "rfs_inodes s v = None" and vn: "vnodes s' v = Some vn" "vn_refcount vn = 1" "vn_mode vn = S_IFREG" "\<not> vn_busy vn" "vn_len vn = 0"
    using create_effect [OF assms(1,4)] by blast
  have i: "i < length es" using es(2) by (simp add: free_entry_def scan_entries_Some)
  have m: "name_match (take (min len 27) name) name len \<longleftrightarrow> len \<le> 27"
    using assms(3) by (auto simp: name_match_def min_def)
  have "vget v s' = Some (put_vnode v (Some (vn\<lparr>vn_refcount := 2\<rparr>)) s')" using vn by (simp add: vget_def vref_def)
  then show ?thesis
    using new vn scan_update [OF es(1) i] m i
    by (intro conjI exI [of _ vn]) (simp_all add: ramfs_lookup_def es(3))
qed

theorem ramfs_create_lookup_witness:
  "\<exists>s' s''. ramfs_create 0 ''a'' 1 mounted = Some (0, Some 1, s') \<and> ramfs_lookup 0 ''a'' 1 s' = Some (0, Some 1, s'')"
proof -
  obtain s' where run: "ramfs_create 0 ''a'' 1 mounted = Some (0, Some 1, s')" using create_in_mounted by blast
  show ?thesis using ramfs_create_lookup [OF fs_inv_mounted _ _ run] run by auto
qed

section \<open>Writing and reading\<close>

lemma write_effect:
  assumes inv: "fs_inv s" and vn: "vnodes s v = Some vn" "S_ISREG (vn_mode vn)" and off: "0 \<le> off" "off \<le> 4096"
    and cnt: "0 \<le> sint cnt" and buf: "length buf = unat cnt" and r: "r = min (sint cnt) (4096 - off)"
  shows "\<exists>x mem mem'. rfs_inodes s v = Some x \<and> rf_mem x = Bytes mem \<and> copy_in mem (nat off) (take (nat r) buf) = Some mem'
    \<and> ramfs_write v off buf cnt s = Some (r,
        put_inode v (Some (x\<lparr>rf_mem := Bytes mem', rf_size := max (vn_len vn) (off + r)\<rparr>))
          (put_vnode v (Some (vn\<lparr>vn_len := max (vn_len vn) (off + r)\<rparr>)) s))"
proof -
  obtain x where x: "rfs_inodes s v = Some x" "vnode_ok v vn x" using fs_bal_vnode [OF inv vn(1)] .
  have d: "rf_mode x = RAMFS_TYPE_DATA" using vn(2) x(2) by (cases "rf_mode x") (auto simp: vnode_ok_def)
  then obtain mem where mem: "rf_mem x = Bytes mem" "length mem = 4096"
    using fs_bal_inode(3) [OF inv x(1)] by (auto simp: inode_ok_def split: rf_mem.splits)
  have "vn_len vn = rf_size x" "\<not> S_ISDIR (vn_mode vn)" using x(2) d by (auto simp: vnode_ok_def)
  moreover have "nat off + length (take (nat r) buf) \<le> 4096" using off r by auto
  moreover have "0 \<le> r" using cnt off r by simp
  ultimately show ?thesis
    using vn x mem off r
    by (simp add: ramfs_write_def file_bytes_def copy_in_def Let_def mod_inode_def put_vnode_def)
qed

text \<open>
  C19. Writing to a regular file at an offset within its page succeeds, stores as many bytes
  as fit into the page, and reading that many bytes back at the same offset returns exactly
  what was written.
\<close>

theorem ramfs_write_read:
  assumes inv: "fs_inv s" and vn: "vnodes s v = Some vn" "S_ISREG (vn_mode vn)" and off: "0 \<le> off" "off \<le> 4096"
    and cnt: "0 \<le> sint cnt" and buf: "length buf = unat cnt"
  shows "\<exists>r s'. ramfs_write v off buf cnt s = Some (r, s') \<and> r = min (sint cnt) (4096 - off) \<and> fs_inv s'
    \<and> ramfs_read v off (word_of_int r) s' = Some (r, take (nat r) buf)"
proof -
  define r where "r = min (sint cnt) (4096 - off)"
  define len where "len = max (vn_len vn) (off + r)"
  obtain x mem mem' where x: "rfs_inodes s v = Some x" "rf_mem x = Bytes mem"
    and m': "copy_in mem (nat off) (take (nat r) buf) = Some mem'"
    and run: "ramfs_write v off buf cnt s = Some (r,
        put_inode v (Some (x\<lparr>rf_mem := Bytes mem', rf_size := len\<rparr>)) (put_vnode v (Some (vn\<lparr>vn_len := len\<rparr>)) s))" (is "_ = Some (_, ?s)")
    using write_effect [OF inv vn off cnt buf r_def] unfolding len_def by blast
  have r: "0 \<le> r" "r \<le> 4096" using off cnt by (auto simp: r_def)
  have "sint cnt \<le> uint cnt" by (simp add: sint32)
  then have "r \<le> int (length buf)" using buf by (simp add: r_def)
  then have l: "length (take (nat r) buf) = nat r" by simp
  have w: "sint (word_of_int r :: 32 word) = r" using r by (simp add: sint32_of_int)
  have "\<not> S_ISDIR (vn_mode vn)" using vn(2) by (simp add: S_ISDIR_def S_ISREG_def)
  then have "ramfs_read v off (word_of_int r) ?s = Some (r, take (nat r) buf)"
    using vn copy_in_out(1) [OF m'] l r off
    by (auto simp: ramfs_read_def put_inode_def put_vnode_def file_bytes_def w len_def Let_def max_def min_def)
  with run fs_bal_write [OF inv run] r_def show ?thesis by blast
qed

theorem ramfs_write_read_witness:
  "\<exists>s1 s2. ramfs_create 0 ''a'' 1 mounted = Some (0, Some 1, s1) \<and> ramfs_write 1 0 [104, 105] 2 s1 = Some (2, s2)
     \<and> ramfs_read 1 0 2 s2 = Some (2, [104, 105])"
proof -
  obtain s1 where run: "ramfs_create 0 ''a'' 1 mounted = Some (0, Some 1, s1)" using create_in_mounted by blast
  have inv: "fs_inv s1" by (rule fs_bal_create [OF fs_inv_mounted run])
  obtain vn where "vnodes s1 1 = Some vn" "vn_mode vn = S_IFREG" using create_effect [OF fs_inv_mounted run] by auto
  then show ?thesis using ramfs_write_read [OF inv, of 1 vn 0 2 "[104, 105]"] run by (auto simp: sint32)
qed

section \<open>Listing a directory\<close>

text \<open>The way a directory is listed: from offset 0, advancing by what each call returns, until it returns 0.\<close>

partial_function (option) list_dir :: "nat \<Rightarrow> int \<Rightarrow> 'a fsys_scheme \<Rightarrow> dirent list option" where
  "list_dir d offset s = do {
     (r, e) \<leftarrow> ramfs_readdir d offset s;
     if r = 0 then Some []
     else do {
       e \<leftarrow> e;
       rest \<leftarrow> list_dir d (offset + r) s;
       Some (e # rest)
     }
   }"

definition shown :: "ramfs_dirent \<Rightarrow> dirent" where
  "shown e = \<lparr>d_ino = rd_ino e, d_off = 0, d_name = take 27 (rd_name e)\<rparr>"

lemma skip_unused_takeWhile: "skip_unused es = length (takeWhile (\<lambda>e. rd_name e = '''') es)"
  by (induction es) auto

lemma filter_skip:
  "filter P xs = (let k = length (takeWhile (\<lambda>x. \<not> P x) xs) in
     if length xs \<le> k then [] else xs ! k # filter P (drop (Suc k) xs))"
  by (induction xs) (auto simp: Let_def)

lemma list_dir_from:
  assumes vn: "vnodes s d = Some vn" "S_ISDIR (vn_mode vn)" and es: "dirents_of s d = Some es" "length es = RAMFS_MAX_DIRENT"
  shows "i \<le> RAMFS_MAX_DIRENT \<Longrightarrow>
    list_dir d (32 * int i) s = Some (map shown (filter (\<lambda>e. rd_name e \<noteq> '''') (drop i es)))"
proof (induction "RAMFS_MAX_DIRENT - i" arbitrary: i rule: less_induct)
  case less
  define k where "k = skip_unused (drop i es)"
  have i: "(32 * int i) mod 32 = 0" "nat (32 * int i div 32) = i" by simp_all
  have k_eq: "k = length (takeWhile (\<lambda>e. \<not> rd_name e \<noteq> '''') (drop i es))" by (simp add: k_def skip_unused_takeWhile)
  have k_le: "k \<le> length (drop i es)" unfolding k_eq by (rule length_takeWhile_le)
  note f = filter_skip [of "\<lambda>e. rd_name e \<noteq> ''''" "drop i es", folded k_eq, unfolded Let_def]
  show ?case
  proof (cases "RAMFS_MAX_DIRENT \<le> i + k")
    case True
    then have "ramfs_readdir d (32 * int i) s = Some (0, None)"
      using vn es i by (simp add: ramfs_readdir_def Let_def k_def)
    moreover have "filter (\<lambda>e. rd_name e \<noteq> '''') (drop i es) = []" using f True es(2) by simp
    ultimately show ?thesis by (simp add: list_dir.simps)
  next
    case False
    then have r: "ramfs_readdir d (32 * int i) s = Some (32 + int k * 32, Some (shown (es ! (i + k))))"
      using vn es i by (simp add: ramfs_readdir_def Let_def k_def shown_def)
    have "list_dir d (32 * int i + (32 + int k * 32)) s = list_dir d (32 * int (Suc (i + k))) s"
      by (rule arg_cong [where f = "\<lambda>off. list_dir d off s"]) simp
    also have "list_dir d (32 * int (Suc (i + k))) s
        = Some (map shown (filter (\<lambda>e. rd_name e \<noteq> '''') (drop (Suc (i + k)) es)))"
      using False less.prems by (intro less.hyps) auto
    finally have "list_dir d (32 * int i + (32 + int k * 32)) s
        = Some (map shown (filter (\<lambda>e. rd_name e \<noteq> '''') (drop (Suc (i + k)) es)))" .
    moreover have "filter (\<lambda>e. rd_name e \<noteq> '''') (drop i es)
        = es ! (i + k) # filter (\<lambda>e. rd_name e \<noteq> '''') (drop (Suc (i + k)) es)"
      using f False es(2) less.prems by (simp add: add.commute)
    ultimately show ?thesis using r by (subst list_dir.simps) simp
  qed
qed

text \<open>
  C21. Listing a directory from offset 0 comes to an end and returns every entry in use
  exactly once, in the order of the directory.
\<close>

theorem ramfs_readdir_lists:
  assumes inv: "fs_inv s" and vn: "vnodes s d = Some vn" "S_ISDIR (vn_mode vn)"
  shows "\<exists>es. dirents_of s d = Some es
    \<and> list_dir d 0 s = Some (map shown (filter (\<lambda>e. rd_name e \<noteq> '''') es))"
proof -
  obtain x where x: "rfs_inodes s d = Some x" "vnode_ok d vn x" using fs_bal_vnode [OF inv vn(1)] .
  then have "rf_mode x = RAMFS_TYPE_DIR" using vn(2) by (cases "rf_mode x") (auto simp: vnode_ok_def)
  then obtain es where "rf_mem x = Dirents es" "length es = RAMFS_MAX_DIRENT"
    using fs_bal_inode(3) [OF inv x(1)] by (auto simp: inode_ok_def split: rf_mem.splits)
  then show ?thesis using list_dir_from [OF vn, of es 0] x by (auto simp: dirents_of_def)
qed

theorem ramfs_readdir_lists_witness:
  "list_dir 0 0 mounted = Some [\<lparr>d_ino = 0, d_off = 0, d_name = ''.''\<rparr>, \<lparr>d_ino = 0, d_off = 0, d_name = ''..''\<rparr>]"
proof -
  obtain es where es: "dirents_of mounted 0 = Some es" "list_dir 0 0 mounted = Some (map shown (filter (\<lambda>e. rd_name e \<noteq> '''') es))"
    using ramfs_readdir_lists [OF fs_inv_mounted, of 0] by (auto simp: mounted_def)
  have "es = \<lparr>rd_ino = 0, rd_name = ''.''\<rparr> # \<lparr>rd_ino = 0, rd_name = ''..''\<rparr> # replicate 126 empty_dirent"
    using es(1) unfolding mounted_root dot_entries_def by (simp add: numeral_eq_Suc)
  then show ?thesis using es(2) by (simp add: shown_def empty_dirent_def)
qed

end
