(* ===== verification/Namev.thy ===== *)
theory Namev
imports RamfsProps
begin

text \<open>
  Path names: \<^verbatim>\<open>fs/namev.c\<close>.  A path is the C string; \<^verbatim>\<open>dir_namev\<close> writes
  into it (it cuts trailing slashes), so the string it leaves behind is part of its result.
  The lemmas account for references: \<^verbatim>\<open>rc s v\<close> is the number of references to a
  vnode that are not held by resident pages.
\<close>

abbreviation (input) MAXPATHLEN :: nat where "MAXPATHLEN \<equiv> 1024"
abbreviation (input) STR_MAX :: nat where "STR_MAX \<equiv> 32"
abbreviation (input) O_CREAT :: "32 word" where "O_CREAT \<equiv> 0x100"

text \<open>The file system with the current process' working directory.\<close>

record vfs_dir = fsys +
  p_cwd :: nat

section \<open>The path walk\<close>

definition lookup :: "nat \<Rightarrow> string \<Rightarrow> nat \<Rightarrow> 'a fsys_scheme \<Rightarrow> (int \<times> nat option \<times> 'a fsys_scheme) option" where
  "lookup dir name len s = do {
     vn \<leftarrow> vnodes s dir;
     if \<not> S_ISDIR (vn_mode vn) then Some (- ENOTDIR, None, s)
     else do {
       has \<leftarrow> has_op s dir Op_lookup;
       if \<not> has then Some (- ENOTDIR, None, s)
       else if len > STR_MAX then Some (- ENAMETOOLONG, None, s)
       else do {
         (r, res, s) \<leftarrow> ramfs_lookup dir name len s;
         if r < 0 then Some (r, res, s) else Some (0, res, s)
       }
     }
   }"

text \<open>
  The loop that cuts trailing slashes.  A path of slashes only makes it run off the front
  of the string.
\<close>

definition strip_slashes :: "string \<Rightarrow> string option" where
  "strip_slashes n =
     (let q = rev (dropWhile (\<lambda>c. c = CHR ''/'') (rev n)) in if q = [] then None else Some q)"

text \<open>
  One round per component: the text up to the first slash is looked up, and the walk goes on
  behind the run of slashes.  The second component of the result is what the loop last stored
  through \<^verbatim>\<open>res_vnode\<close>, the third the rest of the path.
\<close>

function walk :: "nat \<Rightarrow> nat option \<Rightarrow> string \<Rightarrow> 'a fsys_scheme
    \<Rightarrow> (int \<times> nat \<times> nat option \<times> string \<times> 'a fsys_scheme) option" where
  "walk cur res rest s = do {
     vn \<leftarrow> vnodes s cur;
     if \<not> S_ISDIR (vn_mode vn) then do { s \<leftarrow> vput cur s; Some (- ENOTDIR, cur, res, rest, s) }
     else
       let comp = takeWhile (\<lambda>c. c \<noteq> CHR ''/'') rest;
           after = dropWhile (\<lambda>c. c \<noteq> CHR ''/'') rest
       in if after = [] then Some (0, cur, res, rest, s)
       else do {
         (r, res', s) \<leftarrow> lookup cur rest (length comp) s;
         if 0 \<le> r then do {
           next \<leftarrow> res';
           s \<leftarrow> vput cur s;
           walk next (Some next) (dropWhile (\<lambda>c. c = CHR ''/'') after) s
         } else do { s \<leftarrow> vput cur s; Some (r, cur, res, rest, s) }
       }
   }"
  by pat_completeness auto

lemma walk_shrinks:
  assumes "dropWhile (\<lambda>c. c \<noteq> CHR ''/'') rest \<noteq> []"
  shows "length (dropWhile (\<lambda>c. c = CHR ''/'') (dropWhile (\<lambda>c. c \<noteq> CHR ''/'') rest)) < length rest"
proof -
  obtain c cs where c: "dropWhile (\<lambda>c. c \<noteq> CHR ''/'') rest = c # cs" using assms by (meson neq_Nil_conv)
  then have "c = CHR ''/''" using hd_dropWhile [OF assms] by simp
  then have "length (dropWhile (\<lambda>c. c = CHR ''/'') (c # cs)) < length (c # cs)"
    by (simp add: length_dropWhile_le less_Suc_eq_le)
  then show ?thesis using c length_dropWhile_le [of "\<lambda>c. c \<noteq> CHR ''/''" rest] by simp
qed

termination walk
  by (relation "measure (\<lambda>(cur, res, rest, s). length rest)") (simp, simp add: walk_shrinks)

declare walk.simps [simp del]

record ('a) namev =
  nv_ret :: int
  nv_res :: "nat option"
  nv_name :: string
  nv_len :: nat
  nv_path :: string
  nv_state :: 'a

definition dir_namev :: "string \<Rightarrow> nat option \<Rightarrow> 'a vfs_dir_scheme \<Rightarrow> 'a vfs_dir_scheme namev option" where
  "dir_namev pathname base s =
     (if pathname = [] then
        Some \<lparr>nv_ret = - EINVAL, nv_res = None, nv_name = [], nv_len = 0, nv_path = pathname, nv_state = s\<rparr>
      else if length pathname > MAXPATHLEN then
        Some \<lparr>nv_ret = - ENAMETOOLONG, nv_res = None, nv_name = [], nv_len = 0, nv_path = pathname, nv_state = s\<rparr>
      else do {
        let cur_dir = (case base of None \<Rightarrow> p_cwd s | Some b \<Rightarrow> b);
        s \<leftarrow> vref cur_dir s;
        let absolute = (hd pathname = CHR ''/'');
        (cur_dir, s) \<leftarrow> (if absolute then do {
            s \<leftarrow> vput cur_dir s;
            s \<leftarrow> vref (fs_root s) s;
            Some (fs_root s, s)
          } else Some (cur_dir, s));
        if absolute \<and> length pathname = 1 then
          Some \<lparr>nv_ret = 0, nv_res = Some cur_dir, nv_name = ''.'', nv_len = 1, nv_path = pathname, nv_state = s\<rparr>
        else do {
          q \<leftarrow> strip_slashes (if absolute then tl pathname else pathname);
          let path' = (if absolute then CHR ''/'' # q else q);
          (r, cur, res, rest, s) \<leftarrow> walk cur_dir None q s;
          Some (if r < 0
            then \<lparr>nv_ret = r, nv_res = res, nv_name = [], nv_len = 0, nv_path = path', nv_state = s\<rparr>
            else \<lparr>nv_ret = 0, nv_res = Some cur, nv_name = rest, nv_len = length rest, nv_path = path', nv_state = s\<rparr>)
        }
      })"

definition open_namev :: "string \<Rightarrow> 32 word \<Rightarrow> nat option \<Rightarrow> 'a vfs_dir_scheme
    \<Rightarrow> (int \<times> nat option \<times> string \<times> 'a vfs_dir_scheme) option" where
  "open_namev pathname flag base s = do {
     nv \<leftarrow> dir_namev pathname base s;
     let path' = nv_path nv;
     let s = nv_state nv;
     if nv_ret nv < 0 then Some (nv_ret nv, None, path', s)
     else do {
       dir \<leftarrow> nv_res nv;
       vn \<leftarrow> vnodes s dir;
       if \<not> S_ISDIR (vn_mode vn) then do { s \<leftarrow> vput dir s; Some (- ENOTDIR, None, path', s) }
       else do {
         (r, res, s) \<leftarrow> lookup dir (nv_name nv) (nv_len nv) s;
         if r = - ENOENT \<and> flag AND O_CREAT \<noteq> 0 then do {
           has \<leftarrow> has_op s dir Op_create;
           KASSERT has;
           (r, res, s) \<leftarrow> ramfs_create dir (nv_name nv) (nv_len nv) s;
           s \<leftarrow> vput dir s;
           Some (r, res, path', s)
         } else do { s \<leftarrow> vput dir s; Some (r, res, path', s) }
       }
     }
   }"

section \<open>Accounting for references\<close>

definition rc :: "'a fsys_scheme \<Rightarrow> nat \<Rightarrow> int" where
  "rc s v = (case vnodes s v of None \<Rightarrow> 0 | Some vn \<Rightarrow> vn_refcount vn - vn_nrespages vn)"

abbreviation one :: "nat \<Rightarrow> nat \<Rightarrow> int" where
  "one v \<equiv> (\<lambda>w. if w = v then 1 else 0)"

text \<open>
  An operation that changes the reference counts by \<^verbatim>\<open>k\<close> and leaves everything else of
  the process and the devices alone.
\<close>

definition refs :: "(nat \<Rightarrow> int) \<Rightarrow> 'a fsys_scheme \<Rightarrow> 'a fsys_scheme \<Rightarrow> bool" where
  "refs k s s' \<longleftrightarrow> (\<forall>w. rc s' w = rc s w + k w) \<and> fs_root s' = fs_root s \<and> fsys.more s' = fsys.more s
     \<and> bytedevs s' = bytedevs s \<and> blockdevs s' = blockdevs s"

abbreviation no_refs :: "'a fsys_scheme \<Rightarrow> 'a fsys_scheme \<Rightarrow> bool" where
  "no_refs \<equiv> refs (\<lambda>_. 0)"

lemma refs_refl [simp]: "no_refs s s"
  by (simp add: refs_def)

lemma refs_trans: "refs k s s' \<Longrightarrow> refs l s' s'' \<Longrightarrow> (\<And>w. m w = k w + l w) \<Longrightarrow> refs m s s''"
  by (auto simp: refs_def)

lemma refs_put_inode [simp]: "refs k s (put_inode i x s') = refs k s s'"
  by (simp add: refs_def put_inode_def rc_def)

lemma refs_allocs [simp]: "refs k s (s'\<lparr>allocs := a\<rparr>) = refs k s s'"
  by (simp add: refs_def rc_def)

lemma refs_inuse [simp]: "refs k s (s'\<lparr>vnode_inuse_list := a\<rparr>) = refs k s s'"
  by (simp add: refs_def rc_def)

lemma refs_mod_inode: "mod_inode i f s = Some s' \<Longrightarrow> no_refs s s'"
  by (auto simp: mod_inode_def bind_Some_iff)

lemma refs_set_entry: "set_entry d i ino name len s = Some s' \<Longrightarrow> no_refs s s'"
  by (auto simp: set_entry_def bind_Some_iff intro: refs_mod_inode)

lemma refs_clear_entry: "clear_entry d name len s = Some s' \<Longrightarrow> no_refs s s'"
  by (auto simp: clear_entry_def bind_Some_iff Let_def intro: refs_mod_inode)

lemma refs_fill_dots: "fill_dots d p s = Some s' \<Longrightarrow> no_refs s s'"
  by (auto simp: fill_dots_def bind_Some_iff intro: refs_mod_inode)

lemma refs_vref: "vref v s = Some s' \<Longrightarrow> refs (one v) s s'"
  by (auto simp: vref_def bind_Some_iff refs_def put_vnode_def rc_def)

lemma refs_vget:
  assumes "vget v s = Some s'"
  shows "refs (one v) s s'"
proof (cases "vnodes s v")
  case None
  then show ?thesis using vget_new [OF assms None] by (auto simp: refs_def put_vnode_def put_inode_def rc_def)
next
  case (Some vn)
  then show ?thesis using assms by (auto simp: vget_def intro: refs_vref split: if_splits)
qed

lemma refs_delete_vnode: "ramfs_delete_vnode v s = Some s' \<Longrightarrow> no_refs s s' \<and> vnodes s' = vnodes s"
  by (auto simp: ramfs_delete_vnode_def bind_Some_iff Let_def put_inode_def) (simp_all add: refs_def rc_def)

lemma refs_vput:
  assumes put: "vput v s = Some s'"
  shows "refs (\<lambda>w. - one v w) s s'"
proof -
  obtain vn vn1 where vn: "vnodes s v = Some vn"
    and m: "(if vn_nrespages vn = vn_refcount vn - 1
       then do { linked \<leftarrow> ramfs_query_vnode v s; Some (if linked then vn else free_respages vn) } else Some vn) = Some vn1"
    and run: "(if 0 < vn_refcount (vn1\<lparr>vn_refcount := vn_refcount vn1 - 1\<rparr>)
     then Some (put_vnode v (Some (vn1\<lparr>vn_refcount := vn_refcount vn1 - 1\<rparr>)) s)
     else do { KASSERT (vn_refcount (vn1\<lparr>vn_refcount := vn_refcount vn1 - 1\<rparr>) = 0);
       KASSERT (vn_nrespages (vn1\<lparr>vn_refcount := vn_refcount vn1 - 1\<rparr>) = 0);
       s \<leftarrow> ramfs_delete_vnode v s;
       Some (put_vnode v None (s\<lparr>vnode_inuse_list := removeAll v (vnode_inuse_list s)\<rparr>)) }) = Some s'"
    using put unfolding vput_def Let_def bind_Some_iff [of _ _ s'] by blast
  have vn1: "vn1 = vn \<or> vn1 = free_respages vn" using m by (auto simp: bind_Some_iff split: if_splits)
  have eq: "vn_refcount vn1 - vn_nrespages vn1 = vn_refcount vn - vn_nrespages vn" using vn1 by (auto simp: free_respages_def)
  show ?thesis
  proof (cases "0 < vn_refcount vn1 - 1")
    case True
    then have "s' = put_vnode v (Some (vn1\<lparr>vn_refcount := vn_refcount vn1 - 1\<rparr>)) s" using run by simp
    then show ?thesis using vn eq by (simp add: refs_def put_vnode_def rc_def)
  next
    case False
    then obtain s1 where s1: "ramfs_delete_vnode v s = Some s1" and z: "vn_refcount vn1 = 1" "vn_nrespages vn1 = 0"
      and s': "s' = put_vnode v None (s1\<lparr>vnode_inuse_list := removeAll v (vnode_inuse_list s1)\<rparr>)"
      using run by (auto simp: bind_Some_iff split: if_splits)
    show ?thesis using refs_delete_vnode [OF s1] vn eq z by (auto simp: s' refs_def put_vnode_def rc_def)
  qed
qed

lemma refs_alloc: "ramfs_alloc_inode t dv s = (ino, s') \<Longrightarrow> no_refs s s'"
  by (erule alloc_inode_cases) auto

lemma refs_ramfs_lookup:
  assumes "ramfs_lookup d name len s = Some (r, res, s')"
  shows "(r = - ENOENT \<and> res = None \<and> s' = s) \<or> (\<exists>v. r = 0 \<and> res = Some v \<and> refs (one v) s s')"
  using assms by (auto elim!: lookup_cases intro: refs_vget)

lemma refs_create:
  assumes run: "ramfs_create d name len s = Some (r, res, s')"
  shows "(r < 0 \<and> res = None \<and> no_refs s s') \<or> (\<exists>v. r = 0 \<and> res = Some v \<and> refs (one v) s s')"
proof -
  obtain es where es: "dirents_of s d = Some es" using run by (auto simp: ramfs_create_def bind_Some_iff)
  obtain ino s1 where al: "ramfs_alloc_inode RAMFS_TYPE_DATA 0 s = (ino, s1)" by fastforce
  note a = refs_alloc [OF al]
  consider "r < 0" "res = None" "s' = s \<or> s' = s1"
    | i s2 where "vget (nat ino) s1 = Some s2" "set_entry d i ino name len s2 = Some s'" "r = 0" "res = Some (nat ino)"
    using run es al by (auto simp: ramfs_create_def bind_Some_iff split: option.splits if_splits)
  then show ?thesis
  proof cases
    case 1
    then show ?thesis using a by auto
  next
    case (2 i s2)
    have "refs (one (nat ino)) s s2" by (rule refs_trans [OF a refs_vget [OF 2(1)]]) simp
    then have "refs (one (nat ino)) s s'" by (rule refs_trans [OF _ refs_set_entry [OF 2(2)]]) simp
    with 2 show ?thesis by blast
  qed
qed

lemma refs_mknod:
  assumes run: "ramfs_mknod d name len mode dv s = Some (r, s')"
  shows "no_refs s s'"
proof -
  obtain es where es: "dirents_of s d = Some es" using run by (auto simp: ramfs_mknod_def bind_Some_iff)
  obtain ino s1 where al: "ramfs_alloc_inode (if S_ISCHR mode then RAMFS_TYPE_CHR else RAMFS_TYPE_BLK) dv s = (ino, s1)" by fastforce
  note a = refs_alloc [OF al]
  consider "s' = s \<or> s' = s1" | i where "set_entry d i ino name len s1 = Some s'"
    using run es al by (auto simp: ramfs_mknod_def bind_Some_iff split: option.splits if_splits)
  then show ?thesis using a refs_trans [OF a refs_set_entry] by cases auto
qed

lemma refs_mkdir:
  assumes run: "ramfs_mkdir d name len s = Some (r, s')"
  shows "no_refs s s'"
proof -
  obtain es where es: "dirents_of s d = Some es" using run by (auto simp: ramfs_mkdir_def bind_Some_iff)
  obtain ino s1 where al: "ramfs_alloc_inode RAMFS_TYPE_DIR 0 s = (ino, s1)" by fastforce
  note a = refs_alloc [OF al]
  consider "s' = s \<or> s' = s1" | i s2 where "set_entry d i ino name len s1 = Some s2" "fill_dots (nat ino) d s2 = Some s'"
    using run es al by (auto simp: ramfs_mkdir_def bind_Some_iff split: option.splits if_splits)
  then show ?thesis
  proof cases
    case (2 i s2)
    have "no_refs s s2" by (rule refs_trans [OF a refs_set_entry [OF 2(1)]]) simp
    then show ?thesis by (rule refs_trans [OF _ refs_fill_dots [OF 2(2)]]) simp
  qed (use a in auto)
qed

lemma refs_link:
  assumes run: "ramfs_link old d name len s = Some (r, s')"
  shows "no_refs s s'"
proof -
  consider "s' = s" | i s1 where "set_entry d i (int old) name len s = Some s1"
    "mod_inode old (\<lambda>x. x\<lparr>rf_linkcount := rf_linkcount x + 1\<rparr>) s1 = Some s'"
    using run by (auto simp: ramfs_link_def bind_Some_iff split: option.splits)
  then show ?thesis
  proof cases
    case (2 i s1)
    show ?thesis by (rule refs_trans [OF refs_set_entry [OF 2(1)] refs_mod_inode [OF 2(2)]]) simp
  qed simp
qed

text \<open>Looking up, dropping the entry and putting the vnode leaves the counts as they were.\<close>

lemma refs_drop_entry:
  assumes "refs (one v) s s1" and "clear_entry d name len s1 = Some s2" and "mod_inode v f s2 = Some s3" and "vput v s3 = Some s'"
  shows "no_refs s s'"
proof -
  have "refs (one v) s s2" by (rule refs_trans [OF assms(1) refs_clear_entry [OF assms(2)]]) simp
  then have "refs (one v) s s3" by (rule refs_trans [OF _ refs_mod_inode [OF assms(3)]]) simp
  then show ?thesis by (rule refs_trans [OF _ refs_vput [OF assms(4)]]) simp
qed

lemma refs_unlink:
  assumes run: "ramfs_unlink d name len s = Some (r, s')"
  shows "no_refs s s'"
proof -
  obtain v s1 s2 s3 where l: "ramfs_lookup d name len s = Some (0, Some v, s1)" and o: "clear_entry d name len s1 = Some s2"
    "mod_inode v (\<lambda>x. x\<lparr>rf_linkcount := rf_linkcount x - 1\<rparr>) s2 = Some s3" "vput v s3 = Some s'"
    using run by (auto simp: ramfs_unlink_def bind_Some_iff)
  show ?thesis using refs_ramfs_lookup [OF l] refs_drop_entry [OF _ o] by auto
qed

lemma refs_rmdir:
  assumes run: "ramfs_rmdir d name len s = Some (r, s')"
  shows "no_refs s s'"
proof -
  obtain ret res s1 where l: "ramfs_lookup d name len s = Some (ret, res, s1)"
    using run by (auto simp: ramfs_rmdir_def bind_Some_iff)
  from refs_ramfs_lookup [OF l] show ?thesis
  proof
    assume "ret = - ENOENT \<and> res = None \<and> s1 = s"
    then show ?thesis using run l by (auto simp: ramfs_rmdir_def bind_Some_iff)
  next
    assume "\<exists>v. ret = 0 \<and> res = Some v \<and> refs (one v) s s1"
    then obtain v where v: "ret = 0" "res = Some v" "refs (one v) s s1" by blast
    consider "vput v s1 = Some s'"
      | s2 s3 where "clear_entry d name len s1 = Some s2"
        "mod_inode v (\<lambda>x. x\<lparr>rf_linkcount := rf_linkcount x - 1\<rparr>) s2 = Some s3" "vput v s3 = Some s'"
      using run l v by (auto simp: ramfs_rmdir_def bind_Some_iff split: if_splits)
    then show ?thesis
    proof cases
      case 1
      show ?thesis by (rule refs_trans [OF v(3) refs_vput [OF 1]]) simp
    next
      case (2 s2 s3)
      show ?thesis by (rule refs_drop_entry [OF v(3) 2])
    qed
  qed
qed

lemma refs_write: "ramfs_write v off buf cnt s = Some (r, s') \<Longrightarrow> no_refs s s'"
  by (auto simp: ramfs_write_def bind_Some_iff Let_def mod_inode_def) (simp add: refs_def put_vnode_def rc_def)

section \<open>The path walk keeps the books\<close>

lemma lookup_spec:
  assumes inv: "fs_inv s" and run: "lookup d name len s = Some (r, res, s')"
  shows "fs_inv s' \<and> ((r < 0 \<and> res = None \<and> s' = s) \<or> (\<exists>v. r = 0 \<and> res = Some v \<and> refs (one v) s s'))"
proof -
  consider "r < 0" "res = None" "s' = s" | r1 where "ramfs_lookup d name len s = Some (r1, res, s')" "r = (if r1 < 0 then r1 else 0)"
    using run by (auto simp: lookup_def bind_Some_iff split: if_splits)
  then show ?thesis
  proof cases
    case 1
    then show ?thesis using inv by simp
  next
    case (2 r1)
    show ?thesis using refs_ramfs_lookup [OF 2(1)] fs_bal_lookup [OF inv 2(1)] 2(2) by auto
  qed
qed

lemma vput_inv: "fs_inv s \<Longrightarrow> vput v s = Some s' \<Longrightarrow> fs_inv s'"
  by (rule fs_bal_vput [where k = "\<lambda>_. 0"]) simp_all

lemma last_dropWhile: "dropWhile P xs \<noteq> [] \<Longrightarrow> last (dropWhile P xs) = last xs"
  by (metis last_append takeWhile_dropWhile_id)

lemma dropWhile_keeps:
  assumes "xs \<noteq> []" and "\<not> P (last xs)"
  shows "dropWhile P xs \<noteq> []"
  using assms by (metis dropWhile_eq_Nil_conv last_in_set)

text \<open>The walk from \<^verbatim>\<open>cur\<close> gives up the reference to it and gains one to where it stops.\<close>

lemma walk_spec:
  assumes "walk cur res rest s = Some (r, cur', res', rest', s')" and "fs_inv s"
  shows "fs_inv s' \<and> r \<le> 0 \<and> (r \<noteq> 0 \<longrightarrow> refs (\<lambda>w. - one cur w) s s')
    \<and> (r = 0 \<longrightarrow> refs (\<lambda>w. one cur' w - one cur w) s s' \<and> (\<exists>vn. vnodes s' cur' = Some vn \<and> S_ISDIR (vn_mode vn))
        \<and> CHR ''/'' \<notin> set rest' \<and> (rest \<noteq> [] \<longrightarrow> last rest \<noteq> CHR ''/'' \<longrightarrow> rest' \<noteq> []))"
  using assms
proof (induction cur res rest s rule: walk.induct)
  case (1 cur res rest s)
  obtain vn where vn: "vnodes s cur = Some vn" using 1(2) by (subst (asm) walk.simps) (auto simp: bind_Some_iff)
  let ?after = "dropWhile (\<lambda>c. c \<noteq> CHR ''/'') rest" and ?comp = "takeWhile (\<lambda>c. c \<noteq> CHR ''/'') rest"
  note step = 1(2) [unfolded walk.simps [of cur] vn Option.bind.bind_lunit Let_def]
  show ?case
  proof (cases "S_ISDIR (vn_mode vn)")
    case False
    then show ?thesis using step 1(3) by (auto simp: bind_Some_iff intro: vput_inv refs_vput)
  next
    case dir: True
    show ?thesis
    proof (cases "?after = []")
      case True
      then have "CHR ''/'' \<notin> set rest" by (auto simp: dropWhile_eq_Nil_conv)
      then show ?thesis using step dir True vn 1(3) by auto
    next
      case after: False
      note step2 = step [unfolded after [THEN eq_False [THEN iffD2]] dir [THEN eq_True [THEN iffD2]] not_True_eq_False if_False]
      obtain r1 res1 s1 where l: "lookup cur rest (length ?comp) s = Some (r1, res1, s1)"
        using step2 by (auto simp: bind_Some_iff)
      note ls = lookup_spec [OF 1(3) l]
      show ?thesis
      proof (cases "0 \<le> r1")
        case False
        then obtain s2 where p: "vput cur s = Some s2" and eq: "r = r1" "s' = s2"
          using step2 l ls by (auto simp: bind_Some_iff)
        show ?thesis using p eq False vput_inv [OF 1(3) p] refs_vput [OF p] by auto
      next
        case True
        then obtain v s2 where v: "res1 = Some v" "refs (one v) s s1" and p: "vput cur s1 = Some s2"
          and w: "walk v (Some v) (dropWhile (\<lambda>c. c = CHR ''/'') ?after) s2 = Some (r, cur', res', rest', s')"
          using step2 l ls by (auto simp: bind_Some_iff)
        have inv1: "fs_inv s1" using ls by simp
        have inv2: "fs_inv s2" by (rule vput_inv [OF inv1 p])
        note IH = 1(1) [OF vn _ refl refl after l refl refl True v(1) p w inv2, simplified dir]
        have r12: "refs (\<lambda>w. one v w - one cur w) s s2" by (rule refs_trans [OF v(2) refs_vput [OF p]]) simp
        have "refs (\<lambda>w. - one cur w) s s'" if "r \<noteq> 0"
        proof (rule refs_trans [OF r12])
          show "refs (\<lambda>w. - one v w) s2 s'" using IH that by blast
        qed simp
        moreover have "refs (\<lambda>w. one cur' w - one cur w) s s'" if "r = 0"
        proof (rule refs_trans [OF r12])
          show "refs (\<lambda>w. one cur' w - one v w) s2 s'" using IH that by blast
        qed simp
        moreover have "dropWhile (\<lambda>c. c = CHR ''/'') ?after \<noteq> [] \<and> last (dropWhile (\<lambda>c. c = CHR ''/'') ?after) \<noteq> CHR ''/''"
          if "last rest \<noteq> CHR ''/''"
          using that after last_dropWhile [OF after] dropWhile_keeps [of ?after "\<lambda>c. c = CHR ''/''"]
            last_dropWhile [of "\<lambda>c. c = CHR ''/''" ?after] by auto
        ultimately show ?thesis using IH by blast
      qed
    qed
  qed
qed

lemma strip_slashes_Some:
  assumes "strip_slashes n = Some q"
  shows "q \<noteq> [] \<and> last q \<noteq> CHR ''/''"
proof -
  have q: "q = rev (dropWhile (\<lambda>c. c = CHR ''/'') (rev n))" "q \<noteq> []" using assms by (auto simp: strip_slashes_def Let_def split: if_splits)
  then have "last q = hd (dropWhile (\<lambda>c. c = CHR ''/'') (rev n))" by (simp add: last_rev)
  then show ?thesis using q hd_dropWhile [of "\<lambda>c. c = CHR ''/''" "rev n"] by auto
qed

text \<open>The reference the caller gets: one more to the directory on success, none on an error.\<close>

lemma dir_namev_spec:
  assumes run: "dir_namev path base s = Some nv" and inv: "fs_inv s"
  shows "fs_inv (nv_state nv) \<and> ((nv_ret nv < 0 \<and> no_refs s (nv_state nv))
    \<or> (nv_ret nv = 0 \<and> (\<exists>d. nv_res nv = Some d \<and> refs (one d) s (nv_state nv)) \<and> 0 < nv_len nv \<and> nv_len nv = length (nv_name nv)
       \<and> CHR ''/'' \<notin> set (nv_name nv)))"
proof (cases "path = [] \<or> length path > MAXPATHLEN")
  case True
  then show ?thesis using run inv by (auto simp: dir_namev_def split: if_splits)
next
  case False
  define cwd where "cwd = (case base of None \<Rightarrow> p_cwd s | Some b \<Rightarrow> b)"
  define abso where "abso = (hd path = CHR ''/'')"
  have c: "(path = []) = False" "(MAXPATHLEN < length path) = False" using False by auto
  note run1 = run [unfolded dir_namev_def Let_def c if_False, folded cwd_def abso_def, unfolded bind_Some_iff [of _ _ nv]]
  from run1 obtain s1 p where r1: "vref cwd s = Some s1"
    and m: "(if abso then do { s \<leftarrow> vput cwd s1; s \<leftarrow> vref (fs_root s) s; Some (fs_root s, s) } else Some (cwd, s1)) = Some p"
    and rest: "(case p of (cur, s2) \<Rightarrow> if abso \<and> length path = 1
       then Some \<lparr>nv_ret = 0, nv_res = Some cur, nv_name = ''.'', nv_len = 1, nv_path = path, nv_state = s2\<rparr>
       else do { q \<leftarrow> strip_slashes (if abso then tl path else path);
          (r, cur, res, rest, s) \<leftarrow> walk cur None q s2;
          Some (if r < 0 then \<lparr>nv_ret = r, nv_res = res, nv_name = [], nv_len = 0, nv_path = if abso then CHR ''/'' # q else q, nv_state = s\<rparr>
            else \<lparr>nv_ret = 0, nv_res = Some cur, nv_name = rest, nv_len = length rest, nv_path = if abso then CHR ''/'' # q else q, nv_state = s\<rparr>) })
       = Some nv"
    by blast
  obtain cur s2 where p: "p = (cur, s2)" by fastforce
  note m = m [unfolded p] and rest = rest [unfolded p prod.case]
  have inv2: "fs_inv s2 \<and> refs (one cur) s s2"
  proof (cases abso)
    case True
    then obtain t where t: "vput cwd s1 = Some t" "vref (fs_root t) t = Some s2" "cur = fs_root s2" using m by (auto simp: bind_Some_iff)
    have "no_refs s t" by (rule refs_trans [OF refs_vref [OF r1] refs_vput [OF t(1)]]) simp
    then have "refs (one (fs_root t)) s s2" by (rule refs_trans [OF _ refs_vref [OF t(2)]]) simp
    moreover have "fs_root t = fs_root s2" using refs_vref [OF t(2)] by (simp add: refs_def)
    moreover have "fs_inv s2" using vput_inv [OF fs_bal_vref [OF inv r1] t(1)] t(2) by (rule fs_bal_vref)
    ultimately show ?thesis using t(3) by simp
  next
    case False
    then show ?thesis using m refs_vref [OF r1] fs_bal_vref [OF inv r1] by auto
  qed
  show ?thesis
  proof (cases "abso \<and> length path = 1")
    case True
    then show ?thesis using rest inv2 by auto
  next
    case False
    then obtain q r c res rst s3 where q: "strip_slashes (if abso then tl path else path) = Some q"
      and w: "walk cur None q s2 = Some (r, c, res, rst, s3)"
      and nv: "nv_ret nv = (if r < 0 then r else 0)" "nv_state nv = s3"
        "\<not> r < 0 \<longrightarrow> nv_res nv = Some c \<and> nv_name nv = rst \<and> nv_len nv = length rst"
      using rest by (auto simp: bind_Some_iff split: if_splits)
    note ws = walk_spec [OF w] and qs = strip_slashes_Some [OF q]
    show ?thesis
    proof (cases "r < 0")
      case True
      have "refs (\<lambda>w. - one cur w) s2 s3" using ws inv2 True by auto
      then have "no_refs s s3" using inv2 by (auto intro: refs_trans)
      then show ?thesis using nv ws inv2 True by auto
    next
      case False
      then have r0: "r = 0" using ws inv2 by auto
      have "refs (\<lambda>w. one c w - one cur w) s2 s3" using ws inv2 r0 by auto
      then have "refs (one c) s s3" using inv2 by (auto intro: refs_trans)
      then show ?thesis using nv ws inv2 r0 qs by auto
    qed
  qed
qed

lemma open_namev_spec:
  assumes run: "open_namev path flag base s = Some (r, res, path', s')" and inv: "fs_inv s"
  shows "fs_inv s' \<and> ((r < 0 \<and> no_refs s s') \<or> (r = 0 \<and> (\<exists>v. res = Some v \<and> refs (one v) s s')))"
proof -
  obtain nv where nv: "dir_namev path base s = Some nv" using run by (auto simp: open_namev_def bind_Some_iff)
  let ?s = "nv_state nv"
  note ds = dir_namev_spec [OF nv inv]
  show ?thesis
  proof (cases "nv_ret nv < 0")
    case True
    then show ?thesis using run nv ds by (auto simp: open_namev_def)
  next
    case False
    then obtain d where d: "nv_res nv = Some d" "refs (one d) s ?s" and inv1: "fs_inv ?s" using ds by auto
    have drop: "no_refs s t'" if "refs (one d) s t" "vput d t = Some t'" for t t'
      by (rule refs_trans [OF that(1) refs_vput [OF that(2)]]) simp
    have keep: "refs (one v) s t'" if "refs (one d) s t" "refs (one v) t t1" "vput d t1 = Some t'" for t t1 t' v
    proof -
      have "refs (\<lambda>w. one d w + one v w) s t1" by (rule refs_trans [OF that(1,2)]) simp
      then show ?thesis by (rule refs_trans [OF _ refs_vput [OF that(3)]]) simp
    qed
    consider "r = - ENOTDIR" "vput d ?s = Some s'"
      | r1 res1 s1 where "lookup d (nv_name nv) (nv_len nv) ?s = Some (r1, res1, s1)" "r = r1" "res = res1" "vput d s1 = Some s'"
      | res1 s1 s2 where "lookup d (nv_name nv) (nv_len nv) ?s = Some (- ENOENT, res1, s1)"
          "ramfs_create d (nv_name nv) (nv_len nv) s1 = Some (r, res, s2)" "vput d s2 = Some s'"
      using run nv False d by (auto simp: open_namev_def Let_def bind_Some_iff split: if_splits)
    then show ?thesis
    proof cases
      case 1
      then show ?thesis using vput_inv [OF inv1] drop [OF d(2)] by auto
    next
      case (2 r1 res1 s1)
      then show ?thesis using lookup_spec [OF inv1 2(1)] vput_inv [OF _ 2(4)] drop [OF d(2)] keep [OF d(2)] by fastforce
    next
      case (3 res1 s1 s2)
      have s1: "s1 = ?s" using lookup_spec [OF inv1 3(1)] by auto
      have inv2: "fs_inv s2" using fs_bal_create [OF inv1] 3(2) s1 by simp
      from refs_create [OF 3(2)] show ?thesis
      proof
        assume a: "r < 0 \<and> res = None \<and> no_refs s1 s2"
        then have "refs (one d) s s2" using refs_trans [OF d(2)] s1 by auto
        then show ?thesis using a drop [OF _ 3(3)] vput_inv [OF inv2 3(3)] by auto
      next
        assume "\<exists>v. r = 0 \<and> res = Some v \<and> refs (one v) s1 s2"
        then show ?thesis using keep [OF d(2) _ 3(3)] s1 vput_inv [OF inv2 3(3)] by auto
      qed
    qed
  qed
qed

section \<open>The walk looks up one component after the other\<close>

text \<open>The components of a path, with runs of slashes taken as one, and their successive lookup.\<close>

function comps :: "string \<Rightarrow> string list" where
  "comps p =
     (let after = dropWhile (\<lambda>c. c \<noteq> CHR ''/'') p
      in takeWhile (\<lambda>c. c \<noteq> CHR ''/'') p # (if after = [] then [] else comps (dropWhile (\<lambda>c. c = CHR ''/'') after)))"
  by pat_completeness auto

termination comps
  by (relation "measure length") (simp, simp only: in_measure, rule walk_shrinks, simp)

declare comps.simps [simp del]

fun resolve :: "nat \<Rightarrow> string list \<Rightarrow> 'a fsys_scheme \<Rightarrow> (int \<times> nat \<times> 'a fsys_scheme) option" where
  "resolve cur [] s = do {
     vn \<leftarrow> vnodes s cur;
     if S_ISDIR (vn_mode vn) then Some (0, cur, s) else do { s \<leftarrow> vput cur s; Some (- ENOTDIR, cur, s) }
   }"
| "resolve cur (c # cs) s = do {
     vn \<leftarrow> vnodes s cur;
     if \<not> S_ISDIR (vn_mode vn) then do { s \<leftarrow> vput cur s; Some (- ENOTDIR, cur, s) }
     else do {
       (r, res, s) \<leftarrow> lookup cur c (length c) s;
       if r < 0 then do { s \<leftarrow> vput cur s; Some (r, cur, s) }
       else do { next \<leftarrow> res; s \<leftarrow> vput cur s; resolve next cs s }
     }
   }"

lemma lookup_take: "lookup d (take n name) n s = lookup d name n s"
proof -
  have eq: "ramfs_lookup d (take n name) n s = ramfs_lookup d name n s" by (simp add: ramfs_lookup_def name_match_def)
  show ?thesis unfolding lookup_def eq ..
qed

lemma comps_nonempty [simp]: "comps p \<noteq> []"
  by (subst comps.simps) (simp add: Let_def)

lemma comps_last: "dropWhile (\<lambda>c. c \<noteq> CHR ''/'') p = [] \<Longrightarrow> comps p = [p]"
  by (subst comps.simps) (auto simp: Let_def takeWhile_eq_all_conv)

lemma comps_step:
  "dropWhile (\<lambda>c. c \<noteq> CHR ''/'') p \<noteq> [] \<Longrightarrow>
     comps p = takeWhile (\<lambda>c. c \<noteq> CHR ''/'') p # comps (dropWhile (\<lambda>c. c = CHR ''/'') (dropWhile (\<lambda>c. c \<noteq> CHR ''/'') p))"
  by (subst comps.simps) (simp only: Let_def if_False)

definition reached :: "int \<times> nat \<times> nat option \<times> string \<times> 'a \<Rightarrow> int \<times> nat \<times> 'a" where
  "reached x = (case x of (r, cur, res, rest, s) \<Rightarrow> (r, cur, s))"

text \<open>
  C18. Walking a path in the buffer, by searching for slashes and skipping runs of them, is
  the successive lookup of all components but the last; when it succeeds, the rest of the
  path it hands to the caller is the last component.
\<close>

theorem walk_looks_up_components:
  "map_option reached (walk cur res rest s) = resolve cur (butlast (comps rest)) s
   \<and> (\<forall>cur' res' rest' s'. walk cur res rest s = Some (0, cur', res', rest', s') \<longrightarrow> rest' = last (comps rest))"
proof (induction cur res rest s rule: walk.induct)
  case (1 cur res rest s)
  let ?after = "dropWhile (\<lambda>c. c \<noteq> CHR ''/'') rest" and ?comp = "takeWhile (\<lambda>c. c \<noteq> CHR ''/'') rest"
  show ?case
  proof (cases "vnodes s cur")
    case None
    then show ?thesis by (cases "butlast (comps rest)") (simp_all add: walk.simps)
  next
    case (Some vn)
    show ?thesis
    proof (cases "S_ISDIR (vn_mode vn)")
      case False
      then show ?thesis
        using Some by (cases "butlast (comps rest)"; cases "vput cur s") (simp_all add: walk.simps reached_def)
    next
      case dir: True
      show ?thesis
      proof (cases "?after = []")
        case True
        then show ?thesis using Some dir comps_last [OF True] by (subst (1 2) walk.simps) (auto simp: reached_def)
      next
        case after: False
        let ?next = "dropWhile (\<lambda>c. c = CHR ''/'') ?after"
        have cs: "comps rest = ?comp # comps ?next" by (rule comps_step [OF after])
        have w: "walk cur res rest s = do {
            (r, res', s) \<leftarrow> lookup cur rest (length ?comp) s;
            if 0 \<le> r then do { next \<leftarrow> res'; s \<leftarrow> vput cur s; walk next (Some next) ?next s }
            else do { s \<leftarrow> vput cur s; Some (r, cur, res, rest, s) } }"
          by (subst walk.simps) (simp only: Some Option.bind.bind_lunit Let_def dir after if_False not_True_eq_False)
        have l: "lookup cur ?comp (length ?comp) s = lookup cur rest (length ?comp) s"
          using lookup_take [of cur "length ?comp" rest s] by (simp add: takeWhile_eq_take [symmetric])
        have IH: "map_option reached (walk v (Some v) ?next s2) = resolve v (butlast (comps ?next)) s2
            \<and> (\<forall>cur' res' rest' s'. walk v (Some v) ?next s2 = Some (0, cur', res', rest', s') \<longrightarrow> rest' = last (comps ?next))"
          if "lookup cur rest (length ?comp) s = Some (r1, Some v, s1)" "0 \<le> r1" "vput cur s1 = Some s2" for r1 v s1 s2
          by (rule 1 [OF Some _ refl refl after that(1) refl refl that(2) refl that(3)]) (simp add: dir)
        show ?thesis
        proof (cases "lookup cur rest (length ?comp) s")
          case None
          then show ?thesis unfolding w cs using Some dir by (simp add: l)
        next
          case look: (Some x)
          obtain r1 res1 s1 where x: "x = (r1, res1, s1)" by (cases x)
          show ?thesis
          proof (cases "0 \<le> r1 \<and> res1 \<noteq> None \<and> vput cur s1 \<noteq> None")
            case True
            then obtain v s2 where "0 \<le> r1" "res1 = Some v" "vput cur s1 = Some s2" by auto
            then show ?thesis unfolding w cs using Some dir look x IH [of r1 v s1 s2] by (simp add: l)
          next
            case False
            then show ?thesis unfolding w cs using Some dir look x
              by (cases "vput cur s1") (auto simp: l reached_def)
          qed
        qed
      qed
    qed
  qed
qed

theorem walk_looks_up_components_witness:
  "map_option reached (walk 0 None ''usr//bin/ls'' mounted) = resolve 0 [''usr'', ''bin''] mounted"
proof -
  have "comps ''usr//bin/ls'' = [''usr'', ''bin'', ''ls'']" by (simp add: comps.simps Let_def)
  then show ?thesis using walk_looks_up_components [of 0 None "''usr//bin/ls''" mounted] by simp
qed

end
