(* ===== verification/Vfs.thy ===== *)
theory Vfs
imports Namev
begin

text \<open>
  Open files and the system calls of the virtual file system: \<^verbatim>\<open>fs/file.c\<close>,
  \<^verbatim>\<open>fs/open.c\<close> and \<^verbatim>\<open>fs/vfs_syscall.c\<close>, with the operations of special
  files from \<^verbatim>\<open>fs/vnode.c\<close>, for one process.  The read and write routines of the
  byte device drivers are an argument.  A path is a string, or \<^const>\<open>None\<close> for NULL
  where the code looks at that; a file structure is named by its address.
\<close>

abbreviation (input) NFILES :: int where "NFILES \<equiv> 32"
abbreviation (input) FMODE_READ :: "32 word" where "FMODE_READ \<equiv> 1"
abbreviation (input) FMODE_WRITE :: "32 word" where "FMODE_WRITE \<equiv> 2"
abbreviation (input) FMODE_APPEND :: "32 word" where "FMODE_APPEND \<equiv> 4"
abbreviation (input) O_RDONLY :: "32 word" where "O_RDONLY \<equiv> 0"
abbreviation (input) O_WRONLY :: "32 word" where "O_WRONLY \<equiv> 1"
abbreviation (input) O_RDWR :: "32 word" where "O_RDWR \<equiv> 2"
abbreviation (input) O_APPEND :: "32 word" where "O_APPEND \<equiv> 0x400"
abbreviation (input) SEEK_SET :: int where "SEEK_SET \<equiv> 0"
abbreviation (input) SEEK_CUR :: int where "SEEK_CUR \<equiv> 1"
abbreviation (input) SEEK_END :: int where "SEEK_END \<equiv> 2"

record file_t =
  f_pos :: int
  f_mode :: "32 word"
  f_refcount :: int
  f_vnode :: "nat option"

record vfs = vfs_dir +
  file_tab :: "nat \<Rightarrow> file_t option"
  next_file :: nat
  p_files :: "nat option list"

definition put_file :: "nat \<Rightarrow> file_t option \<Rightarrow> 'a vfs_scheme \<Rightarrow> 'a vfs_scheme" where
  "put_file f x s = s\<lparr>file_tab := (file_tab s)(f := x)\<rparr>"

definition set_fd :: "int \<Rightarrow> nat option \<Rightarrow> 'a vfs_scheme \<Rightarrow> 'a vfs_scheme option" where
  "set_fd fd f s = (if 0 \<le> fd \<and> nat fd < length (p_files s) then Some (s\<lparr>p_files := (p_files s)[nat fd := f]\<rparr>) else None)"

section \<open>File structures\<close>

definition fref :: "nat \<Rightarrow> 'a vfs_scheme \<Rightarrow> 'a vfs_scheme option" where
  "fref f s = do {
     x \<leftarrow> file_tab s f;
     KASSERT (f_mode x < 8);
     KASSERT (- 1 \<le> f_pos x);
     KASSERT (0 \<le> f_refcount x);
     KASSERT (f_refcount x \<noteq> 0 \<longrightarrow> f_vnode x \<noteq> None);
     Some (put_file f (Some (x\<lparr>f_refcount := f_refcount x + 1\<rparr>)) s)
   }"

definition fget :: "int \<Rightarrow> 'a vfs_scheme \<Rightarrow> (nat option \<times> 'a vfs_scheme) option" where
  "fget fd s =
     (if fd = - 1 then
        let (ok, s) = kalloc s in
        if \<not> ok then Some (None, s)
        else do {
          let f = next_file s;
          let s = put_file f (Some \<lparr>f_pos = 0, f_mode = 0, f_refcount = 0, f_vnode = None\<rparr>) (s\<lparr>next_file := f + 1\<rparr>);
          s \<leftarrow> fref f s;
          Some (Some f, s)
        }
      else if fd < 0 \<or> NFILES \<le> fd then Some (None, s)
      else case p_files s ! nat fd of
        None \<Rightarrow> Some (None, s)
      | Some f \<Rightarrow> do { s \<leftarrow> fref f s; Some (Some f, s) })"

definition fput :: "nat option \<Rightarrow> 'a vfs_scheme \<Rightarrow> 'a vfs_scheme option" where
  "fput fp s = do {
     f \<leftarrow> fp;
     x \<leftarrow> file_tab s f;
     KASSERT (f_mode x < 8);
     KASSERT (- 1 \<le> f_pos x);
     KASSERT (0 < f_refcount x);
     KASSERT (f_refcount x \<noteq> 1 \<longrightarrow> f_vnode x \<noteq> None);
     let n = f_refcount x - 1;
     if n = 0 then do {
       s \<leftarrow> (case f_vnode x of None \<Rightarrow> Some s | Some v \<Rightarrow> vput v s);
       Some (put_file f None s)
     } else Some (put_file f (Some (x\<lparr>f_refcount := n\<rparr>)) s)
   }"

definition get_empty_fd :: "'a vfs_scheme \<Rightarrow> int" where
  "get_empty_fd s = (case find (\<lambda>fd. p_files s ! fd = None) [0..<32] of None \<Rightarrow> - EMFILE | Some fd \<Rightarrow> int fd)"

section \<open>Special files and the dispatch of read and write\<close>

record dev_env =
  de_read :: "bytedev \<Rightarrow> int \<Rightarrow> 32 word \<Rightarrow> (int \<times> byte list) option"
  de_write :: "bytedev \<Rightarrow> int \<Rightarrow> byte list \<Rightarrow> 32 word \<Rightarrow> int option"

definition special_file_read :: "dev_env \<Rightarrow> nat \<Rightarrow> int \<Rightarrow> 32 word \<Rightarrow> 'a fsys_scheme \<Rightarrow> (int \<times> byte list) option" where
  "special_file_read env v offset count s = do {
     vn \<leftarrow> vnodes s v;
     KASSERT (S_ISCHR (vn_mode vn) \<or> S_ISBLK (vn_mode vn));
     if S_ISCHR (vn_mode vn) then do {
       cd \<leftarrow> vn_cdev vn;
       KASSERT (cd_ops cd \<noteq> None);
       de_read env cd offset count
     } else Some (- ENOTSUP, [])
   }"

definition special_file_write :: "dev_env \<Rightarrow> nat \<Rightarrow> int \<Rightarrow> byte list \<Rightarrow> 32 word \<Rightarrow> 'a fsys_scheme \<Rightarrow> int option" where
  "special_file_write env v offset buf count s = do {
     vn \<leftarrow> vnodes s v;
     KASSERT (S_ISCHR (vn_mode vn) \<or> S_ISBLK (vn_mode vn));
     if S_ISCHR (vn_mode vn) then do {
       cd \<leftarrow> vn_cdev vn;
       KASSERT (cd_ops cd \<noteq> None);
       de_write env cd offset buf count
     } else Some (- ENOTSUP)
   }"

definition special_file_stat :: "nat \<Rightarrow> 'a fsys_scheme \<Rightarrow> (int \<times> stat) option" where
  "special_file_stat v s = do {
     has \<leftarrow> has_op s (fs_root s) Op_stat;
     KASSERT has;
     ramfs_stat v s
   }"

definition vop_read :: "dev_env \<Rightarrow> nat \<Rightarrow> int \<Rightarrow> 32 word \<Rightarrow> 'a fsys_scheme \<Rightarrow> (int \<times> byte list) option" where
  "vop_read env v offset count s = do {
     vn \<leftarrow> vnodes s v;
     ops \<leftarrow> vn_ops vn;
     case ops of Ramfs_file \<Rightarrow> ramfs_read v offset count s
     | Bytedev_spec \<Rightarrow> special_file_read env v offset count s
     | _ \<Rightarrow> None
   }"

definition vop_write :: "dev_env \<Rightarrow> nat \<Rightarrow> int \<Rightarrow> byte list \<Rightarrow> 32 word \<Rightarrow> 'a fsys_scheme \<Rightarrow> (int \<times> 'a fsys_scheme) option" where
  "vop_write env v offset buf count s = do {
     vn \<leftarrow> vnodes s v;
     ops \<leftarrow> vn_ops vn;
     case ops of Ramfs_file \<Rightarrow> ramfs_write v offset buf count s
     | Bytedev_spec \<Rightarrow> do { r \<leftarrow> special_file_write env v offset buf count s; Some (r, s) }
     | _ \<Rightarrow> None
   }"

section \<open>Reading, writing, seeking\<close>

definition do_lseek :: "int \<Rightarrow> int \<Rightarrow> int \<Rightarrow> 'a vfs_scheme \<Rightarrow> (int \<times> 'a vfs_scheme) option" where
  "do_lseek fd offset whence s =
     (if fd < 0 \<or> NFILES \<le> fd then Some (- EBADF, s)
      else if whence \<notin> {SEEK_SET, SEEK_CUR, SEEK_END} then Some (- EINVAL, s)
      else do {
        (fp, s) \<leftarrow> fget fd s;
        case fp of None \<Rightarrow> Some (- EBADF, s)
        | Some f \<Rightarrow> do {
            x \<leftarrow> file_tab s f;
            pos \<leftarrow> (if whence = SEEK_SET then Some offset
                    else if whence = SEEK_CUR then sadd32 (f_pos x) offset
                    else do { v \<leftarrow> f_vnode x; vn \<leftarrow> vnodes s v; sadd32 (vn_len vn) offset });
            if pos < 0 then do { s \<leftarrow> fput fp s; Some (- EINVAL, s) }
            else do {
              let s = put_file f (Some (x\<lparr>f_pos := pos\<rparr>)) s;
              s \<leftarrow> fput fp s;
              Some (pos, s)
            }
          }
      })"

definition do_read :: "dev_env \<Rightarrow> int \<Rightarrow> 32 word \<Rightarrow> 'a vfs_scheme \<Rightarrow> (int \<times> byte list \<times> 'a vfs_scheme) option" where
  "do_read env fd nbytes s =
     (if fd < 0 \<or> NFILES < fd then Some (- EBADF, [], s)
      else do {
        (fp, s) \<leftarrow> fget fd s;
        if nbytes = 0 then do { s \<leftarrow> fput fp s; Some (0, [], s) }
        else case fp of None \<Rightarrow> Some (- EBADF, [], s)
        | Some f \<Rightarrow> do {
            x \<leftarrow> file_tab s f;
            if f_mode x AND FMODE_READ = 0 then do { s \<leftarrow> fput fp s; Some (- EBADF, [], s) }
            else do {
              v \<leftarrow> f_vnode x;
              vn \<leftarrow> vnodes s v;
              if S_ISDIR (vn_mode vn) then do { s \<leftarrow> fput fp s; Some (- EISDIR, [], s) }
              else do {
                has \<leftarrow> has_op s v Op_read;
                if \<not> has then do { s \<leftarrow> fput fp s; Some (- EISDIR, [], s) }
                else do {
                  (read_bytes, bs) \<leftarrow> vop_read env v (f_pos x) nbytes s;
                  (_, s) \<leftarrow> (if nbytes - word_of_int read_bytes = 0 then do_lseek fd read_bytes SEEK_CUR s
                            else do_lseek fd 0 SEEK_END s);
                  s \<leftarrow> fput fp s;
                  Some (read_bytes, bs, s)
                }
              }
            }
          }
      })"

text \<open>The part of \<^verbatim>\<open>do_write\<close> that moves the position and writes; its error ends the call.\<close>

definition write_at :: "dev_env \<Rightarrow> int \<Rightarrow> nat \<Rightarrow> nat \<Rightarrow> byte list \<Rightarrow> 32 word \<Rightarrow> 'a vfs_scheme
    \<Rightarrow> (bool \<times> int \<times> 'a vfs_scheme) option" where
  "write_at env fd f v buf nbytes s = do {
     x \<leftarrow> file_tab s f;
     if f_mode x AND FMODE_APPEND \<noteq> 0 then do {
       (r, s) \<leftarrow> do_lseek fd 0 SEEK_END s;
       if r < 0 then Some (False, r, s)
       else do {
         x \<leftarrow> file_tab s f;
         (write_bytes, s) \<leftarrow> vop_write env v (f_pos x) buf nbytes s;
         (_, s) \<leftarrow> do_lseek fd 0 SEEK_END s;
         Some (True, write_bytes, s)
       }
     } else do {
       (write_bytes, s) \<leftarrow> vop_write env v (f_pos x) buf nbytes s;
       (_, s) \<leftarrow> do_lseek fd write_bytes SEEK_CUR s;
       Some (True, write_bytes, s)
     }
   }"

definition do_write :: "dev_env \<Rightarrow> int \<Rightarrow> byte list \<Rightarrow> 32 word \<Rightarrow> 'a vfs_scheme \<Rightarrow> (int \<times> 'a vfs_scheme) option" where
  "do_write env fd buf nbytes s =
     (if fd < 0 \<or> NFILES < fd then Some (- EBADF, s)
      else do {
        (fp, s) \<leftarrow> fget fd s;
        case fp of None \<Rightarrow> Some (- EBADF, s)
        | Some f \<Rightarrow> do {
            x \<leftarrow> file_tab s f;
            if f_mode x AND FMODE_WRITE = 0 \<and> f_mode x AND FMODE_APPEND = 0 then do { s \<leftarrow> fput fp s; Some (- EBADF, s) }
            else do {
              v \<leftarrow> f_vnode x;
              vn \<leftarrow> vnodes s v;
              if S_ISDIR (vn_mode vn) then do { s \<leftarrow> fput fp s; Some (- EISDIR, s) }
              else do {
                has \<leftarrow> has_op s v Op_write;
                if \<not> has then do { s \<leftarrow> fput fp s; Some (- EISDIR, s) }
                else do {
                  (finished, r, s) \<leftarrow> write_at env fd f v buf nbytes s;
                  s \<leftarrow> fput fp s;
                  if \<not> finished then Some (r, s)
                  else do {
                    x \<leftarrow> file_tab s f;
                    v \<leftarrow> f_vnode x;
                    vn \<leftarrow> vnodes s v;
                    KASSERT (S_ISCHR (vn_mode vn) \<or> S_ISBLK (vn_mode vn) \<or> (S_ISREG (vn_mode vn) \<and> f_pos x \<le> vn_len vn));
                    Some (r, s)
                  }
                }
              }
            }
          }
      })"

section \<open>Descriptors\<close>

definition do_close :: "int \<Rightarrow> 'a vfs_scheme \<Rightarrow> (int \<times> 'a vfs_scheme) option" where
  "do_close fd s =
     (if fd < 0 \<or> NFILES < fd then Some (- EBADF, s)
      else do {
        (fp, s) \<leftarrow> fget fd s;
        case fp of None \<Rightarrow> Some (- EBADF, s)
        | Some f \<Rightarrow> do {
            s \<leftarrow> fput fp s;
            s \<leftarrow> set_fd fd None s;
            s \<leftarrow> fput fp s;
            Some (0, s)
          }
      })"

definition do_dup :: "int \<Rightarrow> 'a vfs_scheme \<Rightarrow> (int \<times> 'a vfs_scheme) option" where
  "do_dup fd s =
     (if fd < 0 \<or> NFILES < fd then Some (- EBADF, s)
      else do {
        (fp, s) \<leftarrow> fget fd s;
        case fp of None \<Rightarrow> Some (- EBADF, s)
        | Some f \<Rightarrow>
            let newfd = get_empty_fd s in
            if newfd = - EMFILE then do { s \<leftarrow> fput fp s; Some (- EMFILE, s) }
            else do { s \<leftarrow> set_fd newfd (Some f) s; Some (newfd, s) }
      })"

text \<open>The check lets the descriptor 32 pass, one behind the end of the table.\<close>

definition do_dup2 :: "int \<Rightarrow> int \<Rightarrow> 'a vfs_scheme \<Rightarrow> (int \<times> 'a vfs_scheme) option" where
  "do_dup2 ofd nfd s =
     (if ofd < 0 \<or> NFILES < ofd then Some (- EBADF, s)
      else if nfd < 0 \<or> NFILES < nfd then Some (- EBADF, s)
      else do {
        (fp, s) \<leftarrow> fget ofd s;
        case fp of None \<Rightarrow> Some (- EBADF, s)
        | Some f \<Rightarrow>
            if nfd = ofd then do { s \<leftarrow> fput fp s; Some (nfd, s) }
            else do {
              KASSERT (nat nfd < length (p_files s));
              s \<leftarrow> (if p_files s ! nat nfd \<noteq> None then do { (_, s) \<leftarrow> do_close nfd s; Some s } else Some s);
              s \<leftarrow> set_fd nfd (Some f) s;
              Some (nfd, s)
            }
      })"

definition open_mode :: "32 word \<Rightarrow> 32 word" where
  "open_mode oflags =
     (if oflags = O_RDONLY then FMODE_READ
      else if oflags = O_WRONLY then FMODE_WRITE
      else if oflags = O_RDWR then FMODE_READ OR FMODE_WRITE
      else if oflags = O_APPEND then FMODE_WRITE OR FMODE_APPEND
      else if oflags = O_RDONLY OR O_CREAT then FMODE_READ
      else if oflags = O_RDWR OR O_CREAT then FMODE_READ OR FMODE_WRITE
      else FMODE_READ OR FMODE_WRITE OR FMODE_APPEND)"

definition open_flags :: "32 word list" where
  "open_flags = [O_RDONLY, O_WRONLY, O_RDWR, O_APPEND, O_RDONLY OR O_CREAT, O_RDWR OR O_CREAT, O_RDWR OR O_APPEND]"

text \<open>The last steps of \<^verbatim>\<open>do_open\<close>: the checks on the vnode found.\<close>

definition open_vnode :: "nat \<Rightarrow> int \<Rightarrow> nat \<Rightarrow> 32 word \<Rightarrow> 'a vfs_scheme \<Rightarrow> (int \<times> 'a vfs_scheme) option" where
  "open_vnode v fd f oflags s = do {
     vn \<leftarrow> vnodes s v;
     if S_ISDIR (vn_mode vn) \<and> (oflags AND O_WRONLY \<noteq> 0 \<or> oflags AND O_RDWR \<noteq> 0) then do {
       s \<leftarrow> set_fd fd None s; s \<leftarrow> vput v s; s \<leftarrow> fput (Some f) s; Some (- EISDIR, s)
     } else do {
       let bdev = blockdev_lookup (blockdevs s) (vn_devid vn);
       let s = (if S_ISBLK (vn_mode vn) then put_vnode v (Some (vn\<lparr>vn_bdev := bdev\<rparr>)) s else s);
       if S_ISBLK (vn_mode vn) \<and> bdev = None then do {
         s \<leftarrow> set_fd fd None s; s \<leftarrow> fput (Some f) s; s \<leftarrow> vput v s; Some (- ENXIO, s)
       } else do {
         cdev \<leftarrow> (if S_ISCHR (vn_mode vn) then bytedev_lookup (bytedevs s) (vn_devid vn) else Some None);
         let s = (if S_ISCHR (vn_mode vn) then put_vnode v (Some (vn\<lparr>vn_cdev := cdev\<rparr>)) s else s);
         if S_ISCHR (vn_mode vn) \<and> cdev = None then do {
           s \<leftarrow> set_fd fd None s; s \<leftarrow> fput (Some f) s; s \<leftarrow> vput v s; Some (- ENXIO, s)
         } else do {
           x \<leftarrow> file_tab s f;
           Some (fd, put_file f (Some (x\<lparr>f_pos := 0, f_vnode := Some v\<rparr>)) s)
         }
       }
     }
   }"

definition do_open :: "string \<Rightarrow> 32 word \<Rightarrow> 'a vfs_scheme \<Rightarrow> (int \<times> 'a vfs_scheme) option" where
  "do_open filename oflags s =
     (if oflags \<notin> set open_flags then Some (- EINVAL, s)
      else
        let fd = get_empty_fd s in
        if fd = - EMFILE then Some (- EMFILE, s)
        else do {
          (fp, s) \<leftarrow> fget (- 1) s;
          case fp of None \<Rightarrow> Some (- ENOMEM, s)
          | Some f \<Rightarrow> do {
              s \<leftarrow> set_fd fd (Some f) s;
              x \<leftarrow> file_tab s f;
              let s = put_file f (Some (x\<lparr>f_mode := open_mode oflags\<rparr>)) s;
              (r, res, _, s) \<leftarrow> open_namev filename oflags None s;
              if r \<noteq> 0 then do { s \<leftarrow> set_fd fd None s; s \<leftarrow> fput fp s; Some (r, s) }
              else do { v \<leftarrow> res; open_vnode v fd f oflags s }
            }
        })"

section \<open>Calls with a path\<close>

definition do_mknod :: "string option \<Rightarrow> 32 word \<Rightarrow> devid \<Rightarrow> 'a vfs_dir_scheme \<Rightarrow> (int \<times> 'a vfs_dir_scheme) option" where
  "do_mknod path mode devid s =
     (if \<not> (S_ISCHR mode \<or> S_ISBLK mode) \<or> path = None then Some (- EINVAL, s)
      else do {
        p \<leftarrow> path;
        if length p > MAXPATHLEN then Some (- ENAMETOOLONG, s)
        else do {
          nv \<leftarrow> dir_namev p None s;
          let s = nv_state nv;
          if nv_ret nv \<noteq> 0 then Some (nv_ret nv, s)
          else do {
            dir \<leftarrow> nv_res nv;
            (r, _, s) \<leftarrow> lookup dir (nv_name nv) (nv_len nv) s;
            if r = 0 then do { s \<leftarrow> vput dir s; Some (- EEXIST, s) }
            else do {
              has \<leftarrow> has_op s dir Op_mknod;
              KASSERT has;
              vn \<leftarrow> vnodes s dir;
              if r = - ENOTDIR \<or> \<not> S_ISDIR (vn_mode vn) then do { s \<leftarrow> vput dir s; Some (- ENOTDIR, s) }
              else if r = - ENOENT then do {
                (r, s) \<leftarrow> ramfs_mknod dir (nv_name nv) (nv_len nv) mode devid s;
                s \<leftarrow> vput dir s;
                Some (r, s)
              } else do { s \<leftarrow> vput dir s; Some (r, s) }
            }
          }
        }
      })"

definition do_mkdir :: "string option \<Rightarrow> 'a vfs_dir_scheme \<Rightarrow> (int \<times> 'a vfs_dir_scheme) option" where
  "do_mkdir path s = do {
     p \<leftarrow> path;
     if length p > MAXPATHLEN then Some (- ENAMETOOLONG, s)
     else do {
       nv \<leftarrow> dir_namev p None s;
       let s = nv_state nv;
       if nv_ret nv \<noteq> 0 then Some (nv_ret nv, s)
       else do {
         dir \<leftarrow> nv_res nv;
         if length (nv_name nv) > NAME_LEN then do { s \<leftarrow> vput dir s; Some (- ENAMETOOLONG, s) }
         else do {
           (r, res, s) \<leftarrow> lookup dir (nv_name nv) (nv_len nv) s;
           if r = 0 then do { c \<leftarrow> res; s \<leftarrow> vput c s; s \<leftarrow> vput dir s; Some (- EEXIST, s) }
           else do {
             has \<leftarrow> has_op s dir Op_mkdir;
             KASSERT has;
             vn \<leftarrow> vnodes s dir;
             if \<not> S_ISDIR (vn_mode vn) then do { s \<leftarrow> vput dir s; Some (- ENOTDIR, s) }
             else do {
               (r, s) \<leftarrow> ramfs_mkdir dir (nv_name nv) (nv_len nv) s;
               s \<leftarrow> vput dir s;
               Some (r, s)
             }
           }
         }
       }
     }
   }"

text \<open>
  \<^verbatim>\<open>do_rmdir\<close> looks at two things it does not know: the result pointer before it
  knows whether the walk succeeded (\<^verbatim>\<open>stale\<close>: it happens to be NULL), and the byte
  before a path of one character.
\<close>

definition do_rmdir :: "bool \<Rightarrow> char \<Rightarrow> string option \<Rightarrow> 'a vfs_dir_scheme \<Rightarrow> (int \<times> 'a vfs_dir_scheme) option" where
  "do_rmdir stale before path s =
     (case path of
        None \<Rightarrow> Some (- EINVAL, s)
      | Some p \<Rightarrow>
          if length p > MAXPATHLEN then Some (- ENAMETOOLONG, s)
          else do {
            nv \<leftarrow> dir_namev p None s;
            let s = nv_state nv;
            if nv_res nv = None \<and> stale then Some (- ENOENT, s)
            else if nv_ret nv \<noteq> 0 then Some (nv_ret nv, s)
            else do {
              dir \<leftarrow> nv_res nv;
              let q = before # nv_path nv;
              if last q = CHR ''.'' then do {
                s \<leftarrow> vput dir s;
                Some (if last (butlast q) = CHR ''.'' then - ENOTEMPTY else - EINVAL, s)
              } else do {
                has \<leftarrow> has_op s dir Op_rmdir;
                if \<not> has then do { s \<leftarrow> vput dir s; Some (- ENOTDIR, s) }
                else do {
                  (r, s) \<leftarrow> ramfs_rmdir dir (nv_name nv) (nv_len nv) s;
                  s \<leftarrow> vput dir s;
                  Some (r, s)
                }
              }
            }
          })"

definition do_unlink :: "string \<Rightarrow> 'a vfs_dir_scheme \<Rightarrow> (int \<times> 'a vfs_dir_scheme) option" where
  "do_unlink path s =
     (if length path > MAXPATHLEN then Some (- ENAMETOOLONG, s)
      else do {
        nv \<leftarrow> dir_namev path None s;
        let s = nv_state nv;
        if nv_ret nv \<noteq> 0 then Some (nv_ret nv, s)
        else do {
          dir \<leftarrow> nv_res nv;
          if length (nv_name nv) > NAME_LEN then do { s \<leftarrow> vput dir s; Some (- ENAMETOOLONG, s) }
          else do {
            (r, res, s) \<leftarrow> lookup dir (nv_name nv) (nv_len nv) s;
            if r \<noteq> 0 then do { s \<leftarrow> vput dir s; Some (r, s) }
            else do {
              c \<leftarrow> res;
              vn \<leftarrow> vnodes s c;
              if S_ISDIR (vn_mode vn) then do { s \<leftarrow> vput dir s; s \<leftarrow> vput c s; Some (- EISDIR, s) }
              else do {
                has \<leftarrow> has_op s dir Op_unlink;
                KASSERT has;
                (r, s) \<leftarrow> ramfs_unlink dir (nv_name nv) (nv_len nv) s;
                s \<leftarrow> vput dir s;
                s \<leftarrow> vput c s;
                Some (r, s)
              }
            }
          }
        }
      })"

text \<open>The result includes what is left of the first path, which \<^verbatim>\<open>do_rename\<close> uses again.\<close>

definition do_link :: "string \<Rightarrow> string \<Rightarrow> 'a vfs_dir_scheme \<Rightarrow> (int \<times> string \<times> 'a vfs_dir_scheme) option" where
  "do_link from dest s =
     (if length from > MAXPATHLEN then Some (- ENAMETOOLONG, from, s)
      else if length dest > MAXPATHLEN then Some (- ENAMETOOLONG, from, s)
      else if length dest < 1 \<or> length from < 1 then Some (- EINVAL, from, s)
      else do {
        (r, res, from', s) \<leftarrow> open_namev from 0 None s;
        if r \<noteq> 0 then Some (r, from', s)
        else do {
          old \<leftarrow> res;
          nv \<leftarrow> dir_namev dest None s;
          let s = nv_state nv;
          if nv_ret nv \<noteq> 0 then do { s \<leftarrow> vput old s; Some (nv_ret nv, from', s) }
          else do {
            dir \<leftarrow> nv_res nv;
            if length (nv_name nv) > NAME_LEN then do { s \<leftarrow> vput old s; s \<leftarrow> vput dir s; Some (- ENAMETOOLONG, from', s) }
            else do {
              (r, res, s) \<leftarrow> lookup dir (nv_name nv) (nv_len nv) s;
              if r = 0 then do { c \<leftarrow> res; s \<leftarrow> vput old s; s \<leftarrow> vput dir s; s \<leftarrow> vput c s; Some (- EEXIST, from', s) }
              else do {
                has \<leftarrow> has_op s dir Op_link;
                if \<not> has then do { s \<leftarrow> vput old s; s \<leftarrow> vput dir s; Some (- ENOTDIR, from', s) }
                else do {
                  (r, s) \<leftarrow> ramfs_link old dir (nv_name nv) (nv_len nv) s;
                  s \<leftarrow> vput old s;
                  s \<leftarrow> vput dir s;
                  Some (r, from', s)
                }
              }
            }
          }
        }
      })"

definition do_rename :: "string \<Rightarrow> string \<Rightarrow> 'a vfs_dir_scheme \<Rightarrow> (int \<times> 'a vfs_dir_scheme) option" where
  "do_rename oldname newname s = do {
     (r, oldname', s) \<leftarrow> do_link oldname newname s;
     if r \<noteq> 0 then Some (r, s) else do_unlink oldname' s
   }"

definition do_chdir :: "string option \<Rightarrow> 'a vfs_dir_scheme \<Rightarrow> (int \<times> 'a vfs_dir_scheme) option" where
  "do_chdir path s = do {
     p \<leftarrow> path;
     if length p > MAXPATHLEN then Some (- ENAMETOOLONG, s)
     else do {
       let old = p_cwd s;
       (r, res, _, s) \<leftarrow> open_namev p 0 None s;
       if r \<noteq> 0 then Some (r, s)
       else do {
         v \<leftarrow> res;
         vn \<leftarrow> vnodes s v;
         if \<not> S_ISDIR (vn_mode vn) then do { s \<leftarrow> vput v s; Some (- ENOTDIR, s) }
         else do { s \<leftarrow> vput old s; Some (0, s\<lparr>p_cwd := v\<rparr>) }
       }
     }
   }"

text \<open>The size of the user's directory entry is 40 bytes.\<close>

definition do_getdent :: "int \<Rightarrow> 'a vfs_scheme \<Rightarrow> (int \<times> dirent option \<times> 'a vfs_scheme) option" where
  "do_getdent fd s =
     (if fd < 0 \<or> NFILES \<le> fd then Some (- EBADF, None, s)
      else do {
        (fp, s) \<leftarrow> fget fd s;
        case fp of None \<Rightarrow> Some (- EBADF, None, s)
        | Some f \<Rightarrow> do {
            x \<leftarrow> file_tab s f;
            v \<leftarrow> f_vnode x;
            vn \<leftarrow> vnodes s v;
            if \<not> S_ISDIR (vn_mode vn) then do { s \<leftarrow> fput fp s; Some (- ENOTDIR, None, s) }
            else do {
              has \<leftarrow> has_op s v Op_readdir;
              if \<not> has then do { s \<leftarrow> fput fp s; Some (- ENOTDIR, None, s) }
              else do {
                (r, d) \<leftarrow> ramfs_readdir v (f_pos x) s;
                s \<leftarrow> fput fp s;
                if r < 0 then Some (r, None, s)
                else if r \<noteq> 0 then do { (_, s) \<leftarrow> do_lseek fd r SEEK_CUR s; Some (40, d, s) }
                else do { (_, s) \<leftarrow> do_lseek fd 0 SEEK_END s; Some (0, d, s) }
              }
            }
          }
      })"

text \<open>The directory's reference is given back before its operation table is read.\<close>

definition do_stat :: "string \<Rightarrow> 'a vfs_dir_scheme \<Rightarrow> (int \<times> stat option \<times> 'a vfs_dir_scheme) option" where
  "do_stat path s =
     (if length path > MAXPATHLEN then Some (- ENAMETOOLONG, None, s)
      else if length path < 1 then Some (- EINVAL, None, s)
      else do {
        nv \<leftarrow> dir_namev path None s;
        let s = nv_state nv;
        if nv_ret nv \<noteq> 0 then Some (nv_ret nv, None, s)
        else do {
          dir \<leftarrow> nv_res nv;
          vn \<leftarrow> vnodes s dir;
          if \<not> S_ISDIR (vn_mode vn) then do { s \<leftarrow> vput dir s; Some (- ENOTDIR, None, s) }
          else do {
            (r, res, s) \<leftarrow> lookup dir (nv_name nv) (nv_len nv) s;
            if r \<noteq> 0 then do { s \<leftarrow> vput dir s; Some (r, None, s) }
            else do {
              c \<leftarrow> res;
              has \<leftarrow> has_op s c Op_stat;
              KASSERT has;
              s \<leftarrow> vput dir s;
              has \<leftarrow> has_op s dir Op_stat;
              KASSERT has;
              (_, st) \<leftarrow> ramfs_stat c s;
              s \<leftarrow> vput c s;
              Some (0, Some st, s)
            }
          }
        }
      })"

section \<open>Mounting the root file system and shutting down\<close>

text \<open>
  \<^verbatim>\<open>fs/vfs.c\<close> in a kernel built without s5fs, where the root file system is a ramfs.
  A failed mount is a panic, as are live vnodes at the shutdown.
\<close>

definition mountfunc :: "string \<Rightarrow> 'a fsys_scheme \<Rightarrow> (int \<times> 'a fsys_scheme) option" where
  "mountfunc fs_type s = (if fs_type = ''ramfs'' then ramfs_mount s else Some (- EINVAL, s))"

definition vfs_init :: "'a fsys_scheme \<Rightarrow> 'a fsys_scheme option" where
  "vfs_init s = do {
     let (ok, s) = kalloc s;
     KASSERT ok;
     (err, s) \<leftarrow> mountfunc ''ramfs'' s;
     KASSERT (\<not> err < 0);
     Some s
   }"

definition vfs_shutdown :: "'a fsys_scheme \<Rightarrow> (int \<times> 'a fsys_scheme) option" where
  "vfs_shutdown s = do {
     busy \<leftarrow> vfs_is_in_use s;
     KASSERT (\<not> busy < 0);
     (ret, s) \<leftarrow> ramfs_umount s;
     KASSERT (vnode_inuse s = 0);
     Some (ret, s)
   }"

text \<open>
  The working directories of the idle and the init process (\<^verbatim>\<open>idleproc_run\<close>), what
  the init process gives back when it exits (the part of \<^verbatim>\<open>proc_cleanup\<close> about files)
  and what the idle process does once it is gone.
\<close>

definition set_cwds :: "'a vfs_dir_scheme \<Rightarrow> 'a vfs_dir_scheme option" where
  "set_cwds s = do {
     let s = s\<lparr>p_cwd := fs_root s\<rparr>;
     s \<leftarrow> vref (p_cwd s) s;
     vref (p_cwd s) s
   }"

fun close_fds :: "nat list \<Rightarrow> 'a vfs_scheme \<Rightarrow> 'a vfs_scheme option" where
  "close_fds [] s = Some s"
| "close_fds (fd # rest) s = do {
     s \<leftarrow> (if p_files s ! fd = None then Some s else do { (_, s) \<leftarrow> do_close (int fd) s; Some s });
     close_fds rest s
   }"

definition cleanup_files :: "'a vfs_scheme \<Rightarrow> 'a vfs_scheme option" where
  "cleanup_files s = do { s \<leftarrow> vput (p_cwd s) s; close_fds [0..<32] s }"

definition idle_shutdown :: "'a fsys_scheme \<Rightarrow> 'a fsys_scheme option" where
  "idle_shutdown s = do {
     s \<leftarrow> vput (fs_root s) s;
     (ret, s) \<leftarrow> vfs_shutdown s;
     KASSERT (ret = 0);
     Some s
   }"

end
