(* ===== verification/VfsInv.thy ===== *)
theory VfsInv
imports Vfs
begin

text \<open>
  The books of the virtual file system.  Between system calls every vnode is referenced
  exactly as often as the root, the working directory and the open files refer to it, and
  every file structure as often as the descriptor table does; the root is the vnode 0.  Inside a call the caller owns
  further references: \<^verbatim>\<open>j\<close> to vnodes, \<^verbatim>\<open>k\<close> to files; the files in
  \<^verbatim>\<open>R\<close> have no vnode yet.
\<close>

definition files_at :: "'a vfs_scheme \<Rightarrow> nat \<Rightarrow> nat set" where
  "files_at s w = {f. \<exists>x. file_tab s f = Some x \<and> f_vnode x = Some w}"

definition held :: "'a vfs_scheme \<Rightarrow> nat \<Rightarrow> int" where
  "held s w = one (fs_root s) w + one (p_cwd s) w + int (card (files_at s w))"

definition fds :: "'a vfs_scheme \<Rightarrow> nat \<Rightarrow> nat" where
  "fds s f = length (filter (\<lambda>y. y = Some f) (p_files s))"

definition file_ok :: "nat set \<Rightarrow> int \<Rightarrow> int \<Rightarrow> nat \<Rightarrow> file_t option \<Rightarrow> bool" where
  "file_ok R n k f x \<longleftrightarrow> (case x of None \<Rightarrow> n = 0 \<and> k = 0
     | Some x \<Rightarrow> f_mode x < 8 \<and> 0 \<le> f_pos x \<and> f_refcount x = n + k \<and> 0 < f_refcount x \<and> 0 \<le> k \<and> (f_vnode x = None \<longrightarrow> f \<in> R))"

definition vfs_bal :: "(nat \<Rightarrow> int) \<Rightarrow> (nat \<Rightarrow> int) \<Rightarrow> nat set \<Rightarrow> 'a vfs_scheme \<Rightarrow> bool" where
  "vfs_bal j k R s \<longleftrightarrow> fs_inv s \<and> (\<forall>w. rc s w = held s w + j w) \<and> length (p_files s) = 32
     \<and> finite (dom (file_tab s)) \<and> (\<forall>f \<ge> next_file s. file_tab s f = None)
     \<and> (\<forall>f. file_ok R (int (fds s f)) (k f) f (file_tab s f)) \<and> fs_root s = 0"

abbreviation vfs_ok :: "'a vfs_scheme \<Rightarrow> bool" where
  "vfs_ok \<equiv> vfs_bal (\<lambda>_. 0) (\<lambda>_. 0) {}"

lemma vfs_balD:
  assumes "vfs_bal j k R s"
  shows "fs_inv s" "rc s w = held s w + j w" "length (p_files s) = 32" "finite (dom (file_tab s))"
    "next_file s \<le> f \<Longrightarrow> file_tab s f = None" "file_ok R (int (fds s f)) (k f) f (file_tab s f)" "fs_root s = 0"
  using assms by (auto simp: vfs_bal_def)

lemma vfs_bal_file:
  assumes "vfs_bal j k R s" and "file_tab s f = Some x"
  shows "f_mode x < 8" "0 \<le> f_pos x" "f_refcount x = int (fds s f) + k f" "0 < f_refcount x" "0 \<le> k f"
    "f_vnode x = None \<Longrightarrow> f \<in> R"
  using vfs_balD(6) [OF assms(1), of f] assms(2) by (auto simp: file_ok_def)

lemma vfs_bal_fd:
  assumes "vfs_bal j k R s" and "Some f \<in> set (p_files s)"
  obtains x where "file_tab s f = Some x"
proof (cases "file_tab s f")
  case None
  then have "fds s f = 0" using vfs_balD(6) [OF assms(1), of f] by (simp add: file_ok_def)
  then show ?thesis using assms(2) by (auto simp: fds_def filter_empty_conv)
qed (use that in blast)

section \<open>File system operations\<close>

text \<open>What an operation that does not know about files changes.\<close>

lemma vfs_more:
  assumes "fsys.more s' = fsys.more (s :: 'a vfs_scheme)"
  shows "p_cwd s' = p_cwd s" "file_tab s' = file_tab s" "next_file s' = next_file s" "p_files s' = p_files s"
  using assms by (cases s; cases s'; simp)+

lemma vfs_bal_refs:
  assumes bal: "vfs_bal j k R s" and r: "refs i s s'" and inv: "fs_inv s'"
  shows "vfs_bal (\<lambda>w. j w + i w) k R s'"
proof -
  have more: "fsys.more s' = fsys.more s" and root: "fs_root s' = fs_root s" using r by (simp_all add: refs_def)
  note m = vfs_more [OF more]
  have "held s' w = held s w" for w by (simp add: held_def files_at_def m root)
  then have "rc s' w = held s' w + (j w + i w)" for w using r vfs_balD(2) [OF bal, of w] by (simp add: refs_def)
  then show ?thesis using bal inv m root by (simp add: vfs_bal_def fds_def)
qed

lemma vfs_bal_no_refs: "vfs_bal j k R s \<Longrightarrow> no_refs s s' \<Longrightarrow> fs_inv s' \<Longrightarrow> vfs_bal j k R s'"
  using vfs_bal_refs [where i = "\<lambda>_. 0"] by fastforce

lemma vfs_bal_vput: "vfs_bal j k R s \<Longrightarrow> vput v s = Some s' \<Longrightarrow> vfs_bal (\<lambda>w. j w - one v w) k R s'"
  using vfs_bal_refs [OF _ refs_vput, of j k R s v s'] vput_inv [OF vfs_balD(1)] by fastforce

section \<open>File operations\<close>

lemma rc_put_file [simp]: "rc (put_file f x s) w = rc s w" "rc (s\<lparr>p_files := l\<rparr>) w = rc s w" "rc (s\<lparr>next_file := n\<rparr>) w = rc s w"
  by (simp_all add: rc_def put_file_def)

lemma fs_inv_put_file [simp]:
  "fs_inv (put_file f x s) = fs_inv s" "fs_inv (s\<lparr>p_files := l\<rparr>) = fs_inv s" "fs_inv (s\<lparr>next_file := n\<rparr>) = fs_inv s"
  "fs_inv (s\<lparr>p_cwd := v\<rparr>) = fs_inv s"
  by (rule fs_bal_cong; simp add: put_file_def)+

lemma put_file_simps [simp]:
  "p_files (put_file f x s) = p_files s" "next_file (put_file f x s) = next_file s" "fs_root (put_file f x s) = fs_root s"
  "p_cwd (put_file f x s) = p_cwd s" "file_tab (put_file f x s) = (file_tab s)(f := x)" "vnodes (put_file f x s) = vnodes s"
  by (simp_all add: put_file_def)

text \<open>Changing a file structure that keeps its vnode.\<close>

lemma vfs_bal_put_file:
  assumes bal: "vfs_bal j k R s" and x: "file_tab s f = Some x" and y: "f_vnode y = f_vnode x" "f_mode y < 8" "0 \<le> f_pos y"
    and n: "f_refcount y = int (fds s f) + n" "0 < f_refcount y" "0 \<le> n"
  shows "vfs_bal j (k(f := n)) R (put_file f (Some y) s)"
proof -
  have "files_at (put_file f (Some y) s) w = files_at s w" for w using x y by (auto simp: files_at_def)
  then have "held (put_file f (Some y) s) w = held s w" for w by (simp add: held_def)
  moreover have "dom (file_tab (put_file f (Some y) s)) = dom (file_tab s)" using x by auto
  moreover have "f < next_file s" using vfs_balD(5) [OF bal, of f] x by (metis not_le option.distinct(1))
  moreover have "file_ok R (int (fds s g)) ((k(f := n)) g) g (((file_tab s)(f := Some y)) g)" for g
    using vfs_balD(6) [OF bal, of g] vfs_bal_file(6) [OF bal x] y n by (auto simp: file_ok_def)
  ultimately show ?thesis using bal by (simp add: vfs_bal_def fds_def)
qed

lemma vfs_bal_fref:
  assumes bal: "vfs_bal j k R s" and run: "fref f s = Some s'"
  shows "vfs_bal j (k(f := k f + 1)) R s'"
proof -
  obtain x where x: "file_tab s f = Some x" and s': "s' = put_file f (Some (x\<lparr>f_refcount := f_refcount x + 1\<rparr>)) s"
    using run by (auto simp: fref_def bind_Some_iff)
  show ?thesis unfolding s' by (rule vfs_bal_put_file [OF bal x]) (use vfs_bal_file [OF bal x] in auto)
qed

text \<open>Dropping a file structure nobody refers to any more.\<close>

lemma vfs_bal_drop_file:
  assumes bal: "vfs_bal j k R s" and x: "file_tab s f = Some x" and n: "fds s f = 0"
  shows "vfs_bal (\<lambda>w. j w + (if Some w = f_vnode x then 1 else 0)) (k(f := 0)) (R - {f}) (put_file f None s)"
proof -
  let ?s = "put_file f None s"
  have fin: "finite (files_at s w)" for w by (rule finite_subset [OF _ vfs_balD(4) [OF bal]]) (auto simp: files_at_def)
  have at: "files_at ?s w = files_at s w - {f}" for w by (auto simp: files_at_def)
  have "f \<in> files_at s w \<longleftrightarrow> Some w = f_vnode x" for w using x by (auto simp: files_at_def)
  then have "int (card (files_at ?s w)) + (if Some w = f_vnode x then 1 else 0) = int (card (files_at s w))" for w
    using at card_Suc_Diff1 [OF fin, of f w] by auto
  then have "held ?s w + (if Some w = f_vnode x then 1 else 0) = held s w" for w by (simp add: held_def)
  then have "rc ?s w = held ?s w + (j w + (if Some w = f_vnode x then 1 else 0))" for w
    using vfs_balD(2) [OF bal, of w] by (simp add: algebra_simps)
  moreover have "file_ok (R - {f}) (int (fds s g)) ((k(f := 0)) g) g (((file_tab s)(f := None)) g)" for g
    using vfs_balD(6) [OF bal, of g] n by (auto simp: file_ok_def split: option.splits)
  moreover have "finite (dom (file_tab ?s))" using vfs_balD(4) [OF bal] by simp
  ultimately show ?thesis using bal by (simp add: vfs_bal_def fds_def)
qed

text \<open>Giving back a reference the caller owns; a file in \<^verbatim>\<open>R\<close> stays there only while it exists.\<close>

lemma vfs_bal_fput:
  assumes bal: "vfs_bal j k R s" and own: "0 < k f" and run: "fput (Some f) s = Some s'"
  shows "vfs_bal j (k(f := k f - 1)) R s'"
proof -
  obtain x where x: "file_tab s f = Some x" using run by (auto simp: fput_def bind_Some_iff)
  note ok = vfs_bal_file [OF bal x]
  show ?thesis
  proof (cases "f_refcount x = 1")
    case False
    then have s': "s' = put_file f (Some (x\<lparr>f_refcount := f_refcount x - 1\<rparr>)) s"
      using run x by (auto simp: fput_def bind_Some_iff Let_def)
    show ?thesis unfolding s' by (rule vfs_bal_put_file [OF bal x]) (use ok own False in auto)
  next
    case True
    then have n: "fds s f = 0" "k f = 1" using ok own by auto
    obtain s1 where s1: "(case f_vnode x of None \<Rightarrow> Some s | Some v \<Rightarrow> vput v s) = Some s1" and s': "s' = put_file f None s1"
      using run x True by (auto simp: fput_def bind_Some_iff Let_def)
    define c where "c = (\<lambda>w. if Some w = f_vnode x then 1 else 0 :: int)"
    have bal1: "vfs_bal (\<lambda>w. j w - c w) k R s1 \<and> fsys.more s1 = fsys.more s"
    proof (cases "f_vnode x")
      case None
      then show ?thesis using s1 bal by (simp add: c_def)
    next
      case (Some v)
      then have "vput v s = Some s1" using s1 by simp
      from vfs_bal_vput [OF bal this] refs_vput [OF this] show ?thesis using Some by (simp add: c_def refs_def)
    qed
    have x1: "file_tab s1 f = Some x" "fds s1 f = 0"
      using x n vfs_more [OF conjunct2 [OF bal1]] by (simp_all add: fds_def)
    have "vfs_bal (\<lambda>w. (j w - c w) + c w) (k(f := 0)) (R - {f}) s'"
      unfolding s' c_def by (rule vfs_bal_drop_file [OF conjunct1 [OF bal1, unfolded c_def] x1])
    then have b: "vfs_bal j (k(f := 0)) (R - {f}) s'" by (simp only: diff_add_cancel)
    have "file_ok R (int (fds s' g)) ((k(f := 0)) g) g (file_tab s' g)" for g
      using vfs_balD(6) [OF b, of g] by (auto simp: file_ok_def split: option.splits)
    then have "vfs_bal j (k(f := 0)) R s'" using b unfolding vfs_bal_def by blast
    then show ?thesis using n(2) by simp
  qed
qed

section \<open>The descriptor table\<close>

lemma fds_update:
  assumes "i < length (p_files s)"
  shows "fds (s\<lparr>p_files := (p_files s)[i := y]\<rparr>) f + (if p_files s ! i = Some f then 1 else 0) = fds s f + (if y = Some f then 1 else 0)"
  using length_filter_update [OF assms, of "\<lambda>y. y = Some f" y] by (simp add: fds_def)

lemma held_p_files [simp]: "held (s\<lparr>p_files := l\<rparr>) w = held s w"
  by (simp add: held_def files_at_def)

text \<open>
  Writing a descriptor: the caller gets the reference of the file that was there and gives
  away one to the file it puts there.
\<close>

lemma vfs_bal_set_fd:
  assumes bal: "vfs_bal j k R s" and run: "set_fd fd y s = Some s'"
    and k': "\<And>f. k' f = k f + (if p_files s ! nat fd = Some f then 1 else 0) - (if y = Some f then 1 else 0)" and own: "\<And>f. 0 \<le> k' f"
    and y: "\<And>f. y = Some f \<Longrightarrow> file_tab s f \<noteq> None"
  shows "vfs_bal j k' R s'"
proof -
  have fd: "nat fd < length (p_files s)" and s': "s' = s\<lparr>p_files := (p_files s)[nat fd := y]\<rparr>"
    using run by (auto simp: set_fd_def split: if_splits)
  have "file_ok R (int (fds s' f)) (k' f) f (file_tab s f)" for f
  proof -
    have "int (fds s' f) + k' f = int (fds s f) + k f" using fds_update [OF fd, of y f] k' [of f] unfolding s' by auto
    moreover have "fds s f = 0" "k f = 0" if "file_tab s f = None"
      using vfs_balD(6) [OF bal, of f] that by (simp_all add: file_ok_def)
    moreover have "y \<noteq> Some f \<and> p_files s ! nat fd \<noteq> Some f" if none: "file_tab s f = None"
      using y [of f] none vfs_bal_fd [OF bal, of f] nth_mem [OF fd] by (metis option.distinct(1))
    ultimately show ?thesis
      using vfs_balD(6) [OF bal, of f] own [of f] k' [of f] fds_update [OF fd, of y f] unfolding s'
      by (auto simp: file_ok_def split: option.splits)
  qed
  then show ?thesis using bal by (simp add: vfs_bal_def s')
qed

lemma vfs_bal_fget:
  assumes bal: "vfs_bal j k R s" and fd: "fd \<noteq> - 1" and run: "fget fd s = Some (fp, s')"
  shows "(fp = None \<and> s' = s)
    \<or> (\<exists>f x. 0 \<le> fd \<and> fd < 32 \<and> p_files s ! nat fd = Some f \<and> fp = Some f \<and> file_tab s f = Some x \<and> f_vnode x \<noteq> None
        \<and> s' = put_file f (Some (x\<lparr>f_refcount := f_refcount x + 1\<rparr>)) s \<and> vfs_bal j (k(f := k f + 1)) R s')"
proof (cases "fd < 0 \<or> NFILES \<le> fd")
  case True
  then show ?thesis using run fd by (auto simp: fget_def)
next
  case False
  show ?thesis
  proof (cases "p_files s ! nat fd")
    case None
    then show ?thesis using run fd False by (auto simp: fget_def)
  next
    case (Some f)
    then have r: "fref f s = Some s'" and fp: "fp = Some f" using run fd False by (auto simp: fget_def bind_Some_iff)
    obtain x where x: "file_tab s f = Some x" "f_refcount x \<noteq> 0 \<longrightarrow> f_vnode x \<noteq> None"
      "s' = put_file f (Some (x\<lparr>f_refcount := f_refcount x + 1\<rparr>)) s"
      using r by (auto simp: fref_def bind_Some_iff)
    then show ?thesis using Some fp False vfs_bal_fref [OF bal r] vfs_bal_file(4) [OF bal x(1)] by auto
  qed
qed

lemma upd_plus_minus [simp]: "(k(f := (k f :: int) + 1))(f := k f) = k"
  by simp

lemma vfs_bal_fput':
  assumes "vfs_bal j (k(f := k f + 1)) R s" and "0 \<le> k f" and "fput (Some f) s = Some s'"
  shows "vfs_bal j k R s'"
  using vfs_bal_fput [OF assms(1) _ assms(3)] assms(2) by simp

lemma vfs_bal_owned: "vfs_bal j k R s \<Longrightarrow> 0 \<le> k f"
  using vfs_balD(6) [of j k R s f] by (auto simp: file_ok_def split: option.splits)

lemma vfs_bal_do_lseek:
  assumes bal: "vfs_bal j k R s" and run: "do_lseek fd offset whence s = Some (r, s')"
  shows "vfs_bal j k R s'"
proof (cases "(fd < 0 \<or> NFILES \<le> fd) \<or> whence \<notin> {SEEK_SET, SEEK_CUR, SEEK_END}")
  case True
  then show ?thesis using run bal by (auto simp: do_lseek_def split: if_splits)
next
  case False
  then have "fd \<noteq> - 1" by auto
  obtain fp s1 where g: "fget fd s = Some (fp, s1)"
    using run False by (auto simp: do_lseek_def bind_Some_iff split: if_splits)
  from vfs_bal_fget [OF bal \<open>fd \<noteq> - 1\<close> g] show ?thesis
  proof
    assume "fp = None \<and> s1 = s"
    then show ?thesis using run g False bal by (auto simp: do_lseek_def split: if_splits)
  next
    assume "\<exists>f x. 0 \<le> fd \<and> fd < 32 \<and> p_files s ! nat fd = Some f \<and> fp = Some f \<and> file_tab s f = Some x \<and> f_vnode x \<noteq> None
        \<and> s1 = put_file f (Some (x\<lparr>f_refcount := f_refcount x + 1\<rparr>)) s \<and> vfs_bal j (k(f := k f + 1)) R s1"
    then obtain f where fp: "fp = Some f" and bal1: "vfs_bal j (k(f := k f + 1)) R s1" by blast
    obtain x where x: "file_tab s1 f = Some x"
      using run g False fp by (auto simp: do_lseek_def bind_Some_iff split: if_splits)
    have put: "vfs_bal j k R s'" if "fput (Some f) t = Some s'" "vfs_bal j (k(f := k f + 1)) R t" for t
      using vfs_bal_fput' [OF that(2) vfs_bal_owned [OF bal] that(1)] .
    consider "fput (Some f) s1 = Some s'"
      | pos where "\<not> pos < 0" "fput (Some f) (put_file f (Some (x\<lparr>f_pos := pos\<rparr>)) s1) = Some s'"
      using run g False fp x
      by (simp add: do_lseek_def bind_Some_iff Let_def) (auto simp: bind_Some_iff split: if_splits)
    then show ?thesis
    proof cases
      case 1
      then show ?thesis using bal1 by (rule put)
    next
      case (2 pos)
      have "vfs_bal j ((k(f := k f + 1))(f := k f + 1)) R (put_file f (Some (x\<lparr>f_pos := pos\<rparr>)) s1)"
        by (rule vfs_bal_put_file [OF bal1 x]) (use vfs_bal_file [OF bal1 x] 2(1) in auto)
      then show ?thesis using 2(2) by (intro put) simp_all
    qed
  qed
qed

section \<open>The system calls keep the books\<close>

text \<open>Either the descriptor is not open, or the call runs with a reference to its file.\<close>

lemma vfs_fget_cases:
  assumes "vfs_bal j k R s" and "0 \<le> fd" and "fget fd s = Some (fp, s1)"
  obtains "fp = None" and "s1 = s"
  | f where "fp = Some f" and "p_files s ! nat fd = Some f" and "p_files s1 = p_files s" and "fd < 32" and "vfs_bal j (k(f := k f + 1)) R s1"
  using vfs_bal_fget [OF assms(1) _ assms(3)] assms(2) by fastforce

lemma vfs_do_read:
  assumes bal: "vfs_bal j k R s" and run: "do_read env fd nbytes s = Some (r, bs, s')"
  shows "vfs_bal j k R s'"
proof (cases "fd < 0 \<or> NFILES < fd")
  case True
  then show ?thesis using run bal by (auto simp: do_read_def)
next
  case False
  obtain fp s1 where g: "fget fd s = Some (fp, s1)" using run False by (auto simp: do_read_def bind_Some_iff)
  have fd: "0 \<le> fd" using False by simp
  from bal fd g show ?thesis
  proof (cases rule: vfs_fget_cases)
    case 1
    then show ?thesis using run g False bal by (auto simp: do_read_def fput_def split: if_splits)
  next
    case (2 f)
    obtain t where t: "t = s1 \<or> (\<exists>off wh q. do_lseek fd off wh s1 = Some (q, t))" "fput (Some f) t = Some s'"
      using run g False 2(1)
      by (simp add: do_read_def bind_Some_iff) (auto simp: bind_Some_iff split: if_splits; blast)
    have "vfs_bal j (k(f := k f + 1)) R t" using t(1) 2(5) vfs_bal_do_lseek by blast
    then show ?thesis using vfs_bal_owned [OF bal] t(2) by (rule vfs_bal_fput')
  qed
qed

lemma vop_write_spec:
  assumes inv: "fs_inv s" and run: "vop_write env v off buf n s = Some (r, s')"
  shows "fs_inv s' \<and> no_refs s s'"
proof -
  obtain ops where "(case ops of Ramfs_file \<Rightarrow> ramfs_write v off buf n s
     | Bytedev_spec \<Rightarrow> do { r \<leftarrow> special_file_write env v off buf n s; Some (r, s) } | _ \<Rightarrow> None) = Some (r, s')"
    using run by (auto simp: vop_write_def bind_Some_iff)
  then consider "ramfs_write v off buf n s = Some (r, s')" | "s' = s"
    by (cases ops) (auto simp: bind_Some_iff)
  then show ?thesis using inv fs_bal_write [OF inv] refs_write by cases auto
qed

lemma vfs_bal_vop_write: "vfs_bal j k R s \<Longrightarrow> vop_write env v off buf n s = Some (r, s') \<Longrightarrow> vfs_bal j k R s'"
  using vop_write_spec [OF vfs_balD(1)] vfs_bal_no_refs by blast

lemma vfs_bal_write_at:
  assumes bal: "vfs_bal j k R s" and run: "write_at env fd f v buf n s = Some (b, r, s')"
  shows "vfs_bal j k R s'"
proof -
  consider q where "do_lseek fd 0 SEEK_END s = Some (q, s')"
    | q s1 off w s2 p where "do_lseek fd 0 SEEK_END s = Some (q, s1)" "vop_write env v off buf n s1 = Some (w, s2)"
        "do_lseek fd 0 SEEK_END s2 = Some (p, s')"
    | off w s2 p where "vop_write env v off buf n s = Some (w, s2)" "do_lseek fd w SEEK_CUR s2 = Some (p, s')"
    using run by (auto simp: write_at_def bind_Some_iff split: if_splits)
  then show ?thesis
  proof cases
    case 1
    show ?thesis by (rule vfs_bal_do_lseek [OF bal 1])
  next
    case 2
    show ?thesis by (rule vfs_bal_do_lseek [OF vfs_bal_vop_write [OF vfs_bal_do_lseek [OF bal 2(1)] 2(2)] 2(3)])
  next
    case 3
    show ?thesis by (rule vfs_bal_do_lseek [OF vfs_bal_vop_write [OF bal 3(1)] 3(2)])
  qed
qed

lemma vfs_do_write:
  assumes bal: "vfs_bal j k R s" and run: "do_write env fd buf nbytes s = Some (r, s')"
  shows "vfs_bal j k R s'"
proof (cases "fd < 0 \<or> NFILES < fd")
  case True
  then show ?thesis using run bal by (auto simp: do_write_def)
next
  case False
  obtain fp s1 where g: "fget fd s = Some (fp, s1)" using run False by (auto simp: do_write_def bind_Some_iff)
  have fd: "0 \<le> fd" using False by simp
  from bal fd g show ?thesis
  proof (cases rule: vfs_fget_cases)
    case 1
    then show ?thesis using run g False bal by (auto simp: do_write_def)
  next
    case (2 f)
    obtain t where t: "t = s1 \<or> (\<exists>v b q. write_at env fd f v buf nbytes s1 = Some (b, q, t))" "fput (Some f) t = Some s'"
      using run g False 2(1)
      by (simp add: do_write_def bind_Some_iff) (auto simp: bind_Some_iff split: if_splits; blast)
    have "vfs_bal j (k(f := k f + 1)) R t" using t(1) 2(5) vfs_bal_write_at by blast
    then show ?thesis using vfs_bal_owned [OF bal] t(2) by (rule vfs_bal_fput')
  qed
qed

lemma vfs_do_getdent:
  assumes bal: "vfs_bal j k R s" and run: "do_getdent fd s = Some (r, d, s')"
  shows "vfs_bal j k R s'"
proof (cases "fd < 0 \<or> NFILES \<le> fd")
  case True
  then show ?thesis using run bal by (auto simp: do_getdent_def)
next
  case False
  obtain fp s1 where g: "fget fd s = Some (fp, s1)" using run False by (auto simp: do_getdent_def bind_Some_iff)
  have fd: "0 \<le> fd" using False by simp
  from bal fd g show ?thesis
  proof (cases rule: vfs_fget_cases)
    case 1
    then show ?thesis using run g False bal by (auto simp: do_getdent_def)
  next
    case (2 f)
    obtain t where t: "fput (Some f) s1 = Some t" "s' = t \<or> (\<exists>off wh q. do_lseek fd off wh t = Some (q, s'))"
      using run g False 2(1)
      by (simp add: do_getdent_def bind_Some_iff) (auto simp: bind_Some_iff split: if_splits; blast)
    have "vfs_bal j k R t" using 2(5) vfs_bal_owned [OF bal] t(1) by (rule vfs_bal_fput')
    then show ?thesis using t(2) vfs_bal_do_lseek by blast
  qed
qed

lemma fput_p_files: "fput fp s = Some s' \<Longrightarrow> p_files s' = p_files s"
  by (auto simp: fput_def bind_Some_iff Let_def refs_def split: if_splits option.splits dest!: refs_vput dest: vfs_more(4))

lemma vfs_do_close:
  assumes bal: "vfs_bal j k R s" and run: "do_close fd s = Some (r, s')"
  shows "vfs_bal j k R s' \<and> (\<forall>f. 0 \<le> fd \<longrightarrow> fd < 32 \<longrightarrow> p_files s ! nat fd = Some f \<longrightarrow> p_files s' = (p_files s)[nat fd := None])"
proof (cases "fd < 0 \<or> NFILES < fd")
  case True
  then show ?thesis using run bal by (auto simp: do_close_def)
next
  case False
  obtain fp s1 where g: "fget fd s = Some (fp, s1)" using run False by (auto simp: do_close_def bind_Some_iff)
  have fd: "0 \<le> fd" using False by simp
  from bal fd g show ?thesis
  proof (cases rule: vfs_fget_cases)
    case 1
    then have "s' = s" using run g False by (auto simp: do_close_def)
    moreover have "p_files s ! nat fd \<noteq> Some f" if "fd < 32" for f
      using g 1 fd that by (auto simp: fget_def bind_Some_iff)
    ultimately show ?thesis using bal by auto
  next
    case (2 f)
    obtain s2 s3 where r: "fput (Some f) s1 = Some s2" "set_fd fd None s2 = Some s3" "fput (Some f) s3 = Some s'"
      using run g False 2(1) by (auto simp: do_close_def bind_Some_iff)
    have b2: "vfs_bal j k R s2" using 2(5) vfs_bal_owned [OF bal] r(1) by (rule vfs_bal_fput')
    have pf: "p_files s2 = p_files s" using fput_p_files [OF r(1)] 2(3) by simp
    have "vfs_bal j (k(f := k f + 1)) R s3"
      by (rule vfs_bal_set_fd [OF b2 r(2)]) (use pf 2(2) vfs_bal_owned [OF bal] in \<open>auto simp: add_nonneg_nonneg\<close>)
    then have "vfs_bal j k R s'" using vfs_bal_owned [OF bal] r(3) by (rule vfs_bal_fput')
    moreover have "p_files s' = (p_files s)[nat fd := None]"
      using fput_p_files [OF r(3)] r(2) pf by (auto simp: set_fd_def split: if_splits)
    ultimately show ?thesis by simp
  qed
qed

lemma vfs_bal_exists: "vfs_bal j k R s \<Longrightarrow> 0 < k f \<Longrightarrow> file_tab s f \<noteq> None"
  using vfs_balD(6) [of j k R s f] by (cases "file_tab s f") (auto simp: file_ok_def)

lemma get_empty_fd_free:
  assumes "get_empty_fd s = fd" and "fd \<noteq> - EMFILE"
  shows "0 \<le> fd \<and> fd < 32 \<and> p_files s ! nat fd = None"
  using assms by (auto simp: get_empty_fd_def find_Some_iff simp del: upt_rec_numeral split: option.splits)

lemma vfs_do_dup:
  assumes bal: "vfs_bal j k R s" and run: "do_dup fd s = Some (r, s')"
  shows "vfs_bal j k R s'"
proof (cases "fd < 0 \<or> NFILES < fd")
  case True
  then show ?thesis using run bal by (auto simp: do_dup_def)
next
  case False
  obtain fp s1 where g: "fget fd s = Some (fp, s1)" using run False by (auto simp: do_dup_def bind_Some_iff)
  have fd: "0 \<le> fd" using False by simp
  from bal fd g show ?thesis
  proof (cases rule: vfs_fget_cases)
    case 1
    then show ?thesis using run g False bal by (auto simp: do_dup_def)
  next
    case (2 f)
    consider "fput (Some f) s1 = Some s'" | "get_empty_fd s1 \<noteq> - EMFILE" "set_fd (get_empty_fd s1) (Some f) s1 = Some s'"
      using run g False 2(1) by (auto simp: do_dup_def bind_Some_iff Let_def split: if_splits)
    then show ?thesis
    proof cases
      case 1
      show ?thesis using 2(5) vfs_bal_owned [OF bal] 1 by (rule vfs_bal_fput')
    next
      case e: 2
      have "file_tab s1 f \<noteq> None" by (rule vfs_bal_exists [OF 2(5)]) (use vfs_bal_owned [OF bal, of f] in simp)
      then show ?thesis
        using get_empty_fd_free [OF refl e(1)] vfs_bal_owned [OF bal]
        by (intro vfs_bal_set_fd [OF 2(5) e(2)]) auto
    qed
  qed
qed

lemma vfs_do_dup2:
  assumes bal: "vfs_bal j k R s" and run: "do_dup2 ofd nfd s = Some (r, s')"
  shows "vfs_bal j k R s'"
proof (cases "(ofd < 0 \<or> NFILES < ofd) \<or> nfd < 0 \<or> NFILES < nfd")
  case True
  then show ?thesis using run bal by (auto simp: do_dup2_def split: if_splits)
next
  case False
  obtain fp s1 where g: "fget ofd s = Some (fp, s1)" using run False by (auto simp: do_dup2_def bind_Some_iff)
  have fd: "0 \<le> ofd" using False by simp
  from bal fd g show ?thesis
  proof (cases rule: vfs_fget_cases)
    case 1
    then show ?thesis using run g False bal by (auto simp: do_dup2_def)
  next
    case (2 f)
    consider "fput (Some f) s1 = Some s'"
      | s2 where "nat nfd < length (p_files s1)" "set_fd nfd (Some f) s2 = Some s'"
        "(p_files s1 ! nat nfd = None \<and> s2 = s1) \<or> (p_files s1 ! nat nfd \<noteq> None \<and> (\<exists>q. do_close nfd s1 = Some (q, s2)))"
      using run g False 2(1) by (simp add: do_dup2_def) (auto simp: bind_Some_iff split: if_splits)
    then show ?thesis
    proof cases
      case 1
      show ?thesis using 2(5) vfs_bal_owned [OF bal] 1 by (rule vfs_bal_fput')
    next
      case e: (2 s2)
      have n32: "nfd < 32" "0 \<le> nfd" using e(1) vfs_balD(3) [OF 2(5)] False by auto
      have b2: "vfs_bal j (k(f := k f + 1)) R s2 \<and> p_files s2 ! nat nfd = None"
      proof (cases "p_files s1 ! nat nfd")
        case None
        then show ?thesis using e(3) 2(5) by auto
      next
        case (Some h)
        then obtain q where "do_close nfd s1 = Some (q, s2)" using e(3) by auto
        from vfs_do_close [OF 2(5) this] show ?thesis using Some n32 e(1) by auto
      qed
      have "file_tab s2 f \<noteq> None" by (rule vfs_bal_exists [OF conjunct1 [OF b2]]) (use vfs_bal_owned [OF bal, of f] in simp)
      then show ?thesis using b2 vfs_bal_owned [OF bal] by (intro vfs_bal_set_fd [OF conjunct1 [OF b2] e(2)]) auto
    qed
  qed
qed

section \<open>Opening a file\<close>

lemma vfs_bal_new_file:
  assumes bal: "vfs_bal j k R s" and run: "fget (- 1) s = Some (fp, s1)"
  shows "(fp = None \<and> vfs_bal j k R s1) \<or> (\<exists>f. fp = Some f \<and> fds s1 f = 0 \<and> k f = 0 \<and> p_files s1 = p_files s
     \<and> (\<exists>x. file_tab s1 f = Some x \<and> f_vnode x = None) \<and> vfs_bal j (k(f := 1)) (insert f R) s1)"
proof -
  obtain ok a where ka: "kalloc s = (ok, s\<lparr>allocs := a\<rparr>)" by (metis kalloc_state prod.collapse)
  let ?t = "s\<lparr>allocs := a\<rparr>"
  have balt: "vfs_bal j k R ?t" by (rule vfs_bal_no_refs [OF bal]) (use vfs_balD(1) [OF bal] in simp_all)
  show ?thesis
  proof (cases ok)
    case False
    then show ?thesis using run ka balt by (auto simp: fget_def)
  next
    case True
    define f where "f = next_file s"
    let ?x = "\<lparr>f_pos = 0, f_mode = 0, f_refcount = 1, f_vnode = None\<rparr>"
    have s1: "s1 = put_file f (Some ?x) (?t\<lparr>next_file := f + 1\<rparr>)" and fp: "fp = Some f"
      using run ka True by (auto simp: fget_def fref_def bind_Some_iff Let_def put_file_def f_def)
    have none: "file_tab ?t f = None" using vfs_balD(5) [OF balt, of f] by (simp add: f_def)
    then have z: "fds ?t f = 0" "k f = 0" using vfs_balD(6) [OF balt, of f] by (simp_all add: file_ok_def)
    have "files_at s1 w = files_at ?t w" for w using none by (auto simp: files_at_def s1)
    then have "held s1 w = held ?t w" for w by (simp add: held_def s1)
    moreover have fd: "fds s1 g = fds ?t g" for g by (simp add: fds_def s1)
    moreover have "file_ok (insert f R) (int (fds ?t g)) ((k(f := 1)) g) g (file_tab s1 g)" for g
      using vfs_balD(6) [OF balt, of g] z by (auto simp: file_ok_def s1 split: option.splits)
    moreover have "file_tab s1 g = None" if "f + 1 \<le> g" for g using vfs_balD(5) [OF balt, of g] that by (simp add: s1 f_def)
    moreover have "rc s1 w = rc ?t w" "fs_inv s1" "finite (dom (file_tab s1))" for w
      using vfs_balD(1,4) [OF balt] by (simp_all add: s1)
    ultimately have "vfs_bal j (k(f := 1)) (insert f R) s1" using balt by (simp add: vfs_bal_def) (simp add: s1)
    then show ?thesis using fp z fd by (simp add: s1)
  qed
qed

lemma vfs_bal_shrink:
  assumes "vfs_bal j k (insert f R) s" and "file_tab s f = None"
  shows "vfs_bal j k R s"
proof -
  have "file_ok R (int (fds s g)) (k g) g (file_tab s g)" for g
    using vfs_balD(6) [OF assms(1), of g] assms(2) by (auto simp: file_ok_def split: option.splits)
  then show ?thesis using assms(1) by (simp add: vfs_bal_def)
qed

text \<open>Giving up the only reference to the new file.\<close>

lemma vfs_bal_discard:
  assumes bal: "vfs_bal j (k(f := 1)) (insert f R) s" and n: "fds s f = 0" "k f = 0" and run: "fput (Some f) s = Some s'"
  shows "vfs_bal j k R s'"
proof -
  have "vfs_bal j ((k(f := 1))(f := (k(f := 1)) f - 1)) (insert f R) s'" by (rule vfs_bal_fput [OF bal _ run]) simp
  then have b: "vfs_bal j k (insert f R) s'" using n(2) by (simp add: fun_upd_idem)
  obtain x where x: "file_tab s f = Some x" using vfs_bal_exists [OF bal, of f] by auto
  have "f_refcount x = 1" using vfs_bal_file(3) [OF bal x] n by simp
  then have "file_tab s' f = None" using run x by (auto simp: fput_def bind_Some_iff Let_def)
  then show ?thesis by (rule vfs_bal_shrink [OF b])
qed

lemma vfs_bal_attach:
  assumes bal: "vfs_bal (\<lambda>w. j w + one v w) k (insert f R) s" and x: "file_tab s f = Some x" "f_vnode x = None"
  shows "vfs_bal j k R (put_file f (Some (x\<lparr>f_pos := 0, f_vnode := Some v\<rparr>)) s)" (is "vfs_bal j k R ?s")
proof -
  have fin: "finite (files_at s w)" for w by (rule finite_subset [OF _ vfs_balD(4) [OF bal]]) (auto simp: files_at_def)
  have nf: "f \<notin> files_at s w" for w using x by (simp add: files_at_def)
  have "files_at ?s w = (if w = v then insert f (files_at s w) else files_at s w)" for w using x by (auto simp: files_at_def)
  then have "held ?s w = held s w + one v w" for w using fin nf by (auto simp: held_def)
  then have "rc ?s w = held ?s w + j w" for w using vfs_balD(2) [OF bal, of w] by simp
  moreover have "f < next_file s" using vfs_balD(5) [OF bal, of f] x by (metis not_le option.distinct(1))
  moreover have "file_ok R (int (fds s g)) (k g) g (file_tab ?s g)" for g
    using vfs_balD(6) [OF bal, of g] x by (auto simp: file_ok_def split: option.splits)
  moreover have "dom (file_tab ?s) = dom (file_tab s)" using x by auto
  ultimately show ?thesis using bal by (simp add: vfs_bal_def fds_def)
qed

lemma vfs_bal_put_dev:
  assumes bal: "vfs_bal j k R s" and vn: "vnodes s v = Some vn"
    and vn': "vn' = vn\<lparr>vn_bdev := b\<rparr> \<or> vn' = vn\<lparr>vn_cdev := c\<rparr>"
  shows "vfs_bal j k R (put_vnode v (Some vn') s)"
proof -
  obtain x where x: "rfs_inodes s v = Some x" "vnode_ok v vn x" using fs_bal_vnode [OF vfs_balD(1) [OF bal] vn] .
  have "vnode_ok v vn' x" using vn' x(2) by (auto simp: vnode_ok_def)
  from fs_bal_put_vnode [OF vfs_balD(1) [OF bal] vn x(1) this] have "fs_inv (put_vnode v (Some vn') s)" .
  moreover have "no_refs s (put_vnode v (Some vn') s)" using vn vn' by (auto simp: refs_def put_vnode_def rc_def)
  ultimately show ?thesis using vfs_bal_no_refs [OF bal] by blast
qed

lemma set_fd_fds:
  assumes "set_fd fd None s = Some s'" and "p_files s ! nat fd = Some f" and "fds s f = 1"
  shows "fds s' f = 0"
  using assms fds_update [of "nat fd" s None f] by (auto simp: set_fd_def split: if_splits)

text \<open>The ways out of \<^verbatim>\<open>open_vnode\<close> after an error, from a state \<^verbatim>\<open>t\<close>.\<close>

lemma open_undo:
  assumes bal: "vfs_bal (\<lambda>w. j w + one v w) k (insert f R) t" and f: "k f = 0" "fds t f = 1" "p_files t ! nat fd = Some f"
    and steps: "set_fd fd None t = Some t1"
      "(vput v t1 = Some t2 \<and> fput (Some f) t2 = Some s') \<or> (fput (Some f) t1 = Some t2 \<and> vput v t2 = Some s')"
  shows "vfs_bal j k R s'"
proof -
  have b1: "vfs_bal (\<lambda>w. j w + one v w) (k(f := 1)) (insert f R) t1"
    by (rule vfs_bal_set_fd [OF bal steps(1)]) (use f vfs_bal_owned [OF bal] in auto)
  have n1: "fds t1 f = 0" by (rule set_fd_fds [OF steps(1) f(3,2)])
  from steps(2) show ?thesis
  proof (elim disjE conjE)
    assume p: "vput v t1 = Some t2" "fput (Some f) t2 = Some s'"
    have b2: "vfs_bal j (k(f := 1)) (insert f R) t2" using vfs_bal_vput [OF b1 p(1)] by simp
    have "fds t2 f = 0" using n1 refs_vput [OF p(1)] vfs_more(4) [of t2 t1] by (simp add: fds_def refs_def)
    then show ?thesis using vfs_bal_discard [OF b2 _ f(1) p(2)] by simp
  next
    assume p: "fput (Some f) t1 = Some t2" "vput v t2 = Some s'"
    have "vfs_bal (\<lambda>w. j w + one v w) k R t2" by (rule vfs_bal_discard [OF b1 n1 f(1) p(1)])
    then show ?thesis using vfs_bal_vput [OF _ p(2)] by fastforce
  qed
qed

text \<open>Every way through \<^verbatim>\<open>open_vnode\<close>; the device pointers of the vnode may have been set before.\<close>

definition with_bdev :: "nat \<Rightarrow> vnode \<Rightarrow> 'a fsys_scheme \<Rightarrow> 'a fsys_scheme" where
  "with_bdev v vn s = (if S_ISBLK (vn_mode vn) then put_vnode v (Some (vn\<lparr>vn_bdev := blockdev_lookup (blockdevs s) (vn_devid vn)\<rparr>)) s else s)"

definition with_cdev :: "nat \<Rightarrow> vnode \<Rightarrow> bytedev option \<Rightarrow> 'a fsys_scheme \<Rightarrow> 'a fsys_scheme" where
  "with_cdev v vn c s = (if S_ISCHR (vn_mode vn) then put_vnode v (Some (vn\<lparr>vn_cdev := c\<rparr>)) s else s)"

lemma with_dev_frame [simp]:
  "p_files (with_bdev v vn s) = p_files s" "p_files (with_cdev v vn c s) = p_files s"
  "file_tab (with_bdev v vn s) = file_tab s" "file_tab (with_cdev v vn c s) = file_tab s"
  by (simp_all add: with_bdev_def with_cdev_def put_vnode_def)

lemma vfs_with_dev:
  assumes bal: "vfs_bal j k R s" and vn: "vnodes s v = Some vn"
  shows "vfs_bal j k R (with_bdev v vn s)" "vfs_bal j k R (with_cdev v vn c (with_bdev v vn s))"
proof -
  show b: "vfs_bal j k R (with_bdev v vn s)" using bal vfs_bal_put_dev [OF bal vn] unfolding with_bdev_def by auto
  show "vfs_bal j k R (with_cdev v vn c (with_bdev v vn s))"
  proof (cases "S_ISCHR (vn_mode vn)")
    case True
    then have "vnodes (with_bdev v vn s) v = Some vn" using vn by (simp add: with_bdev_def S_ISCHR_def S_ISBLK_def)
    from vfs_bal_put_dev [OF b this] show ?thesis using True unfolding with_cdev_def by auto
  next
    case False
    then show ?thesis using b by (simp add: with_cdev_def)
  qed
qed

lemma open_vnode_cases:
  assumes run: "open_vnode v fd f oflags s = Some (r, s')" and vn: "vnodes s v = Some vn"
  obtains t1 t2 where "set_fd fd None s = Some t1" "vput v t1 = Some t2" "fput (Some f) t2 = Some s'"
  | t1 t2 where "set_fd fd None (with_bdev v vn s) = Some t1" "fput (Some f) t1 = Some t2" "vput v t2 = Some s'"
  | c t1 t2 where "set_fd fd None (with_cdev v vn c (with_bdev v vn s)) = Some t1" "fput (Some f) t1 = Some t2" "vput v t2 = Some s'"
  | c x where "file_tab (with_cdev v vn c (with_bdev v vn s)) f = Some x"
      "s' = put_file f (Some (x\<lparr>f_pos := 0, f_vnode := Some v\<rparr>)) (with_cdev v vn c (with_bdev v vn s))"
proof -
  let ?A = "S_ISDIR (vn_mode vn) \<and> (oflags AND O_WRONLY \<noteq> 0 \<or> oflags AND O_RDWR \<noteq> 0)"
  let ?B = "S_ISBLK (vn_mode vn) \<and> blockdev_lookup (blockdevs s) (vn_devid vn) = None"
  note run1 = run [unfolded open_vnode_def Let_def vn Option.bind.bind_lunit, folded with_bdev_def, folded with_cdev_def]
  consider ?A | "\<not> ?A" ?B | "\<not> ?A" "\<not> ?B" by blast
  then show ?thesis
  proof cases
    case 1
    note run1 [unfolded if_P [OF 1]]
    then show ?thesis using that(1) by (auto simp only: bind_Some_iff option.inject prod.inject)
  next
    case 2
    note run1 [unfolded if_not_P [OF 2(1)] if_P [OF 2(2)]]
    then show ?thesis using that(2) by (auto simp only: bind_Some_iff option.inject prod.inject)
  next
    case 3
    note run1 [unfolded if_not_P [OF 3(1)] if_not_P [OF 3(2)] bind_Some_iff [of _ _ "(r, s')"]]
    then obtain c where "(if S_ISCHR (vn_mode vn) \<and> c = None then do {
         s \<leftarrow> set_fd fd None (with_cdev v vn c (with_bdev v vn s)); s \<leftarrow> fput (Some f) s; s \<leftarrow> vput v s; Some (- ENXIO, s)
       } else do { x \<leftarrow> file_tab (with_cdev v vn c (with_bdev v vn s)) f;
         Some (fd, put_file f (Some (x\<lparr>f_pos := 0, f_vnode := Some v\<rparr>)) (with_cdev v vn c (with_bdev v vn s))) }) = Some (r, s')"
      by blast
    then show ?thesis using that(3,4) by (cases "S_ISCHR (vn_mode vn) \<and> c = None") (auto simp: bind_Some_iff)
  qed
qed

lemma vfs_open_vnode:
  assumes bal: "vfs_bal (\<lambda>w. j w + one v w) k (insert f R) s" and f: "k f = 0" "fds s f = 1" "p_files s ! nat fd = Some f"
    and x: "file_tab s f = Some x" "f_vnode x = None"
    and run: "open_vnode v fd f oflags s = Some (r, s')"
  shows "vfs_bal j k R s'"
proof -
  obtain vn where vn: "vnodes s v = Some vn" using run by (auto simp: open_vnode_def bind_Some_iff)
  note dev = vfs_with_dev [OF bal vn]
  have fds: "fds (with_bdev v vn s) f = 1" "fds (with_cdev v vn c (with_bdev v vn s)) f = 1" for c
    using f(2) by (simp_all add: fds_def)
  from run vn show ?thesis
  proof (cases rule: open_vnode_cases)
    case (1 t1 t2)
    then show ?thesis using open_undo [OF bal f 1(1)] by blast
  next
    case (2 t1 t2)
    show ?thesis by (rule open_undo [OF dev(1) f(1) fds(1) _ 2(1) disjI2 [OF conjI [OF 2(2,3)]]]) (use f(3) in simp)
  next
    case (3 c t1 t2)
    show ?thesis by (rule open_undo [OF dev(2) f(1) fds(2) _ 3(1) disjI2 [OF conjI [OF 3(2,3)]]]) (use f(3) in simp)
  next
    case (4 c y)
    then have "y = x" using x by simp
    then show ?thesis using vfs_bal_attach [OF dev(2) 4(1)] 4(2) x by simp
  qed
qed

lemma open_mode_small: "open_mode oflags < 8"
  by (simp add: open_mode_def)

lemma vfs_do_open:
  assumes bal: "vfs_bal j k R s" and run: "do_open filename oflags s = Some (r, s')"
  shows "vfs_bal j k R s'"
proof (cases "oflags \<notin> set open_flags \<or> get_empty_fd s = - EMFILE")
  case True
  then show ?thesis using run bal by (auto simp: do_open_def Let_def split: if_splits)
next
  case False
  define fd where "fd = get_empty_fd s"
  have fd: "0 \<le> fd" "fd < 32" "p_files s ! nat fd = None" using get_empty_fd_free [of s fd] False by (auto simp: fd_def)
  obtain fp s1 where g: "fget (- 1) s = Some (fp, s1)" using run False by (auto simp: do_open_def bind_Some_iff Let_def)
  note run1 = run [unfolded do_open_def Let_def, folded fd_def]
  from vfs_bal_new_file [OF bal g] show ?thesis
  proof (elim disjE exE conjE)
    assume "fp = None" "vfs_bal j k R s1"
    then show ?thesis using run1 False g by (auto simp: fd_def)
  next
    fix f x0 assume fp: "fp = Some f" and n: "fds s1 f = 0" "k f = 0" and pf: "p_files s1 = p_files s"
      and b1: "vfs_bal j (k(f := 1)) (insert f R) s1" and new: "file_tab s1 f = Some x0" "f_vnode x0 = None"
    obtain s2 x r1 res p s4 where sf: "set_fd fd (Some f) s1 = Some s2" and x: "file_tab s2 f = Some x"
      and on: "open_namev filename oflags None (put_file f (Some (x\<lparr>f_mode := open_mode oflags\<rparr>)) s2) = Some (r1, res, p, s4)"
      and fin: "(if r1 \<noteq> 0 then do { s \<leftarrow> set_fd fd None s4; s \<leftarrow> fput fp s; Some (r1, s) }
              else do { v \<leftarrow> res; open_vnode v fd f oflags s4 }) = Some (r, s')"
      using run1 False g fp by (auto simp: fd_def bind_Some_iff)
    let ?s3 = "put_file f (Some (x\<lparr>f_mode := open_mode oflags\<rparr>)) s2"
    have b2: "vfs_bal j k (insert f R) s2"
      by (rule vfs_bal_set_fd [OF b1 sf]) (use fd pf n vfs_bal_owned [OF bal] vfs_bal_exists [OF b1, of f] in auto)
    have s2: "fds s2 f = 1" "p_files s2 ! nat fd = Some f" "f_vnode x = None"
      using sf x new n fd pf fds_update [of "nat fd" s1 "Some f" f] by (auto simp: set_fd_def split: if_splits)
    have "vfs_bal j (k(f := 0)) (insert f R) ?s3"
      by (rule vfs_bal_put_file [OF b2 x]) (use vfs_bal_file [OF b2 x] n open_mode_small in auto)
    then have b3: "vfs_bal j k (insert f R) ?s3" using n(2) by (simp add: fun_upd_idem)
    note os = open_namev_spec [OF on vfs_balD(1) [OF b3]]
    have s4: "fds s4 f = 1" "p_files s4 ! nat fd = Some f" "file_tab s4 f = Some (x\<lparr>f_mode := open_mode oflags\<rparr>)"
      using os s2 vfs_more [of s4 ?s3] by (auto simp: refs_def fds_def)
    show ?thesis
    proof (cases "r1 = 0")
      case False
      then obtain t1 where t: "set_fd fd None s4 = Some t1" "fput (Some f) t1 = Some s'" using fin fp by (auto simp: bind_Some_iff)
      have b4: "vfs_bal j k (insert f R) s4" using os False vfs_bal_no_refs [OF b3] by auto
      have b5: "vfs_bal j (k(f := 1)) (insert f R) t1"
        by (rule vfs_bal_set_fd [OF b4 t(1)]) (use s4 n vfs_bal_owned [OF bal] in auto)
      show ?thesis by (rule vfs_bal_discard [OF b5 set_fd_fds [OF t(1) s4(2,1)] n(2) t(2)])
    next
      case True
      then obtain v where v: "refs (one v) ?s3 s4" "open_vnode v fd f oflags s4 = Some (r, s')" using os fin by (auto simp: bind_Some_iff)
      from vfs_bal_refs [OF b3 v(1)] os have b4: "vfs_bal (\<lambda>w. j w + one v w) k (insert f R) s4" by blast
      show ?thesis by (rule vfs_open_vnode [OF b4 n(2) s4 _ v(2)]) (use s2 in simp)
    qed
  qed
qed

end
