(* ===== verification/VfsSafe.thy ===== *)
theory VfsSafe
imports VfsInv
begin

text \<open>
  The system calls of the file system and the books of \<^verbatim>\<open>VfsInv\<close>: what a call takes
  on the way it gives back on every way out, but for \<^verbatim>\<open>do_mknod\<close> on a name that exists,
  which keeps one reference; a ledger of these is carried along.
\<close>

section \<open>Calls with a path\<close>

text \<open>A stretch of a call from \<^verbatim>\<open>s\<close> to \<^verbatim>\<open>t\<close> that has taken the references \<^verbatim>\<open>k\<close>.\<close>

definition took :: "(nat \<Rightarrow> int) \<Rightarrow> 'a fsys_scheme \<Rightarrow> 'a fsys_scheme \<Rightarrow> bool" where
  "took k s t \<longleftrightarrow> fs_inv t \<and> refs k s t"

lemma took_start: "fs_inv s \<Longrightarrow> took (\<lambda>_. 0) s s"
  by (simp add: took_def)

lemma took_same: "took k s t \<Longrightarrow> (\<And>w. l w = k w) \<Longrightarrow> took l s t"
  by (simp add: took_def refs_def)

lemma took_refs: "took k s t \<Longrightarrow> refs l t u \<Longrightarrow> fs_inv u \<Longrightarrow> took (\<lambda>w. k w + l w) s u"
  unfolding took_def by (blast intro: refs_trans)


lemma took_vput: "took k s t \<Longrightarrow> vput v t = Some u \<Longrightarrow> took (\<lambda>w. k w - one v w) s u"
  unfolding took_def by (auto intro: vput_inv refs_trans [OF _ refs_vput])

lemma took_lookup:
  assumes "took k s t" and "lookup d name len t = Some (r, res, u)"
  shows "(r < 0 \<and> res = None \<and> u = t) \<or> (\<exists>v. r = 0 \<and> res = Some v \<and> took (\<lambda>w. k w + one v w) s u)"
  using lookup_spec [OF _ assms(2)] assms(1) unfolding took_def by (auto intro: refs_trans)

lemma took_dir_namev:
  assumes "took k s t" and "dir_namev path base t = Some nv"
  shows "(nv_ret nv < 0 \<and> took k s (nv_state nv))
    \<or> (nv_ret nv = 0 \<and> (\<exists>d. nv_res nv = Some d \<and> took (\<lambda>w. k w + one d w) s (nv_state nv)) \<and> 0 < nv_len nv \<and> nv_len nv = length (nv_name nv))"
  using dir_namev_spec [OF assms(2)] assms(1) unfolding took_def by (auto intro: refs_trans)















section \<open>Every call keeps the books\<close>


















section \<open>Exit and shutdown\<close>










section \<open>From boot to shutdown\<close>

text \<open>The kernel before the root file system is mounted, with a process that has no files.\<close>

definition pristine :: "'a vfs_scheme \<Rightarrow> bool" where
  "pristine s \<longleftrightarrow> vnodes s = (\<lambda>_. None) \<and> vnode_inuse_list s = [] \<and> file_tab s = (\<lambda>_. None) \<and> p_files s = replicate 32 None"

definition boot :: "'a vfs_scheme \<Rightarrow> 'a vfs_scheme option" where
  "boot s = do { s \<leftarrow> vfs_init s; set_cwds s }"

lemma kalloc_fields:
  assumes "kalloc s = (ok, t)"
  shows "vnodes t = vnodes s" "vnode_inuse_list t = vnode_inuse_list s" "fsys.more t = fsys.more s"
  using assms by (auto simp: kalloc_def split: list.splits)

lemma mount_books:
  assumes fresh: "vnodes s = (\<lambda>_. None)" and run: "ramfs_mount s = Some (r, s')" and ok: "\<not> r < 0"
  shows "r = 0 \<and> (\<forall>w. rc s' w = one 0 w) \<and> fsys.more s' = fsys.more s"
proof -
  obtain g s1 where k: "kalloc s = (g, s1)" by fastforce
  obtain ino s2 where al: "ramfs_alloc_inode RAMFS_TYPE_DIR 0 (s1\<lparr>rfs_inodes := (\<lambda>_. None)\<rparr>) = (ino, s2)" by fastforce
  obtain s3 s4 where st: "fill_dots 0 0 s2 = Some s3" "vget 0 s3 = Some s4" "s' = s4\<lparr>fs_root := 0\<rparr>" and r: "r = 0"
    using run k al ok by (auto simp: ramfs_mount_def bind_Some_iff split: if_splits)
  have "refs (one 0) (s1\<lparr>rfs_inodes := (\<lambda>_. None)\<rparr>) s4"
    by (rule refs_trans [OF refs_trans [OF refs_alloc [OF al] refs_fill_dots [OF st(1)]] refs_vget [OF st(2)]]) auto
  then show ?thesis using r kalloc_fields [OF k] fresh st(3) by (simp add: refs_def rc_def)
qed

lemma boot_books:
  assumes p: "pristine s" and run: "boot s = Some s'"
  shows "vfs_bal (one (fs_root s')) (\<lambda>_. 0) {} s'"
proof -
  obtain ok t where k: "kalloc s = (ok, t)" by fastforce
  obtain r u where m: "ramfs_mount t = Some (r, u)" "\<not> r < 0" and c: "set_cwds u = Some s'"
    using run k by (auto simp: boot_def vfs_init_def mountfunc_def bind_Some_iff)
  have t: "vnodes t = (\<lambda>_. None)" "vnode_inuse_list t = []" using kalloc_fields [OF k] p by (simp_all add: pristine_def)
  note mb = mount_books [OF t(1) m]
  then have r: "r = 0" by blast
  have inv: "fs_inv u" and root: "fs_root u = 0" using fs_inv_mount [OF t m(1) [unfolded r]] by auto
  let ?u = "u\<lparr>p_cwd := 0\<rparr>"
  obtain a where v: "vref 0 ?u = Some a" "vref (p_cwd a) a = Some s'" using c root by (auto simp: set_cwds_def bind_Some_iff)
  have "refs (one 0) ?u a" by (rule refs_vref [OF v(1)])
  moreover from this have "p_cwd a = 0" using vfs_more [of a ?u] by (simp add: refs_def)
  ultimately have refs: "refs (\<lambda>w. one 0 w + one 0 w) ?u s'" using refs_trans [OF _ refs_vref] v(2) by (metis (no_types, lifting))
  have more: "fsys.more u = fsys.more s" using mb kalloc_fields(3) [OF k] by simp
  have u: "file_tab u = (\<lambda>_. None)" "p_files u = replicate 32 None" using vfs_more [OF more] p by (simp_all add: pristine_def)
  have s': "p_cwd s' = 0" "file_tab s' = (\<lambda>_. None)" "p_files s' = replicate 32 None" "fs_root s' = 0"
    using refs u root vfs_more [of s' ?u] by (simp_all add: refs_def)
  have "fs_inv ?u" using inv by simp
  then have "fs_inv s'" using v by (blast intro: fs_bal_vref)
  moreover have "rc s' w = held s' w + one (fs_root s') w" for w
    using refs mb s' by (auto simp: refs_def held_def files_at_def rc_def)
  ultimately show ?thesis using s' by (simp add: vfs_bal_def fds_def file_ok_def)
qed





text \<open>A run: the root directory is opened and its descriptor duplicated.\<close>

definition before_boot :: vfs where
  "before_boot = \<lparr>rfs_inodes = (\<lambda>_. None), vnodes = (\<lambda>_. None), vnode_inuse_list = [], fs_root = 0,
     bytedevs = [], blockdevs = [], allocs = [], p_cwd = 0, file_tab = (\<lambda>_. None), next_file = 0, p_files = replicate 32 None\<rparr>"

definition root_inodes :: "nat \<Rightarrow> ramfs_inode option" where
  "root_inodes = [0 \<mapsto> \<lparr>rf_size = 64, rf_ino = 0,
     rf_mem = Dirents (dot_entries 0 0 (replicate RAMFS_MAX_DIRENT empty_dirent)), rf_mode = RAMFS_TYPE_DIR, rf_linkcount = 2\<rparr>]"

definition root_vnodes :: "int \<Rightarrow> nat \<Rightarrow> vnode option" where
  "root_vnodes n = [0 \<mapsto> (blank_vnode 0)\<lparr>vn_ops := Some Ramfs_dir, vn_mode := S_IFDIR, vn_len := 64, vn_refcount := n\<rparr>]"

definition booted :: "int \<Rightarrow> vfs" where
  "booted n = before_boot\<lparr>rfs_inodes := root_inodes, vnodes := root_vnodes n, vnode_inuse_list := [0]\<rparr>"

lemma pristine_before_boot: "pristine before_boot"
  by (simp add: pristine_def before_boot_def)

lemma boot_before_boot: "boot before_boot = Some (booted 3)"
proof -
  have "find (\<lambda>i. rfs_inodes before_boot i = None) [0..<RAMFS_MAX_FILES] = Some 0"
    by (rule find_first) (simp_all add: before_boot_def)
  then have "ramfs_alloc_inode RAMFS_TYPE_DIR 0 before_boot = (0, put_inode 0 (Some (new_inode 0 RAMFS_TYPE_DIR 0)) before_boot)"
    by (simp add: ramfs_alloc_inode_def kalloc_def before_boot_def del: upt_rec_numeral)
  moreover have "before_boot\<lparr>rfs_inodes := \<lambda>_. None\<rparr> = before_boot" by (simp add: before_boot_def)
  ultimately have "ramfs_mount before_boot = Some (0, booted 1)"
    by (simp add: ramfs_mount_def kalloc_def before_boot_def booted_def root_inodes_def root_vnodes_def fill_dots_def dirents_of_def mod_inode_def
        put_inode_def put_vnode_def new_inode_def vget_def ramfs_read_vnode_def blank_vnode_def Let_def)
  then show ?thesis
    by (simp add: boot_def vfs_init_def mountfunc_def kalloc_def before_boot_def set_cwds_def vref_def put_vnode_def)
      (simp add: booted_def root_vnodes_def before_boot_def)
qed

lemma dot_scan:
  "scan_entries (\<lambda>e. name_match (rd_name e) ''.'' (Suc 0)) (dot_entries d p (replicate 128 empty_dirent)) = Some 0"
  "dot_entries d p (replicate 128 empty_dirent) ! 0 = \<lparr>rd_ino = int d, rd_name = ''.''\<rparr>"
  by (simp_all add: scan_entries_Some dot_entries_def name_match_def)

lemma root_refs:
  assumes "vnodes s = root_vnodes n" and "rfs_inodes s = root_inodes" and "0 < n"
  shows "vref 0 s = Some (s\<lparr>vnodes := root_vnodes (n + 1)\<rparr>)"
    and "1 < n \<Longrightarrow> vput 0 s = Some (s\<lparr>vnodes := root_vnodes (n - 1)\<rparr>)"
    and "lookup 0 ''.'' 1 s = Some (0, Some 0, s\<lparr>vnodes := root_vnodes (n + 1)\<rparr>)"
proof -
  show v: "vref 0 s = Some (s\<lparr>vnodes := root_vnodes (n + 1)\<rparr>)" using assms by (simp add: vref_def put_vnode_def root_vnodes_def)
  show "vput 0 s = Some (s\<lparr>vnodes := root_vnodes (n - 1)\<rparr>)" if "1 < n"
    using assms that by (simp add: vput_def put_vnode_def root_vnodes_def blank_vnode_def Let_def)
  have "ramfs_lookup 0 ''.'' 1 s = Some (0, Some 0, s\<lparr>vnodes := root_vnodes (n + 1)\<rparr>)"
    using assms v by (simp add: ramfs_lookup_def dirents_of_def root_inodes_def root_vnodes_def vget_def dot_scan blank_vnode_def)
  then show "lookup 0 ''.'' 1 s = Some (0, Some 0, s\<lparr>vnodes := root_vnodes (n + 1)\<rparr>)"
    using assms by (simp add: lookup_def root_vnodes_def has_op_def ramfs_dir_vops_def)
qed

lemma dir_namev_root:
  assumes s: "vnodes s = root_vnodes n" "rfs_inodes s = root_inodes" "0 < n" "p_cwd s = 0" "fs_root s = 0"
  shows "dir_namev ''/'' None s = Some \<lparr>nv_ret = 0, nv_res = Some 0, nv_name = ''.'', nv_len = 1, nv_path = ''/'',
      nv_state = s\<lparr>vnodes := root_vnodes (n + 1)\<rparr>\<rparr>"
  using s root_refs(1) [OF s(1-3)] root_refs(1) [of "s\<lparr>vnodes := root_vnodes n\<rparr>" n]
    root_refs(2) [of "s\<lparr>vnodes := root_vnodes (n + 1)\<rparr>" "n + 1"]
  by (simp add: dir_namev_def)







text \<open>
  C22. \<^verbatim>\<open>do_mknod\<close> on a name that exists reports \<^verbatim>\<open>EEXIST\<close> but keeps the
  reference its lookup took: the reference count of the existing vnode grows by one, that of no
  other vnode changes.
\<close>

theorem do_mknod_exists_leaks:
  assumes "fs_inv s" and "S_ISCHR mode \<or> S_ISBLK mode" and "length p \<le> MAXPATHLEN" and "dir_namev p None s = Some nv"
    and "nv_ret nv = 0" and "nv_res nv = Some d" and "lookup d (nv_name nv) (nv_len nv) (nv_state nv) = Some (0, Some c, t)"
    and "do_mknod (Some p) mode dv s = Some (r, s')"
  shows "r = - EEXIST \<and> (\<forall>w. rc s' w = rc s w + (if w = c then 1 else 0))"
proof -
  have v: "vput d t = Some s'" and r: "r = - EEXIST" using assms(2-8) by (auto simp: do_mknod_def bind_Some_iff Let_def)
  have "took (\<lambda>w. 0 + one d w) s (nv_state nv)" using took_dir_namev [OF took_start [OF assms(1)] assms(4)] assms(5,6) by simp
  from took_lookup [OF this assms(7)] have "took (\<lambda>w. (0 + one d w) + one c w) s t" by simp
  from took_vput [OF this v] have "took (one c) s s'" by (rule took_same) simp
  then show ?thesis using r by (simp add: took_def refs_def)
qed





theorem do_mknod_exists_leaks_witness:
  "\<exists>s'. do_mknod (Some ''/'') S_IFCHR 0 (booted 3) = Some (- EEXIST, s') \<and> rc s' 0 = rc (booted 3) 0 + 1"
proof -
  have b: "vnodes (booted 3) = root_vnodes 3" "rfs_inodes (booted 3) = root_inodes" "p_cwd (booted 3) = 0" "fs_root (booted 3) = 0"
    by (simp_all add: booted_def before_boot_def)
  note nv = dir_namev_root [OF b(1,2) _ b(3,4)]
  let ?s = "(booted 3)\<lparr>vnodes := root_vnodes (3 + 1)\<rparr>"
  have l: "lookup 0 ''.'' 1 ?s = Some (0, Some 0, ?s\<lparr>vnodes := root_vnodes (4 + 1)\<rparr>)" using root_refs(3) [of ?s 4] b by simp
  have "vput 0 (?s\<lparr>vnodes := root_vnodes (4 + 1)\<rparr>) = Some ?s" using root_refs(2) [of "?s\<lparr>vnodes := root_vnodes 5\<rparr>" 5] b by simp
  then have run: "do_mknod (Some ''/'') S_IFCHR 0 (booted 3) = Some (- EEXIST, ?s)"
    using nv l by (simp add: do_mknod_def)
  have "fs_inv (booted 3)" using vfs_balD(1) [OF boot_books [OF pristine_before_boot boot_before_boot]] .
  from do_mknod_exists_leaks [OF this _ _ nv _ _ _ run] l show ?thesis using run by simp
qed

end
