(* ===== verification/KString.thy ===== *)
theory KString
imports Ramfs
begin

text \<open>
  The string functions of \<^verbatim>\<open>util/string.c\<close> on a byte-addressed memory.  A loop that
  looks for a terminating zero byte runs for ever when there is none: its value is then
  \<^const>\<open>None\<close>.  The three routines in assembler are the x86 string instructions
  they consist of.  The lemmas say what the functions compute on zero-terminated strings.
\<close>

type_synonym mem = "nat \<Rightarrow> char"

abbreviation (input) NUL :: char where "NUL \<equiv> CHR 0x00"

section \<open>Blocks of memory\<close>

definition diff8 :: "char \<Rightarrow> char \<Rightarrow> 8 word" where
  "diff8 a b = of_char a - of_char b"

text \<open>
  \<^verbatim>\<open>repe cmpsb\<close> stops behind the first pair of different bytes; the result is made
  from the zero flag and the sign flag of the last comparison.
\<close>

fun memcmp :: "mem \<Rightarrow> nat \<Rightarrow> nat \<Rightarrow> nat \<Rightarrow> int" where
  "memcmp m cs ct 0 = 0"
| "memcmp m cs ct (Suc count) =
     (if diff8 (m cs) (m ct) \<noteq> 0 then if sint (diff8 (m cs) (m ct)) < 0 then - 1 else 1
      else memcmp m (cs + 1) (ct + 1) count)"

fun memcpy :: "mem \<Rightarrow> nat \<Rightarrow> nat \<Rightarrow> nat \<Rightarrow> mem" where
  "memcpy m dest src 0 = m"
| "memcpy m dest src (Suc count) = memcpy (m(dest := m src)) (dest + 1) (src + 1) count"

fun memset :: "mem \<Rightarrow> nat \<Rightarrow> int \<Rightarrow> nat \<Rightarrow> mem" where
  "memset m s c 0 = m"
| "memset m s c (Suc count) = memset (m(s := char_of (c mod 256))) (s + 1) c count"

section \<open>Zero-terminated strings\<close>

fun strncmp :: "mem \<Rightarrow> nat \<Rightarrow> nat \<Rightarrow> nat \<Rightarrow> int" where
  "strncmp m cs ct 0 = 0"
| "strncmp m cs ct (Suc count) =
     (let res = diff8 (m cs) (m ct) in
      if res \<noteq> 0 \<or> m cs = NUL then sint res else strncmp m (cs + 1) (ct + 1) count)"

partial_function (option) strcmp :: "mem \<Rightarrow> nat \<Rightarrow> nat \<Rightarrow> int option" where
  "strcmp m cs ct =
     (let res = diff8 (m cs) (m ct) in
      if res \<noteq> 0 \<or> m cs = NUL then Some (sint res) else strcmp m (cs + 1) (ct + 1))"

partial_function (option) strcpy :: "mem \<Rightarrow> nat \<Rightarrow> nat \<Rightarrow> mem option" where
  "strcpy m dest src =
     (let c = m src; m = m(dest := c) in
      if c \<noteq> NUL then strcpy m (dest + 1) (src + 1) else Some m)"

fun strncpy :: "mem \<Rightarrow> nat \<Rightarrow> nat \<Rightarrow> nat \<Rightarrow> mem" where
  "strncpy m dest src 0 = m"
| "strncpy m dest src (Suc count) =
     (let c = m src; m = m(dest := c) in
      if c \<noteq> NUL then strncpy m (dest + 1) (src + 1) count else m)"

fun strnlen_loop :: "mem \<Rightarrow> nat \<Rightarrow> nat \<Rightarrow> nat" where
  "strnlen_loop m sc 0 = sc"
| "strnlen_loop m sc (Suc count) = (if m sc \<noteq> NUL then strnlen_loop m (sc + 1) count else sc)"

definition strnlen :: "mem \<Rightarrow> nat \<Rightarrow> nat \<Rightarrow> nat" where
  "strnlen m s count = strnlen_loop m s count - s"

partial_function (option) str_end :: "mem \<Rightarrow> nat \<Rightarrow> nat option" where
  "str_end m sc = (if m sc \<noteq> NUL then str_end m (sc + 1) else Some sc)"

definition strcat :: "mem \<Rightarrow> nat \<Rightarrow> nat \<Rightarrow> mem option" where
  "strcat m dest src = do { d \<leftarrow> str_end m dest; strcpy m d src }"

definition strlen :: "mem \<Rightarrow> nat \<Rightarrow> nat option" where
  "strlen m s = do { sc \<leftarrow> str_end m s; Some (sc - s) }"

text \<open>A result pointer is \<^const>\<open>None\<close> for NULL.\<close>

partial_function (option) strchr :: "mem \<Rightarrow> nat \<Rightarrow> char \<Rightarrow> nat option option" where
  "strchr m s c =
     (if m s = c then Some (Some s) else if m s = NUL then Some None else strchr m (s + 1) c)"

partial_function (option) strrchr_loop :: "mem \<Rightarrow> nat \<Rightarrow> char \<Rightarrow> nat option \<Rightarrow> nat option option" where
  "strrchr_loop m s c r =
     (if m s = NUL then Some r else strrchr_loop m (s + 1) c (if m s = c then Some s else r))"

definition strrchr :: "mem \<Rightarrow> nat \<Rightarrow> char \<Rightarrow> nat option option" where
  "strrchr m s c = strrchr_loop m s c None"

function strstr_loop :: "mem \<Rightarrow> nat \<Rightarrow> nat \<Rightarrow> int \<Rightarrow> nat \<Rightarrow> nat option" where
  "strstr_loop m s1 s2 l1 l2 =
     (if int l2 \<le> l1
      then if memcmp m s1 s2 l2 = 0 then Some s1 else strstr_loop m (s1 + 1) s2 (l1 - 1) l2
      else None)"
  by pat_completeness auto

termination strstr_loop
  by (relation "measure (\<lambda>(m, s1, s2, l1, l2). nat (l1 - int l2 + 1))") auto

declare strstr_loop.simps [simp del]

definition strstr :: "mem \<Rightarrow> nat \<Rightarrow> nat \<Rightarrow> nat option option" where
  "strstr m s1 s2 = do {
     l2 \<leftarrow> strlen m s2;
     if l2 = 0 then Some (Some s1)
     else do { l1 \<leftarrow> strlen m s1; Some (strstr_loop m s1 s2 (int l1) l2) }
   }"

section \<open>Tokens\<close>

text \<open>The inner loop of \<^verbatim>\<open>strpbrk\<close> and \<^verbatim>\<open>strspn\<close>: where a character, or the end of the set, is.\<close>

partial_function (option) find_in_set :: "mem \<Rightarrow> nat \<Rightarrow> char \<Rightarrow> nat option" where
  "find_in_set m p c = (if m p \<noteq> NUL \<and> m p \<noteq> c then find_in_set m (p + 1) c else Some p)"

partial_function (option) strpbrk :: "mem \<Rightarrow> nat \<Rightarrow> nat \<Rightarrow> nat option option" where
  "strpbrk m string brkset = do {
     p \<leftarrow> find_in_set m brkset (m string);
     if m p \<noteq> NUL then Some (Some string)
     else if m string \<noteq> NUL then strpbrk m (string + 1) brkset
     else Some None
   }"

partial_function (option) strspn_loop :: "mem \<Rightarrow> nat \<Rightarrow> nat \<Rightarrow> nat option" where
  "strspn_loop m q charset =
     (if m q = NUL then Some q
      else do {
        p \<leftarrow> find_in_set m charset (m q);
        if m p = NUL then Some q else strspn_loop m (q + 1) charset
      })"

definition strspn :: "mem \<Rightarrow> nat \<Rightarrow> nat \<Rightarrow> nat option" where
  "strspn m string charset = do { q \<leftarrow> strspn_loop m string charset; Some (q - string) }"

text \<open>The static variable \<^verbatim>\<open>savept\<close> is an argument and a result.\<close>

definition strtok :: "nat option \<Rightarrow> mem \<Rightarrow> nat option \<Rightarrow> nat \<Rightarrow> (nat option \<times> nat option \<times> mem) option" where
  "strtok savept m string sepset =
     (case (case string of None \<Rightarrow> savept | Some s \<Rightarrow> Some s) of
        None \<Rightarrow> Some (None, savept, m)
      | Some p \<Rightarrow> do {
          n \<leftarrow> strspn m p sepset;
          let q = p + n;
          if m q = NUL then Some (None, savept, m)
          else do {
            r \<leftarrow> strpbrk m q sepset;
            case r of
              None \<Rightarrow> Some (Some q, None, m)
            | Some r \<Rightarrow> Some (Some q, Some (r + 1), m(r := NUL))
          }
        })"

section \<open>Error messages\<close>

definition error_table :: "(int \<times> string) list" where
  "error_table =
    [(1, ''Not super-user''),
     (2, ''No such file or directory''),
     (3, ''No such process''),
     (4, ''interrupted system call''),
     (5, ''I/O error''),
     (6, ''No such device or address''),
     (7, ''Arg list too long''),
     (8, ''Exec format error''),
     (9, ''Bad file number''),
     (10, ''No children''),
     (11, ''Resource temporarily unavailable''),
     (12, ''Not enough core''),
     (13, ''Permission denied''),
     (14, ''Bad address''),
     (15, ''Block device required''),
     (16, ''Mount device busy''),
     (17, ''File exists''),
     (18, ''Cross-device link''),
     (19, ''No such device''),
     (20, ''Not a directory''),
     (21, ''Is a directory''),
     (22, ''Invalid argument''),
     (23, ''File table overflow''),
     (24, ''Too many open files''),
     (25, ''Inappropriate ioctl for device''),
     (26, ''Text file busy''),
     (27, ''File too large''),
     (28, ''No space left on device''),
     (29, ''Illegal seek''),
     (30, ''Read only file system''),
     (31, ''Too many links''),
     (32, ''Broken pipe''),
     (33, ''Math arg out of domain of func''),
     (34, ''Math result not representable''),
     (42, ''No message of desired type''),
     (43, ''Identifier removed''),
     (44, ''Channel number out of range''),
     (45, ''Level 2 not synchronized''),
     (46, ''Level 3 halted''),
     (47, ''Level 3 reset''),
     (48, ''Link number out of range''),
     (49, ''Protocol driver not attached''),
     (50, ''No CSI structure available''),
     (51, ''Level 2 halted''),
     (35, ''Deadlock condition.''),
     (37, ''No record locks available.''),
     (125, ''Operation canceled''),
     (95, ''Operation not supported''),
     (122, ''Disc quota exceeded''),
     (52, ''invalid exchange''),
     (53, ''invalid request descriptor''),
     (54, ''exchange full''),
     (55, ''no anode''),
     (56, ''invalid request code''),
     (57, ''invalid slot''),
     (59, ''bad font file fmt''),
     (60, ''Device not a stream''),
     (61, ''no data (for no delay io)''),
     (62, ''timer expired''),
     (63, ''out of streams resources''),
     (64, ''Machine is not on the network''),
     (65, ''Package not installed''),
     (66, ''The object is remote''),
     (67, ''the link has been severed''),
     (68, ''advertise error''),
     (69, ''srmount error''),
     (70, ''Communication error on send''),
     (71, ''Protocol error''),
     (72, ''multihop attempted''),
     (74, ''trying to read unreadable message''),
     (36, ''path name is too long''),
     (75, ''value too large to be stored in data type''),
     (76, ''given log. name not unique''),
     (77, ''f.d. invalid for this operation''),
     (78, ''Remote address changed''),
     (79, ''Can'' @ [CHR 0x27] @ ''t access a needed shared lib.''),
     (80, ''Accessing a corrupted shared lib.''),
     (81, ''.lib section in a.out corrupted.''),
     (82, ''Attempting to link in too many libs.''),
     (83, ''Attempting to exec a shared library.''),
     (84, ''Illegal byte sequence.''),
     (38, ''Unsupported file system operation''),
     (40, ''Symbolic link loop''),
     (85, ''Restartable system call''),
     (86, ''if pipe/FIFO, don'' @ [CHR 0x27] @ ''t sleep in stream head''),
     (39, ''directory not empty''),
     (87, ''Too many users (for UFS)''),
     (88, ''Socket operation on non-socket''),
     (89, ''Destination address required''),
     (90, ''Message too long''),
     (91, ''Protocol wrong type for socket''),
     (92, ''Protocol not available''),
     (93, ''Protocol not supported''),
     (94, ''Socket type not supported''),
     (96, ''Protocol family not supported''),
     (97, ''Address family not supported by protocol family''),
     (98, ''Address already in use''),
     (99, ''Can'' @ [CHR 0x27] @ ''t assign requested address''),
     (100, ''Network is down''),
     (101, ''Network is unreachable''),
     (102, ''Network dropped connection because of reset''),
     (103, ''Software caused connection abort''),
     (104, ''Connection reset by peer''),
     (105, ''No buffer space available''),
     (106, ''Socket is already connected''),
     (107, ''Socket is not connected''),
     (108, ''Can'' @ [CHR 0x27] @ ''t send after socket shutdown''),
     (109, ''Too many references: can'' @ [CHR 0x27] @ ''t splice''),
     (110, ''Connection timed out''),
     (111, ''Connection refused''),
     (112, ''Host is down''),
     (113, ''No route to host''),
     (114, ''operation already in progress''),
     (115, ''operation now in progress''),
     (116, ''Stale NFS file handle'')]"

definition strerror :: "int \<Rightarrow> string option" where
  "strerror errnum = map_of error_table errnum"

section \<open>Strings in memory\<close>

fun text_at :: "mem \<Rightarrow> nat \<Rightarrow> string \<Rightarrow> bool" where
  "text_at m p [] = True"
| "text_at m p (c # s) = (m p = c \<and> c \<noteq> NUL \<and> text_at m (p + 1) s)"

definition str_at :: "mem \<Rightarrow> nat \<Rightarrow> string \<Rightarrow> bool" where
  "str_at m p s \<longleftrightarrow> text_at m p s \<and> m (p + length s) = NUL"

lemma text_at_iff: "text_at m p s \<longleftrightarrow> (\<forall>i<length s. m (p + i) = s ! i \<and> s ! i \<noteq> NUL)"
proof (induction s arbitrary: p)
  case (Cons c s)
  have "(\<forall>i<Suc (length s). m (p + i) = (c # s) ! i \<and> (c # s) ! i \<noteq> NUL)
     \<longleftrightarrow> m p = c \<and> c \<noteq> NUL \<and> (\<forall>i<length s. m (p + 1 + i) = s ! i \<and> s ! i \<noteq> NUL)"
    by (simp add: All_less_Suc2)
  then show ?case using Cons by simp
qed simp

lemma text_at_append [simp]: "text_at m p (s @ t) \<longleftrightarrow> text_at m p s \<and> text_at m (p + length s) t"
  by (induction s arbitrary: p) (auto simp: add.assoc)

lemma str_at_Nil [simp]: "str_at m p [] \<longleftrightarrow> m p = NUL"
  by (simp add: str_at_def)

lemma str_at_Cons [simp]: "str_at m p (c # s) \<longleftrightarrow> m p = c \<and> c \<noteq> NUL \<and> str_at m (p + 1) s"
  by (auto simp: str_at_def)

lemma str_at_append: "str_at m p (s @ t) \<longleftrightarrow> text_at m p s \<and> str_at m (p + length s) t"
  by (auto simp: str_at_def add.assoc)

lemma text_at_frame: "\<forall>i<length s. m' (p + i) = m (p + i) \<Longrightarrow> text_at m' p s \<longleftrightarrow> text_at m p s"
  by (simp add: text_at_iff)

lemma str_at_frame: "\<forall>i\<le>length s. m' (p + i) = m (p + i) \<Longrightarrow> str_at m' p s \<longleftrightarrow> str_at m p s"
  using text_at_frame [of s m' p m] by (auto simp: str_at_def)

lemma str_at_nonzero: "str_at m p s \<Longrightarrow> NUL \<notin> set s"
  by (auto simp: str_at_def text_at_iff in_set_conv_nth)

lemma diff8_0 [simp]: "diff8 a b = 0 \<longleftrightarrow> a = b"
proof
  assume "diff8 a b = 0"
  then have "(of_char a :: 8 word) = of_char b" by (simp add: diff8_def)
  then have "word_of_nat (of_char a) = (word_of_nat (of_char b) :: 8 word)" unfolding of_nat_of_char .
  then have "(of_char a :: nat) mod 256 = of_char b mod 256" by (simp add: word_of_nat_eq_iff take_bit_eq_mod)
  then show "a = b" by simp
qed (simp add: diff8_def)

lemma sint_diff8_0 [simp]: "sint (diff8 a b) = 0 \<longleftrightarrow> a = b"
  using diff8_0 [of a b] by (metis signed_0 signed_word_eqI)

lemma str_end_at: "str_at m p s \<Longrightarrow> str_end m p = Some (p + length s)"
  by (induction s arbitrary: p) (simp_all add: str_end.simps)

lemma strlen_at: "str_at m p s \<Longrightarrow> strlen m p = Some (length s)"
  by (simp add: strlen_def str_end_at)

lemma memcmp_0: "memcmp m p q n = 0 \<longleftrightarrow> (\<forall>i<n. m (p + i) = m (q + i))"
proof (induction n arbitrary: p q)
  case (Suc n)
  have "(\<forall>i<Suc n. m (p + i) = m (q + i)) \<longleftrightarrow> m p = m q \<and> (\<forall>i<n. m (p + 1 + i) = m (q + 1 + i))"
    by (simp add: All_less_Suc2)
  then show ?case using Suc by simp
qed simp

lemma strncmp_0:
  assumes "text_at m p s" and "n \<le> length s"
  shows "strncmp m p q n = 0 \<longleftrightarrow> (\<forall>i<n. m (q + i) = s ! i)"
  using assms
proof (induction n arbitrary: p q s)
  case (Suc n)
  then obtain c t where s: "s = c # t" by (cases s) auto
  then have c: "m p = c" "c \<noteq> NUL" and t: "text_at m (p + 1) t" "n \<le> length t" using Suc.prems by auto
  have all: "(\<forall>i<Suc n. m (q + i) = s ! i) \<longleftrightarrow> m q = c \<and> (\<forall>i<n. m (q + 1 + i) = t ! i)" by (simp add: All_less_Suc2 s)
  have "strncmp m p q (Suc n) = (if m q = c then strncmp m (p + 1) (q + 1) n else sint (diff8 c (m q)))"
    using c by (simp add: Let_def)
  then show ?case unfolding all using Suc.IH [OF t, of "q + 1"] by simp
qed simp

text \<open>
  C28. The macro \<^verbatim>\<open>name_match\<close>, evaluated on memory with \<^verbatim>\<open>strlen\<close> and
  \<^verbatim>\<open>strncmp\<close>, gives what the file system's model of it says, when the first
  argument is a zero-terminated string and the second points to at least \<^verbatim>\<open>namelen\<close> bytes.
\<close>

theorem name_match_on_memory:
  assumes "str_at m p fname" and "\<forall>i<namelen. m (q + i) = name ! i" and "namelen \<le> length name"
  shows "(strlen m p = Some namelen \<and> strncmp m p q namelen = 0) \<longleftrightarrow> name_match fname name namelen"
proof (cases "length fname = namelen")
  case True
  have "strncmp m p q namelen = 0 \<longleftrightarrow> (\<forall>i<namelen. m (q + i) = fname ! i)"
    by (rule strncmp_0) (use assms(1) True in \<open>simp_all add: str_at_def\<close>)
  also have "\<dots> \<longleftrightarrow> take namelen fname = take namelen name"
    using assms(2,3) True by (auto simp: list_eq_iff_nth_eq)
  finally show ?thesis using True by (simp add: name_match_def strlen_at [OF assms(1)])
next
  case False
  then show ?thesis by (simp add: name_match_def strlen_at [OF assms(1)])
qed

section \<open>Searching\<close>

text \<open>The first place where a string occurs in another.\<close>

fun first_at :: "string \<Rightarrow> string \<Rightarrow> nat option" where
  "first_at t [] = (if t = [] then Some 0 else None)"
| "first_at t (c # s) = (if take (length t) (c # s) = t then Some 0 else map_option Suc (first_at t s))"

lemma first_at_None: "first_at t s = None \<longleftrightarrow> (\<forall>i\<le>length s. take (length t) (drop i s) \<noteq> t)"
proof (induction s)
  case (Cons c s)
  have "(\<forall>i\<le>length (c # s). take (length t) (drop i (c # s)) \<noteq> t)
     \<longleftrightarrow> take (length t) (c # s) \<noteq> t \<and> (\<forall>i\<le>length s. take (length t) (drop i s) \<noteq> t)"
    by (simp add: less_Suc_eq_le [symmetric] All_less_Suc2)
  then show ?case using Cons by simp
qed auto

lemma first_at_Some:
  "first_at t s = Some i \<longleftrightarrow> i \<le> length s \<and> take (length t) (drop i s) = t \<and> (\<forall>j<i. take (length t) (drop j s) \<noteq> t)"
proof (induction s arbitrary: i)
  case (Cons c s)
  show ?case
  proof (cases i)
    case (Suc k)
    have "(\<forall>j<i. take (length t) (drop j (c # s)) \<noteq> t)
       \<longleftrightarrow> take (length t) (c # s) \<noteq> t \<and> (\<forall>j<k. take (length t) (drop j s) \<noteq> t)" by (simp add: Suc All_less_Suc2)
    then show ?thesis using Cons [of k] Suc by auto
  qed auto
qed auto

lemma first_at_short: "length s < length t \<Longrightarrow> first_at t s = None"
  by (auto simp: first_at_None dest: arg_cong [where f = length])

lemma memcmp_at:
  assumes "text_at m p s" and "text_at m q t" and "length t \<le> length s"
  shows "memcmp m p q (length t) = 0 \<longleftrightarrow> take (length t) s = t"
  using assms by (auto simp: memcmp_0 text_at_iff list_eq_iff_nth_eq)

lemma strstr_loop_first:
  assumes "str_at m p s" and "text_at m q t"
  shows "strstr_loop m p q (int (length s)) (length t) = map_option (\<lambda>i. p + i) (first_at t s)"
  using assms(1)
proof (induction s arbitrary: p)
  case Nil
  show ?case by (cases t) (simp_all add: strstr_loop.simps)
next
  case (Cons c s)
  show ?case
  proof (cases "length t \<le> length (c # s)")
    case True
    have "memcmp m p q (length t) = 0 \<longleftrightarrow> take (length t) (c # s) = t"
      using memcmp_at [OF _ assms(2) True, of p] Cons.prems by (simp add: str_at_def)
    then have "strstr_loop m p q (int (length (c # s))) (length t) =
        (if take (length t) (c # s) = t then Some p else strstr_loop m (p + 1) q (int (length s)) (length t))"
      using True by (subst strstr_loop.simps) simp
    then show ?thesis using Cons by (simp add: option.map_comp comp_def)
  next
    case False
    then show ?thesis using first_at_short [of "c # s" t] by (simp add: strstr_loop.simps)
  qed
qed

text \<open>
  C29. \<^verbatim>\<open>strstr\<close> returns, and finds the first occurrence: with the strings
  \<^verbatim>\<open>s\<close> at \<^verbatim>\<open>p\<close> and \<^verbatim>\<open>t\<close> at \<^verbatim>\<open>q\<close> the
  result is NULL exactly when \<^verbatim>\<open>t\<close> occurs nowhere in \<^verbatim>\<open>s\<close>, and otherwise
  the address of an occurrence before which there is none.
\<close>

theorem strstr_first_occurrence:
  assumes "str_at m p s" and "str_at m q t"
  shows "\<exists>r. strstr m p q = Some r \<and> (r = None \<longleftrightarrow> (\<forall>i\<le>length s. take (length t) (drop i s) \<noteq> t))
    \<and> (\<forall>a. r = Some a \<longleftrightarrow> p \<le> a \<and> a \<le> p + length s \<and> take (length t) (drop (a - p) s) = t
          \<and> (\<forall>j<a - p. take (length t) (drop j s) \<noteq> t))"
proof -
  let ?r = "map_option (\<lambda>i. p + i) (first_at t s)"
  have run: "strstr m p q = Some ?r"
  proof (cases "t = []")
    case True
    then have "first_at t s = Some 0" by (cases s) simp_all
    then show ?thesis using strlen_at [OF assms(2)] True by (simp add: strstr_def)
  next
    case False
    have "text_at m q t" using assms(2) by (simp add: str_at_def)
    from strstr_loop_first [OF assms(1) this] show ?thesis
      using False by (simp add: strstr_def strlen_at [OF assms(1)] strlen_at [OF assms(2)])
  qed
  have none: "?r = None \<longleftrightarrow> (\<forall>i\<le>length s. take (length t) (drop i s) \<noteq> t)" unfolding first_at_None [symmetric] by simp
  have some: "?r = Some a \<longleftrightarrow> p \<le> a \<and> a \<le> p + length s \<and> take (length t) (drop (a - p) s) = t
      \<and> (\<forall>j<a - p. take (length t) (drop j s) \<noteq> t)" for a
  proof -
    have "?r = Some a \<longleftrightarrow> p \<le> a \<and> first_at t s = Some (a - p)" by (cases "first_at t s") auto
    also have "\<dots> \<longleftrightarrow> p \<le> a \<and> a - p \<le> length s \<and> take (length t) (drop (a - p) s) = t
      \<and> (\<forall>j<a - p. take (length t) (drop j s) \<noteq> t)" unfolding first_at_Some ..
    also have "\<dots> \<longleftrightarrow> p \<le> a \<and> a \<le> p + length s \<and> take (length t) (drop (a - p) s) = t
      \<and> (\<forall>j<a - p. take (length t) (drop j s) \<noteq> t)" by (simp add: le_diff_conv add.commute)
    finally show ?thesis .
  qed
  show ?thesis by (intro exI [of _ ?r] conjI allI run none some)
qed

section \<open>Tokenising\<close>

lemma find_in_set_at:
  assumes "str_at m q sep"
  obtains r where "find_in_set m q c = Some r" and "m r = NUL \<longleftrightarrow> c \<notin> set sep"
  using assms
proof (induction sep arbitrary: q thesis)
  case Nil
  then show ?case by (simp add: find_in_set.simps)
next
  case (Cons d sep)
  show ?case
  proof (cases "d = c")
    case True
    then have "find_in_set m q c = Some q" using Cons.prems(2) by (simp add: find_in_set.simps)
    then show ?thesis using Cons.prems True by auto
  next
    case False
    obtain r where "find_in_set m (q + 1) c = Some r" "m r = NUL \<longleftrightarrow> c \<notin> set sep"
      using Cons.IH [of "q + 1"] Cons.prems(2) by (metis str_at_Cons)
    moreover have "find_in_set m q c = find_in_set m (q + 1) c" using Cons.prems(2) False by (subst find_in_set.simps) simp
    ultimately show ?thesis using Cons.prems(1) [of r] False by auto
  qed
qed

lemma strspn_at:
  assumes "str_at m p s" and sep: "str_at m q sep"
  shows "strspn m p q = Some (length (takeWhile (\<lambda>c. c \<in> set sep) s))"
proof -
  have "strspn_loop m p q = Some (p + length (takeWhile (\<lambda>c. c \<in> set sep) s))"
    using assms(1)
  proof (induction s arbitrary: p)
    case Nil
    then show ?case by (simp add: strspn_loop.simps)
  next
    case (Cons c s)
    obtain r where r: "find_in_set m q c = Some r" "m r = NUL \<longleftrightarrow> c \<notin> set sep" by (rule find_in_set_at [OF sep])
    then have "strspn_loop m p q = (if c \<in> set sep then strspn_loop m (p + 1) q else Some p)"
      using Cons.prems by (subst strspn_loop.simps) simp
    then show ?case using Cons by simp
  qed
  then show ?thesis by (simp add: strspn_def)
qed

lemma strpbrk_at:
  assumes "str_at m p s" and sep: "str_at m q sep"
  shows "strpbrk m p q = Some (if set s \<inter> set sep = {} then None else Some (p + length (takeWhile (\<lambda>c. c \<notin> set sep) s)))"
  using assms(1)
proof (induction s arbitrary: p)
  case Nil
  obtain r where r: "find_in_set m q NUL = Some r" "m r = NUL \<longleftrightarrow> NUL \<notin> set sep" by (rule find_in_set_at [OF sep])
  then show ?case using Nil str_at_nonzero [OF sep] by (simp add: strpbrk.simps)
next
  case (Cons c s)
  obtain r where r: "find_in_set m q c = Some r" "m r = NUL \<longleftrightarrow> c \<notin> set sep" by (rule find_in_set_at [OF sep])
  then have "strpbrk m p q = (if c \<in> set sep then Some (Some p) else strpbrk m (p + 1) q)"
    using Cons.prems by (subst strpbrk.simps) simp
  then show ?case using Cons by auto
qed

text \<open>The tokens of a string: its maximal runs of characters that are no separators.\<close>

function tokens :: "(char \<Rightarrow> bool) \<Rightarrow> string \<Rightarrow> string list" where
  "tokens P s = (case dropWhile P s of [] \<Rightarrow> [] | t \<Rightarrow> takeWhile (\<lambda>c. \<not> P c) t # tokens P (tl (dropWhile (\<lambda>c. \<not> P c) t)))"
  by pat_completeness auto

termination tokens
proof (relation "measure (\<lambda>(P, s). length s)")
  fix P :: "char \<Rightarrow> bool" and s c t
  assume "dropWhile P s = c # t"
  then have "length (c # t) \<le> length s" by (metis length_dropWhile_le)
  then show "((P, tl (dropWhile (\<lambda>c. \<not> P c) (c # t))), (P, s)) \<in> measure (\<lambda>(P, s). length s)"
    using length_dropWhile_le [of "\<lambda>c. \<not> P c" "c # t"] by simp
qed simp

declare tokens.simps [simp del]

lemma tokens_Nil [simp]: "tokens P [] = []"
  by (subst tokens.simps) simp

text \<open>The loop of a caller: the string on the first call, NULL from then on, until NULL is returned.\<close>

partial_function (option) strtok_all :: "nat option \<Rightarrow> mem \<Rightarrow> nat option \<Rightarrow> nat \<Rightarrow> (nat list \<times> mem) option" where
  "strtok_all savept m string sepset = do {
     (t, savept, m) \<leftarrow> strtok savept m string sepset;
     case t of
       None \<Rightarrow> Some ([], m)
     | Some a \<Rightarrow> do { (ts, m) \<leftarrow> strtok_all savept m None sepset; Some (a # ts, m) }
   }"

definition disjoint_strings :: "nat \<Rightarrow> string \<Rightarrow> nat \<Rightarrow> string \<Rightarrow> bool" where
  "disjoint_strings p s q t \<longleftrightarrow> {p..p + length s} \<inter> {q..q + length t} = {}"

abbreviation current :: "nat option \<Rightarrow> nat option \<Rightarrow> nat option" where
  "current savept string \<equiv> (case string of None \<Rightarrow> savept | Some s \<Rightarrow> Some s)"

text \<open>One call, on a string that has a token.\<close>

lemma strtok_token:
  assumes cur: "current savept string = Some p" and s: "str_at m p (a @ t @ rest)" and sep: "str_at m q sep"
    and a: "set a \<subseteq> set sep" and t: "t \<noteq> []" "set t \<inter> set sep = {}" and rest: "rest = [] \<or> hd rest \<in> set sep"
  shows "strtok savept m string q = Some (Some (p + length a),
    if rest = [] then None else Some (p + length a + length t + 1),
    if rest = [] then m else m(p + length a + length t := NUL))"
proof -
  let ?p = "p + length a"
  have tw: "takeWhile (\<lambda>c. c \<in> set sep) (a @ t @ rest) = a"
    using a t by (cases t) (auto simp: takeWhile_append2 subset_eq)
  have n: "strspn m p q = Some (length a)" using strspn_at [OF s sep] unfolding tw .
  have s1: "str_at m ?p (t @ rest)" using s by (simp add: str_at_append)
  then have nz: "m ?p \<noteq> NUL" using t by (cases t) auto
  have tw2: "takeWhile (\<lambda>c. c \<notin> set sep) (t @ rest) = t" using t rest by (cases rest) (auto simp: takeWhile_append2 disjoint_iff)
  have "set (t @ rest) \<inter> set sep = {} \<longleftrightarrow> rest = []" using t(2) rest by (cases rest) auto
  then have b: "strpbrk m ?p q = Some (if rest = [] then None else Some (?p + length t))"
    using strpbrk_at [OF s1 sep] unfolding tw2 by simp
  show ?thesis using cur n nz b by (simp add: strtok_def Let_def)
qed

lemma strtok_none:
  assumes cur: "current savept string = Some p" and s: "str_at m p s" and sep: "str_at m q sep" and "set s \<subseteq> set sep"
  shows "strtok savept m string q = Some (None, savept, m)"
proof -
  have tw: "takeWhile (\<lambda>c. c \<in> set sep) s = s" using assms(4) by (simp add: takeWhile_eq_all_conv subset_eq)
  have "strspn m p q = Some (length s)" using strspn_at [OF s sep] unfolding tw .
  then show ?thesis using cur s by (simp add: strtok_def str_at_def)
qed

lemma split_token:
  assumes "dropWhile P s = c # u"
  obtains a t rest where "s = a @ t @ rest" and "\<forall>x \<in> set a. P x" and "t \<noteq> []" and "\<forall>x \<in> set t. \<not> P x"
    and "rest = [] \<or> P (hd rest)" and "tokens P s = t # tokens P (tl rest)"
proof -
  let ?a = "takeWhile P s" and ?t = "takeWhile (\<lambda>c. \<not> P c) (c # u)" and ?r = "dropWhile (\<lambda>c. \<not> P c) (c # u)"
  have "\<not> P c" using hd_dropWhile [of P s] assms by simp
  then have "?t \<noteq> []" by simp
  moreover have "s = ?a @ ?t @ ?r" using takeWhile_dropWhile_id [of P s] unfolding assms takeWhile_dropWhile_id by simp
  moreover have "?r = [] \<or> P (hd ?r)" using hd_dropWhile [of "\<lambda>c. \<not> P c" "c # u"] by blast
  moreover have "tokens P s = ?t # tokens P (tl ?r)" by (subst tokens.simps) (simp only: assms list.case)
  moreover have "\<forall>x \<in> set ?a. P x" "\<forall>x \<in> set ?t. \<not> P x" by (blast dest: set_takeWhileD)+
  ultimately show ?thesis by (intro that [of ?a ?t ?r])
qed

lemma strtok_all_tokens:
  assumes "current savept string = Some p" and "str_at m p s" and "str_at m q sep" and "disjoint_strings p s q sep"
  shows "\<exists>ts m'. strtok_all savept m string q = Some (ts, m') \<and> list_all2 (str_at m') ts (tokens (\<lambda>c. c \<in> set sep) s)
    \<and> (\<forall>x. x \<notin> {p..p + length s} \<longrightarrow> m' x = m x)"
  using assms
proof (induction s arbitrary: savept string p m rule: length_induct)
  case (1 s)
  note cur = 1(2) and s = 1(3) and sep = 1(4) and dis = 1(5)
  let ?P = "\<lambda>c. c \<in> set sep"
  show ?case
  proof (cases "dropWhile ?P s")
    case Nil
    then have "set s \<subseteq> set sep" by auto
    from strtok_none [OF cur s sep this] have "strtok_all savept m string q = Some ([], m)" by (simp add: strtok_all.simps)
    moreover have "tokens ?P s = []" by (subst tokens.simps) (simp only: Nil list.case)
    ultimately show ?thesis by simp
  next
    case (Cons c u)
    then obtain a t rest where sp: "s = a @ t @ rest" "\<forall>x \<in> set a. ?P x" "t \<noteq> []" "\<forall>x \<in> set t. \<not> ?P x" "rest = [] \<or> ?P (hd rest)"
      and tok: "tokens ?P s = t # tokens ?P (tl rest)" by (rule split_token)
    let ?a = "p + length a" let ?r = "?a + length t"
    have call: "strtok savept m string q = Some (Some ?a, if rest = [] then None else Some (?r + 1), if rest = [] then m else m(?r := NUL))"
      using strtok_token [OF cur _ sep, of a t rest] s sp by (simp add: subset_eq disjoint_iff)
    have body: "text_at m ?a t" using s sp(1) by (simp add: str_at_append)
    show ?thesis
    proof (cases rest)
      case Nil
      have "str_at m ?a t" using s sp(1) Nil by (simp add: str_at_append)
      moreover have "strtok_all None m None q = Some ([], m)" by (subst strtok_all.simps) (simp add: strtok_def)
      ultimately have "strtok_all savept m string q = Some ([?a], m) \<and> list_all2 (str_at m) [?a] (tokens ?P s)"
        using call Nil tok by (subst strtok_all.simps) simp
      then show ?thesis by blast
    next
      case r: (Cons d rest')
      let ?m = "m(?r := NUL)"
      have away: "?r \<notin> {q..q + length sep}" using dis sp(1) r by (auto simp: disjoint_strings_def)
      have s': "str_at ?m (?r + 1) rest'" using s sp(1) r str_at_frame [of rest' ?m "?r + 1" m] by (simp add: str_at_append add.assoc)
      have sep': "str_at ?m q sep" using sep str_at_frame [of sep ?m q m] away by auto
      have "disjoint_strings (?r + 1) rest' q sep" using dis sp(1) r by (auto simp: disjoint_strings_def disjoint_iff)
      then obtain ts m' where ih: "strtok_all (Some (?r + 1)) ?m None q = Some (ts, m')" "list_all2 (str_at m') ts (tokens ?P rest')"
        "\<forall>x. x \<notin> {?r + 1..?r + 1 + length rest'} \<longrightarrow> m' x = ?m x"
        using 1(1) [rule_format, OF _ _ s' sep', of "Some (?r + 1)" None] sp(1) r by auto
      have "text_at m' ?a t" using body text_at_frame [of t m' ?a m] ih(3) by simp
      then have "str_at m' ?a t" using ih(3) by (simp add: str_at_def)
      then have "strtok_all savept m string q = Some (?a # ts, m') \<and> list_all2 (str_at m') (?a # ts) (tokens ?P s)"
        using call r tok ih by (subst strtok_all.simps) simp
      moreover have "m' x = m x" if "x \<notin> {p..p + length s}" for x using ih(3) that sp(1) r by auto
      ultimately show ?thesis by blast
    qed
  qed
qed

text \<open>
  C30. Calling \<^verbatim>\<open>strtok\<close> with a string and then with NULL until it returns NULL
  ends, and the pointers it returns are those of the string's tokens: at each of them there is,
  in the final memory, one of the maximal runs of non-separators, in order.  Only bytes of the
  string are changed.
\<close>

theorem strtok_yields_tokens:
  assumes "str_at m p s" and "str_at m q sep" and "disjoint_strings p s q sep"
  shows "\<exists>ts m'. strtok_all savept m (Some p) q = Some (ts, m') \<and> list_all2 (str_at m') ts (tokens (\<lambda>c. c \<in> set sep) s)
    \<and> (\<forall>x. x \<notin> {p..p + length s} \<longrightarrow> m' x = m x)"
  by (rule strtok_all_tokens [OF _ assms]) simp

section \<open>Examples\<close>

definition image :: "string \<Rightarrow> mem" where
  "image s = (\<lambda>a. if a < length s then s ! a else NUL)"

definition example_mem :: mem where
  "example_mem = image (''ls /dev'' @ [NUL] @ ''/ '' @ [NUL] @ ''dev'' @ [NUL])"

lemma example_strings:
  "str_at example_mem 0 ''ls /dev''" "str_at example_mem 8 ''/ ''" "str_at example_mem 11 ''dev''"
  by (simp_all add: example_mem_def image_def)

theorem name_match_on_memory_witness:
  "(strlen example_mem 11 = Some 3 \<and> strncmp example_mem 11 4 3 = 0) \<longleftrightarrow> name_match ''dev'' ''dev'' 3"
  by (rule name_match_on_memory [OF example_strings(3)]) (simp_all add: example_mem_def image_def All_less_Suc eval_nat_numeral)

theorem strstr_first_occurrence_witness:
  "strstr example_mem 0 11 = Some (Some 4)"
proof -
  obtain r where r: "strstr example_mem 0 11 = Some r" and s: "\<forall>a. r = Some a \<longleftrightarrow> 0 \<le> a \<and> a \<le> 0 + length ''ls /dev''
      \<and> take (length ''dev'') (drop (a - 0) ''ls /dev'') = ''dev'' \<and> (\<forall>j<a - 0. take (length ''dev'') (drop j ''ls /dev'') \<noteq> ''dev'')"
    using strstr_first_occurrence [OF example_strings(1,3)] by (elim exE conjE)
  have "r = Some 4" by (rule iffD2 [OF spec [OF s, of 4]]) code_simp
  then show ?thesis using r by simp
qed

theorem strtok_yields_tokens_witness:
  "\<exists>ts m'. strtok_all None example_mem (Some 0) 8 = Some (ts, m') \<and> list_all2 (str_at m') ts [''ls'', ''dev'']"
proof -
  have "tokens (\<lambda>c. c \<in> set ''/ '') ''ls /dev'' = [''ls'', ''dev'']" by (simp add: tokens.simps)
  moreover have "disjoint_strings 0 ''ls /dev'' 8 ''/ ''" by (simp add: disjoint_strings_def)
  ultimately show ?thesis using strtok_yields_tokens [OF example_strings(1,2), of None] by metis
qed

end
