(* ===== verification/Page.thy ===== *)
theory Page
imports KPrelude
begin

text \<open>
  The page allocator \<^verbatim>\<open>mm/page.c\<close>: a buddy system.  A group of pages has a free
  list for every order and, for every order above 0, a bitmap with one bit for each pair of
  buddies of the order below.  Addresses are natural numbers; a free block is named by its
  address, and unlinking an address that is in no list is undefined (\<^const>\<open>None\<close>).
  The contents of memory are not part of this theory: the pattern that fills a block handed out
  or taken back is modelled where pages have contents, in theory \<^verbatim>\<open>Pframe\<close>.  The bitmaps
  are functions on all indices; in the code they lie next to each other at the end of the range,
  and an index past the end of one would be a bit of another.  Lemma \<^verbatim>\<open>index_in_bitmap\<close> of
  theory \<^verbatim>\<open>PageProps\<close> shows that this does not happen for groups of a whole number of the
  largest blocks.  The hooks of the debugger are left out.
\<close>

abbreviation (input) PAGE_BYTES :: nat where "PAGE_BYTES \<equiv> 4096"
abbreviation (input) PAGE_NSIZES :: nat where "PAGE_NSIZES \<equiv> 8"
abbreviation (input) SIZEOF_PAGEGROUP :: nat where "SIZEOF_PAGEGROUP \<equiv> 112"

record pagegroup =
  pg_freelist :: "nat \<Rightarrow> nat list"
  pg_map :: "nat \<Rightarrow> nat \<Rightarrow> bool"
  pg_baseaddr :: nat
  pg_endaddr :: nat

record pages =
  pagegroup_list :: "pagegroup list"
  page_freecount :: "32 word"

text \<open>The bytes of a block of an order.\<close>

definition block_size :: "nat \<Rightarrow> nat" where
  "block_size order = 2 ^ order * PAGE_BYTES"

definition set_list :: "nat \<Rightarrow> nat list \<Rightarrow> pagegroup \<Rightarrow> pagegroup" where
  "set_list order as g = g\<lparr>pg_freelist := (pg_freelist g)(order := as)\<rparr>"

definition insert_free :: "nat \<Rightarrow> nat \<Rightarrow> pagegroup \<Rightarrow> pagegroup" where
  "insert_free order a g = set_list order (a # pg_freelist g order) g"

definition bit_flip :: "nat \<Rightarrow> nat \<Rightarrow> pagegroup \<Rightarrow> pagegroup" where
  "bit_flip order i g = g\<lparr>pg_map := (pg_map g)(order := (pg_map g order)(i := \<not> pg_map g order i))\<rparr>"

definition bit_check :: "nat \<Rightarrow> nat \<Rightarrow> pagegroup \<Rightarrow> bool" where
  "bit_check order i g = pg_map g order i"

text \<open>\<^verbatim>\<open>list_remove\<close> takes a block out of the list it is in.\<close>

definition unlink_free :: "nat \<Rightarrow> pagegroup \<Rightarrow> pagegroup option" where
  "unlink_free a g =
     (case find (\<lambda>order. a \<in> set (pg_freelist g order)) [0..<PAGE_NSIZES] of
        None \<Rightarrow> None
      | Some order \<Rightarrow> Some (set_list order (remove1 a (pg_freelist g order)) g))"

section \<open>Creating a group\<close>

text \<open>
  The group structure and the bitmaps are cut off the end of the range; what is left is
  divided into the largest blocks, except for a remainder of at most one block of every
  smaller order.  A range too small for the bitmaps makes the end run below the start, and
  the lists would be written to memory outside it.
\<close>

definition round8 :: "nat \<Rightarrow> nat" where
  "round8 count = (if count = 0 then 0 else (count - 1) div 8 * 8 + 8)"

definition bitmap_bytes :: "nat \<Rightarrow> nat" where
  "bitmap_bytes npages = (\<Sum>order\<leftarrow>[1..<PAGE_NSIZES]. round8 (npages div 2 ^ order) div 8)"

fun small_blocks :: "nat list \<Rightarrow> nat \<Rightarrow> nat \<Rightarrow> (nat \<Rightarrow> nat list) \<Rightarrow> nat \<times> (nat \<Rightarrow> nat list)" where
  "small_blocks [] npages e fl = (e, fl)"
| "small_blocks (order # rest) npages e fl =
     (if npages div 2 ^ order mod 2 = 1
      then let e = e - block_size order in small_blocks rest npages e (fl(order := [e]))
      else small_blocks rest npages e (fl(order := [])))"

function big_blocks :: "nat \<Rightarrow> nat \<Rightarrow> nat list \<Rightarrow> nat list" where
  "big_blocks current e as = (if current < e then big_blocks (current + block_size (PAGE_NSIZES - 1)) e (current # as) else as)"
  by pat_completeness auto

termination big_blocks
  by (relation "measure (\<lambda>(current, e, as). e - current)") (auto simp: block_size_def)

declare big_blocks.simps [simp del]

definition pagegroup_create :: "nat \<Rightarrow> nat \<Rightarrow> pagegroup option" where
  "pagegroup_create start e = do {
     let npages = (e - start) div PAGE_BYTES;
     KASSERT (SIZEOF_PAGEGROUP + bitmap_bytes npages \<le> e);
     let e = e - SIZEOF_PAGEGROUP - bitmap_bytes npages;
     let e = e - e mod PAGE_BYTES;
     KASSERT (start \<le> e);
     let npages = (e - start) div PAGE_BYTES;
     let (e', fl) = small_blocks [0..<PAGE_NSIZES - 1] npages e (\<lambda>_. []);
     KASSERT ((e' - start) mod 2 ^ (PAGE_NSIZES - 1) = 0);
     Some \<lparr>pg_freelist = fl(PAGE_NSIZES - 1 := big_blocks start e' []), pg_map = (\<lambda>_ _. False),
       pg_baseaddr = start, pg_endaddr = e\<rparr>
   }"

definition pagegroup_from_address :: "nat \<Rightarrow> pages \<Rightarrow> nat option" where
  "pagegroup_from_address addr s =
     find (\<lambda>i. let g = pagegroup_list s ! i in pg_baseaddr g \<le> addr \<and> addr < pg_endaddr g) [0..<length (pagegroup_list s)]"

definition page_init :: pages where
  "page_init = \<lparr>pagegroup_list = [], page_freecount = 0\<rparr>"

definition page_add_range :: "nat \<Rightarrow> nat \<Rightarrow> pages \<Rightarrow> pages option" where
  "page_add_range start e s = do {
     let start = start - start mod PAGE_BYTES;
     let e = e - e mod PAGE_BYTES;
     g \<leftarrow> pagegroup_create start e;
     Some (if pg_baseaddr g < pg_endaddr g
       then s\<lparr>pagegroup_list := pagegroup_list s @ [g],
              page_freecount := page_freecount s + of_nat ((pg_endaddr g - pg_baseaddr g) div PAGE_BYTES)\<rparr>
       else s)
   }"

definition calculate_index :: "pagegroup \<Rightarrow> nat \<Rightarrow> nat \<Rightarrow> nat option" where
  "calculate_index g order addr = do {
     KASSERT (addr mod PAGE_BYTES = 0);
     KASSERT (order < PAGE_NSIZES);
     KASSERT (pg_baseaddr g \<le> addr \<and> addr < pg_endaddr g);
     let offset = addr - pg_baseaddr g;
     KASSERT (offset mod 2 ^ order = 0);
     Some (offset div 2 ^ order div PAGE_BYTES)
   }"

section \<open>Allocation\<close>

text \<open>Taking the first block off a free list, with the bit of its pair.\<close>

definition take_free :: "nat \<Rightarrow> pagegroup \<Rightarrow> (nat \<times> pagegroup) option" where
  "take_free order g =
     (case pg_freelist g order of
        [] \<Rightarrow> None
      | target # rest \<Rightarrow> do {
          let g = set_list order rest g;
          g \<leftarrow> (if order < PAGE_NSIZES - 1 then do {
                  i \<leftarrow> calculate_index g (order + 1) target;
                  Some (bit_flip (order + 1) i g)
                } else Some g);
          Some (target, g)
        })"

definition page_split_block :: "pagegroup \<Rightarrow> nat \<Rightarrow> pagegroup option" where
  "page_split_block g order = do {
     KASSERT (0 < order);
     KASSERT (order < PAGE_NSIZES);
     KASSERT (pg_freelist g order \<noteq> []);
     (target, g) \<leftarrow> take_free order g;
     i \<leftarrow> calculate_index g order target;
     KASSERT (\<not> bit_check order i g);
     let buddy = target + block_size (order - 1);
     Some (insert_free (order - 1) buddy (insert_free (order - 1) target g))
   }"

fun split_down :: "pagegroup \<Rightarrow> nat \<Rightarrow> nat \<Rightarrow> pagegroup option" where
  "split_down g order 0 = Some g"
| "split_down g order (Suc n) = do { g \<leftarrow> page_split_block g (order + Suc n); split_down g order n }"

text \<open>The first group, by position, that has a free block of an order.\<close>

definition group_with :: "nat \<Rightarrow> pages \<Rightarrow> nat option" where
  "group_with order s = find (\<lambda>i. pg_freelist (pagegroup_list s ! i) order \<noteq> []) [0..<length (pagegroup_list s)]"

definition set_group :: "nat \<Rightarrow> pagegroup \<Rightarrow> pages \<Rightarrow> pages" where
  "set_group i g s = s\<lparr>pagegroup_list := (pagegroup_list s)[i := g]\<rparr>"

fun split_search :: "nat \<Rightarrow> nat list \<Rightarrow> pages \<Rightarrow> (nat option \<times> pages) option" where
  "split_search order [] s = Some (None, s)"
| "split_search order (norder # rest) s =
     (case group_with norder s of
        None \<Rightarrow> split_search order rest s
      | Some i \<Rightarrow> do {
          g \<leftarrow> split_down (pagegroup_list s ! i) order (norder - order);
          KASSERT (pg_freelist g order \<noteq> []);
          Some (Some i, set_group i g s)
        })"

section \<open>Freeing\<close>

definition buddy_of :: "pagegroup \<Rightarrow> nat \<Rightarrow> nat \<Rightarrow> nat" where
  "buddy_of g order addr =
     (if (addr - pg_baseaddr g) div PAGE_BYTES div 2 ^ order mod 2 = 1 then addr - block_size order else addr + block_size order)"

function page_join :: "pagegroup \<Rightarrow> nat \<Rightarrow> nat \<Rightarrow> pagegroup option" where
  "page_join g order addr =
     (if order < PAGE_NSIZES - 1 then do {
        i \<leftarrow> calculate_index g (order + 1) addr;
        if bit_check (order + 1) i g then Some g
        else do {
          KASSERT ((addr - pg_baseaddr g) mod 2 ^ order = 0);
          let buddy = buddy_of g order addr;
          g \<leftarrow> unlink_free addr g;
          g \<leftarrow> unlink_free buddy g;
          let addr = min addr buddy;
          let g = insert_free (order + 1) addr g;
          g \<leftarrow> (if order + 1 < PAGE_NSIZES - 1 then do {
                  i \<leftarrow> calculate_index g (order + 2) addr;
                  Some (bit_flip (order + 2) i g)
                } else Some g);
          page_join g (order + 1) addr
        }
      } else Some g)"
  by pat_completeness auto

termination page_join
  by (relation "measure (\<lambda>(g, order, addr). PAGE_NSIZES - order)") auto

declare page_join.simps [simp del]

definition page_free_order :: "nat \<Rightarrow> nat \<Rightarrow> pages \<Rightarrow> pages option" where
  "page_free_order addr order s =
     (case pagegroup_from_address addr s of
        None \<Rightarrow> Some s
      | Some i \<Rightarrow> do {
          let g = insert_free order addr (pagegroup_list s ! i);
          g \<leftarrow> (if order < PAGE_NSIZES - 1 then do {
                  j \<leftarrow> calculate_index g (order + 1) addr;
                  page_join (bit_flip (order + 1) j g) order addr
                } else Some g);
          Some (set_group i g (s\<lparr>page_freecount := page_freecount s + 2 ^ order\<rparr>))
        })"

text \<open>The order of a number of pages, which is compared as a signed integer; too many are a panic.\<close>

definition order_of :: "32 word \<Rightarrow> nat option" where
  "order_of npages = find (\<lambda>order. sint npages \<le> 2 ^ order) [0..<PAGE_NSIZES]"

definition page_free_n :: "nat \<Rightarrow> 32 word \<Rightarrow> pages \<Rightarrow> pages option" where
  "page_free_n start npages s = do { order \<leftarrow> order_of npages; page_free_order start order s }"

definition page_free :: "nat \<Rightarrow> pages \<Rightarrow> pages option" where
  "page_free addr s = page_free_order addr 0 s"

text \<open>
  When nothing is found the slab allocator is asked to give back its unused slabs; the blocks it
  then frees are the argument \<^verbatim>\<open>slabs\<close>.  The search is not repeated.
\<close>

fun free_blocks :: "(nat \<times> 32 word) list \<Rightarrow> pages \<Rightarrow> pages option" where
  "free_blocks [] s = Some s"
| "free_blocks ((start, npages) # rest) s = do { s \<leftarrow> page_free_n start npages s; free_blocks rest s }"

definition page_split :: "(nat \<times> 32 word) list \<Rightarrow> nat \<Rightarrow> pages \<Rightarrow> (nat option \<times> pages) option" where
  "page_split slabs order s = do {
     (r, s) \<leftarrow> split_search order [order + 1..<PAGE_NSIZES] s;
     case r of Some i \<Rightarrow> Some (Some i, s) | None \<Rightarrow> do { s \<leftarrow> free_blocks slabs s; Some (None, s) }
   }"

definition page_alloc_order :: "(nat \<times> 32 word) list \<Rightarrow> nat \<Rightarrow> pages \<Rightarrow> (nat option \<times> pages) option" where
  "page_alloc_order slabs order s = do {
     (r, s) \<leftarrow> (case group_with order s of Some i \<Rightarrow> Some (Some i, s) | None \<Rightarrow> page_split slabs order s);
     case r of
       None \<Rightarrow> Some (None, s)
     | Some i \<Rightarrow> do {
         (addr, g) \<leftarrow> take_free order (pagegroup_list s ! i);
         Some (Some addr, set_group i g (s\<lparr>page_freecount := page_freecount s - 2 ^ order\<rparr>))
       }
   }"

definition page_alloc :: "(nat \<times> 32 word) list \<Rightarrow> pages \<Rightarrow> (nat option \<times> pages) option" where
  "page_alloc slabs s = page_alloc_order slabs 0 s"

definition page_alloc_n :: "(nat \<times> 32 word) list \<Rightarrow> 32 word \<Rightarrow> pages \<Rightarrow> (nat option \<times> pages) option" where
  "page_alloc_n slabs npages s = do { order \<leftarrow> order_of npages; page_alloc_order slabs order s }"

definition page_free_count :: "pages \<Rightarrow> 32 word" where
  "page_free_count s = page_freecount s"

end
