(* ===== verification/PageInv.thy ===== *)
theory PageInv
imports Page
begin

text \<open>
  The page allocator is correct.  A ghost set \<^verbatim>\<open>A\<close> holds the blocks that are
  allocated, as pairs of order and address.  The invariant says that the free blocks and the
  allocated ones partition the pages of the group, and that every bit is the exclusive or of
  its two buddies being free.
\<close>

lemmas size_numerals = block_size_def

lemma block_size_pos [simp]: "0 < block_size order"
  by (simp add: block_size_def)

lemma block_size_neq_0 [simp]: "block_size order \<noteq> 0"
  by (simp add: block_size_def)

lemma block_size_Suc: "block_size (Suc order) = 2 * block_size order"
  by (simp add: block_size_def)

lemma block_size_dvd: "o1 \<le> o2 \<Longrightarrow> block_size o1 dvd block_size o2"
  by (simp add: block_size_def le_imp_power_dvd mult_dvd_mono)

type_synonym block = "nat \<times> nat"

definition blk :: "block \<Rightarrow> nat set" where
  "blk b = {snd b..<snd b + block_size (fst b)}"

definition free_set :: "pagegroup \<Rightarrow> block set" where
  "free_set g = {(order, a). order < PAGE_NSIZES \<and> a \<in> set (pg_freelist g order)}"

definition fits :: "pagegroup \<Rightarrow> block \<Rightarrow> bool" where
  "fits g b \<longleftrightarrow> fst b < PAGE_NSIZES \<and> pg_baseaddr g \<le> snd b \<and> block_size (fst b) dvd (snd b - pg_baseaddr g)
     \<and> snd b + block_size (fst b) \<le> pg_endaddr g"

definition range_ok :: "pagegroup \<Rightarrow> bool" where
  "range_ok g \<longleftrightarrow> PAGE_BYTES dvd pg_baseaddr g \<and> pg_baseaddr g \<le> pg_endaddr g
     \<and> block_size (PAGE_NSIZES - 1) dvd (pg_endaddr g - pg_baseaddr g)"

definition parts :: "pagegroup \<Rightarrow> block set \<Rightarrow> bool" where
  "parts g B \<longleftrightarrow> (\<forall>b \<in> B. fits g b) \<and> (\<forall>b \<in> B. \<forall>c \<in> B. b \<noteq> c \<longrightarrow> blk b \<inter> blk c = {})
     \<and> \<Union> (blk ` B) = {pg_baseaddr g..<pg_endaddr g}"

definition bits_ok :: "pagegroup \<Rightarrow> bool" where
  "bits_ok g \<longleftrightarrow> (\<forall>order a. order < PAGE_NSIZES - 1 \<longrightarrow> fits g (order + 1, a) \<longrightarrow>
     pg_map g (order + 1) ((a - pg_baseaddr g) div block_size (order + 1))
       = ((a \<in> set (pg_freelist g order)) \<noteq> (a + block_size order \<in> set (pg_freelist g order))))"

definition core :: "block set \<Rightarrow> pagegroup \<Rightarrow> bool" where
  "core A g \<longleftrightarrow> range_ok g \<and> (\<forall>order < PAGE_NSIZES. distinct (pg_freelist g order)) \<and> parts g (free_set g \<union> A)
     \<and> free_set g \<inter> A = {} \<and> bits_ok g"

lemma fitsD:
  assumes "fits g (order, a)"
  shows "order < PAGE_NSIZES" "pg_baseaddr g \<le> a" "block_size order dvd (a - pg_baseaddr g)" "a + block_size order \<le> pg_endaddr g"
    "a < pg_endaddr g"
proof -
  show "order < PAGE_NSIZES" "pg_baseaddr g \<le> a" "block_size order dvd (a - pg_baseaddr g)" and le: "a + block_size order \<le> pg_endaddr g"
    using assms by (simp_all add: fits_def)
  from le block_size_pos [of order] show "a < pg_endaddr g" by linarith
qed

lemma coreD:
  assumes "core A g"
  shows "range_ok g" "\<And>order. order < PAGE_NSIZES \<Longrightarrow> distinct (pg_freelist g order)" "parts g (free_set g \<union> A)"
    "free_set g \<inter> A = {}" "bits_ok g"
  using assms by (auto simp: core_def)

lemma free_set_iff: "(order, a) \<in> free_set g \<longleftrightarrow> order < PAGE_NSIZES \<and> a \<in> set (pg_freelist g order)"
  by (simp add: free_set_def)

lemma parts_fits: "parts g B \<Longrightarrow> b \<in> B \<Longrightarrow> fits g b"
  by (simp add: parts_def)

lemma parts_disjoint: "parts g B \<Longrightarrow> b \<in> B \<Longrightarrow> c \<in> B \<Longrightarrow> blk b \<inter> blk c \<noteq> {} \<Longrightarrow> b = c"
  unfolding parts_def by blast

lemma blk_start [simp]: "a \<in> blk (order, a)"
  by (simp add: blk_def)

lemma blk_nonempty [simp]: "blk b \<noteq> {}"
  using blk_start [of "snd b" "fst b"] by auto

section \<open>Pairs of buddies\<close>

text \<open>The address of the pair a block belongs to.\<close>

definition pair_of :: "pagegroup \<Rightarrow> nat \<Rightarrow> nat \<Rightarrow> nat" where
  "pair_of g order a = pg_baseaddr g + (a - pg_baseaddr g) div block_size (order + 1) * block_size (order + 1)"

lemma pair_fits:
  assumes r: "range_ok g" and f: "fits g (order, a)" and lt: "order < PAGE_NSIZES - 1"
  shows "fits g (order + 1, pair_of g order a)"
proof -
  let ?s = "block_size (order + 1)" and ?x = "a - pg_baseaddr g"
  have "?s dvd block_size (PAGE_NSIZES - 1)" using lt by (intro block_size_dvd) simp
  then have d: "?s dvd (pg_endaddr g - pg_baseaddr g)" using r by (auto simp: range_ok_def)
  have x: "?x < pg_endaddr g - pg_baseaddr g" using fitsD(2,5) [OF f] by simp
  obtain n where n: "pg_endaddr g - pg_baseaddr g = ?s * n" using d by (rule dvdE)
  have "?x div ?s < n" using x n by (simp add: less_mult_imp_div_less mult.commute)
  then have "(?x div ?s + 1) * ?s \<le> n * ?s" by (intro mult_right_mono) simp_all
  then have "?x div ?s * ?s + ?s \<le> pg_endaddr g - pg_baseaddr g" using n by (simp add: algebra_simps)
  moreover have "pg_baseaddr g \<le> pg_endaddr g" using r by (simp add: range_ok_def)
  ultimately have "pg_baseaddr g + ?x div ?s * ?s + ?s \<le> pg_endaddr g" by linarith
  then show ?thesis using lt by (simp add: fits_def pair_of_def)
qed

lemma pair_cases:
  assumes "fits g (order, a)"
  shows "a = pair_of g order a \<or> a = pair_of g order a + block_size order"
proof -
  obtain n where n: "a - pg_baseaddr g = block_size order * n" using fitsD(3) [OF assms] by (rule dvdE)
  have a: "a = pg_baseaddr g + block_size order * n" using n fitsD(2) [OF assms] by simp
  have "block_size order * n div block_size (order + 1) = n div 2"
    using div_mult2_eq [of "block_size order * n" "block_size order" 2] by (simp add: block_size_Suc mult.commute)
  then have par: "pair_of g order a = pg_baseaddr g + block_size order * (n div 2 * 2)"
    unfolding pair_of_def n by (simp add: block_size_Suc)
  have "n = n div 2 * 2 \<or> n = n div 2 * 2 + 1" by presburger
  then show ?thesis
  proof
    assume "n = n div 2 * 2"
    then show ?thesis using a par by simp
  next
    assume "n = n div 2 * 2 + 1"
    then have "block_size order * n = block_size order * (n div 2 * 2) + block_size order" by (metis distrib_left mult.right_neutral)
    then show ?thesis using a par by simp
  qed
qed

lemma fits_pair:
  assumes "fits g (order + 1, a)"
  shows "fits g (order, a)" "fits g (order, a + block_size order)" "pair_of g order a = a" "pair_of g order (a + block_size order) = a"
proof -
  note f = fitsD [OF assms]
  obtain n where n: "a - pg_baseaddr g = block_size (order + 1) * n" using f(3) by (rule dvdE)
  then have a: "a = pg_baseaddr g + 2 * block_size order * n" using f(2) by (simp add: block_size_Suc)
  have "block_size order dvd (a - pg_baseaddr g)" "block_size order dvd (a + block_size order - pg_baseaddr g)"
    unfolding a by (simp_all add: add.assoc dvd_add)
  then show "fits g (order, a)" "fits g (order, a + block_size order)"
    using f(1,2,4) by (simp_all add: fits_def block_size_Suc)
  show "pair_of g order a = a" unfolding a pair_of_def by (simp add: block_size_Suc)
  have "(2 * block_size order * n + block_size order) div (2 * block_size order) = n"
    using div_mult_self3 [of "2 * block_size order" n "block_size order"] by (simp add: mult.commute add.commute)
  then show "pair_of g order (a + block_size order) = a" unfolding a pair_of_def by (simp add: block_size_Suc add.assoc)
qed

lemma pair_index:
  assumes "fits g (order + 1, b)"
  shows "(b - pg_baseaddr g) div block_size (order + 1) = (a - pg_baseaddr g) div block_size (order + 1) \<longleftrightarrow> b = pair_of g order a"
proof
  assume "(b - pg_baseaddr g) div block_size (order + 1) = (a - pg_baseaddr g) div block_size (order + 1)"
  then have "pair_of g order a = pair_of g order b" by (simp add: pair_of_def)
  then show "b = pair_of g order a" using fits_pair(3) [OF assms] by simp
next
  assume "b = pair_of g order a"
  then show "(b - pg_baseaddr g) div block_size (order + 1) = (a - pg_baseaddr g) div block_size (order + 1)"
    by (simp add: pair_of_def)
qed

lemma calculate_index_fits:
  assumes r: "range_ok g" and f: "fits g (order, a)" and lt: "p < PAGE_NSIZES" and p: "p \<le> order + 1"
  shows "calculate_index g p a = Some ((a - pg_baseaddr g) div block_size p)"
proof -
  have "2 ^ p dvd block_size order"
  proof -
    have "(2::nat) ^ p dvd 2 ^ (order + 12)" using p by (intro le_imp_power_dvd) simp
    then show ?thesis by (simp add: block_size_def power_add)
  qed
  then have "2 ^ p dvd (a - pg_baseaddr g)" using fitsD(3) [OF f] by (rule dvd_trans)
  moreover have "PAGE_BYTES dvd a"
  proof -
    have "PAGE_BYTES dvd block_size order" by (simp add: block_size_def)
    then have "PAGE_BYTES dvd (a - pg_baseaddr g)" using fitsD(3) [OF f] by (rule dvd_trans)
    then show ?thesis using r fitsD(2) [OF f] by (auto simp: range_ok_def dest: dvd_diffD)
  qed
  ultimately show ?thesis using lt fitsD(2,5) [OF f] by (simp add: calculate_index_def block_size_def div_mult2_eq dvd_eq_mod_eq_0)
qed

section \<open>Moving blocks\<close>

lemma blk_halves: "blk (order + 1, a) = blk (order, a) \<union> blk (order, a + block_size order)"
  by (auto simp: blk_def block_size_Suc)

lemma blk_halves_disjoint: "blk (order, a) \<inter> blk (order, a + block_size order) = {}"
  by (auto simp: blk_def)

lemma parts_halve:
  assumes p: "parts g B" and b: "(order + 1, a) \<in> B"
  shows "parts g (B - {(order + 1, a)} \<union> {(order, a), (order, a + block_size order)})" (is "parts g ?B")
proof -
  note f = fits_pair(1,2) [OF parts_fits [OF p b]]
  have sub: "blk (order, a) \<subseteq> blk (order + 1, a)" "blk (order, a + block_size order) \<subseteq> blk (order + 1, a)"
    unfolding blk_halves by blast+
  have away: "blk c \<inter> blk (order + 1, a) = {}" if "c \<in> B" "c \<noteq> (order + 1, a)" for c
    using parts_disjoint [OF p that(1) b] that(2) by blast
  have "\<Union> (blk ` B) = \<Union> (blk ` (B - {(order + 1, a)})) \<union> blk (order + 1, a)" using b by blast
  then have "\<Union> (blk ` ?B) = \<Union> (blk ` B)" unfolding blk_halves by auto
  moreover have "blk c \<inter> blk d = {}" if "c \<in> ?B" "d \<in> ?B" "c \<noteq> d" for c d
  proof -
    have "c \<in> B - {(order + 1, a)} \<or> c = (order, a) \<or> c = (order, a + block_size order)"
      "d \<in> B - {(order + 1, a)} \<or> d = (order, a) \<or> d = (order, a + block_size order)" using that by blast+
    then show ?thesis using away [of c] away [of d] sub blk_halves_disjoint [of order a] that(3) parts_disjoint [OF p, of c d] by blast
  qed
  ultimately show ?thesis using p f unfolding parts_def by auto
qed

lemma parts_merge:
  assumes p: "parts g B" and b: "(order, a) \<in> B" "(order, a + block_size order) \<in> B" and f: "fits g (order + 1, a)"
  shows "parts g (B - {(order, a), (order, a + block_size order)} \<union> {(order + 1, a)})" (is "parts g ?B")
proof -
  let ?l = "(order, a)" and ?r = "(order, a + block_size order)"
  have "\<Union> (blk ` B) = \<Union> (blk ` (B - {?l, ?r})) \<union> (blk ?l \<union> blk ?r)" using b by blast
  then have "\<Union> (blk ` ?B) = \<Union> (blk ` B)" by (simp add: blk_halves [symmetric] Un_commute)
  moreover have away: "blk c \<inter> blk (order + 1, a) = {}" if "c \<in> B - {?l, ?r}" for c
    using parts_disjoint [OF p _ b(1), of c] parts_disjoint [OF p _ b(2), of c] that unfolding blk_halves by blast
  moreover have "blk c \<inter> blk d = {}" if "c \<in> ?B" "d \<in> ?B" "c \<noteq> d" for c d
  proof -
    have "c \<in> B - {?l, ?r} \<or> c = (order + 1, a)" "d \<in> B - {?l, ?r} \<or> d = (order + 1, a)" using that by blast+
    then show ?thesis using away [of c] away [of d] that(3) parts_disjoint [OF p, of c d] by blast
  qed
  ultimately show ?thesis using p f unfolding parts_def by auto
qed

lemma core_halve:
  assumes c: "core A g" and a: "(order + 1, a) \<in> A"
  shows "core (A - {(order + 1, a)} \<union> {(order, a), (order, a + block_size order)}) g"
proof -
  let ?A = "A - {(order + 1, a)} \<union> {(order, a), (order, a + block_size order)}"
  have nf: "(order + 1, a) \<notin> free_set g" using coreD(4) [OF c] a by blast
  have away: "blk b \<inter> blk (order + 1, a) = {}" if "b \<in> free_set g" for b
    using parts_disjoint [OF coreD(3) [OF c], of b "(order + 1, a)"] that a nf by blast
  have "(order, a) \<notin> free_set g" "(order, a + block_size order) \<notin> free_set g"
    using away blk_start [of a order] blk_start [of "a + block_size order" order] unfolding blk_halves by blast+
  then have "free_set g \<inter> ?A = {}" using coreD(4) [OF c] by blast
  moreover have "free_set g \<union> A - {(order + 1, a)} \<union> {(order, a), (order, a + block_size order)} = free_set g \<union> ?A" using nf by blast
  moreover from parts_halve [OF coreD(3) [OF c], of order a] a
  have "parts g (free_set g \<union> A - {(order + 1, a)} \<union> {(order, a), (order, a + block_size order)})" by blast
  ultimately show ?thesis using c unfolding core_def by metis
qed

lemma core_merge:
  assumes c: "core A g" and a: "(order, a) \<in> A" "(order, a + block_size order) \<in> A" and f: "fits g (order + 1, a)"
  shows "core (A - {(order, a), (order, a + block_size order)} \<union> {(order + 1, a)}) g"
proof -
  let ?L = "{(order, a), (order, a + block_size order)}"
  let ?A = "A - ?L \<union> {(order + 1, a)}"
  have nf: "free_set g \<inter> ?L = {}" using coreD(4) [OF c] a by blast
  have "(order + 1, a) \<notin> free_set g"
  proof
    assume "(order + 1, a) \<in> free_set g"
    then have "(order + 1, a) = (order, a)"
      using parts_disjoint [OF coreD(3) [OF c], of "(order + 1, a)" "(order, a)"] a(1) blk_start [of a order] blk_start [of a "order + 1"] by blast
    then show False by simp
  qed
  then have "free_set g \<inter> ?A = {}" using coreD(4) [OF c] by blast
  moreover have "free_set g \<union> A - ?L \<union> {(order + 1, a)} = free_set g \<union> ?A" using nf by blast
  moreover from parts_merge [OF coreD(3) [OF c] _ _ f] a have "parts g (free_set g \<union> A - ?L \<union> {(order + 1, a)})" by blast
  ultimately show ?thesis using c unfolding core_def by metis
qed

section \<open>Changing the free lists\<close>

text \<open>The number of free pages of a group.\<close>

definition fpages :: "pagegroup \<Rightarrow> nat" where
  "fpages g = (\<Sum>order<PAGE_NSIZES. length (pg_freelist g order) * 2 ^ order)"

definition same_range :: "pagegroup \<Rightarrow> pagegroup \<Rightarrow> bool" where
  "same_range g g' \<longleftrightarrow> pg_baseaddr g' = pg_baseaddr g \<and> pg_endaddr g' = pg_endaddr g"

lemma same_range_refl [simp]: "same_range g g"
  by (simp add: same_range_def)

lemma same_range_trans: "same_range g g' \<Longrightarrow> same_range g' g'' \<Longrightarrow> same_range g g''"
  by (simp add: same_range_def)

lemma same_range_ops [simp]:
  "same_range g (set_list order as h) = same_range g h" "same_range g (bit_flip order i h) = same_range g h"
  "same_range g (insert_free order a h) = same_range g h"
  by (simp_all add: same_range_def set_list_def bit_flip_def insert_free_def)

lemma same_range_cong:
  assumes "same_range g g'"
  shows "fits g' = fits g" "parts g' = parts g" "range_ok g' = range_ok g" "pair_of g' = pair_of g" "calculate_index g' = calculate_index g"
  using assms by (auto simp: same_range_def fits_def parts_def range_ok_def pair_of_def calculate_index_def fun_eq_iff)

lemma list_ops [simp]:
  "pg_freelist (set_list order as g) = (pg_freelist g)(order := as)"
  "pg_freelist (insert_free order a g) = (pg_freelist g)(order := a # pg_freelist g order)"
  "pg_freelist (bit_flip order i g) = pg_freelist g"
  "pg_map (set_list order as g) = pg_map g" "pg_map (insert_free order a g) = pg_map g"
  "pg_map (bit_flip order i g) = (pg_map g)(order := (pg_map g order)(i := \<not> pg_map g order i))"
  by (simp_all add: set_list_def insert_free_def bit_flip_def)

lemma core_change:
  assumes c: "core A g" and r: "same_range g g'" and d: "\<And>order. order < PAGE_NSIZES \<Longrightarrow> distinct (pg_freelist g' order)"
    and u: "free_set g' \<union> A' = free_set g \<union> A" and i: "free_set g' \<inter> A' = {}" and b: "bits_ok g'"
  shows "core A' g'"
  using c d i b unfolding core_def u same_range_cong [OF r] by blast

lemma bits_toggle:
  assumes b: "bits_ok g" and r: "same_range g g'" and f: "fits g (order, a)" and lt: "order < PAGE_NSIZES - 1"
    and m: "pg_map g' = (pg_map g)(order + 1 := (pg_map g (order + 1))((a - pg_baseaddr g) div block_size (order + 1)
       := \<not> pg_map g (order + 1) ((a - pg_baseaddr g) div block_size (order + 1))))"
    and l: "\<And>p x. p < PAGE_NSIZES \<Longrightarrow> x \<in> set (pg_freelist g' p) \<longleftrightarrow> (x \<in> set (pg_freelist g p)) \<noteq> (p = order \<and> x = a)"
  shows "bits_ok g'"
  unfolding bits_ok_def
proof (intro allI impI)
  fix p x assume p: "p < PAGE_NSIZES - 1" and fx: "fits g' (p + 1, x)"
  have fx': "fits g (p + 1, x)" using fx unfolding same_range_cong [OF r] .
  have base: "pg_baseaddr g' = pg_baseaddr g" using r by (simp add: same_range_def)
  have old: "pg_map g (p + 1) ((x - pg_baseaddr g) div block_size (p + 1))
      = ((x \<in> set (pg_freelist g p)) \<noteq> (x + block_size p \<in> set (pg_freelist g p)))" using b p fx' by (simp add: bits_ok_def)
  show "pg_map g' (p + 1) ((x - pg_baseaddr g') div block_size (p + 1))
      = ((x \<in> set (pg_freelist g' p)) \<noteq> (x + block_size p \<in> set (pg_freelist g' p)))"
  proof (cases "p = order")
    case False
    then show ?thesis using old p by (simp add: m base l)
  next
    case True
    note idx = pair_index [OF fx' [unfolded True], of a]
    have ne: "x \<noteq> x + block_size order" using block_size_pos [of order] by linarith
    show ?thesis
    proof (cases "x = pair_of g order a")
      case pr: True
      then have "a = x \<or> a = x + block_size order" using pair_cases [OF f] by simp
      then show ?thesis using old True lt pr idx ne by (auto simp: m base l)
    next
      case npr: False
      then have "a \<noteq> x" "a \<noteq> x + block_size order" using fits_pair(3,4) [OF fx' [unfolded True]] by auto
      then show ?thesis using old True lt npr idx by (simp add: m base l)
    qed
  qed
qed

lemma bits_pair:
  assumes b: "bits_ok g" and r: "same_range g g'" and f: "fits g (order + 1, a)" and m: "pg_map g' = pg_map g"
    and l: "\<And>p x. p < PAGE_NSIZES \<Longrightarrow> x \<in> set (pg_freelist g' p) \<longleftrightarrow>
      (x \<in> set (pg_freelist g p)) \<noteq> (p = order \<and> (x = a \<or> x = a + block_size order))"
  shows "bits_ok g'"
  unfolding bits_ok_def
proof (intro allI impI)
  fix p x assume p: "p < PAGE_NSIZES - 1" and fx: "fits g' (p + 1, x)"
  have fx': "fits g (p + 1, x)" using fx unfolding same_range_cong [OF r] .
  have base: "pg_baseaddr g' = pg_baseaddr g" using r by (simp add: same_range_def)
  have old: "pg_map g (p + 1) ((x - pg_baseaddr g) div block_size (p + 1))
      = ((x \<in> set (pg_freelist g p)) \<noteq> (x + block_size p \<in> set (pg_freelist g p)))" using b p fx' by (simp add: bits_ok_def)
  have "(x = a \<or> x = a + block_size p) \<longleftrightarrow> (x + block_size p = a \<or> x + block_size p = a + block_size p)" if "p = order"
    using fits_pair(3,4) [OF fx' [unfolded that]] fits_pair(3,4) [OF f] that by (metis add_right_cancel)
  then show "pg_map g' (p + 1) ((x - pg_baseaddr g') div block_size (p + 1))
      = ((x \<in> set (pg_freelist g' p)) \<noteq> (x + block_size p \<in> set (pg_freelist g' p)))"
    using old p by (simp add: m base l) blast
qed

lemma bits_top:
  assumes r: "same_range g g'" and "pg_map g' = pg_map g" and "\<And>p. p < PAGE_NSIZES - 1 \<Longrightarrow> pg_freelist g' p = pg_freelist g p"
  shows "bits_ok g' = bits_ok g"
proof -
  have "pg_baseaddr g' = pg_baseaddr g" using r by (simp add: same_range_def)
  then show ?thesis unfolding bits_ok_def same_range_cong [OF r] using assms(2,3) by simp
qed

lemma free_set_change:
  assumes "\<And>p x. p < PAGE_NSIZES \<Longrightarrow> x \<in> set (pg_freelist g' p) \<longleftrightarrow> P p x"
  shows "free_set g' = {(p, x). p < PAGE_NSIZES \<and> P p x}"
  using assms by (auto simp: free_set_def)

lemma core_free_fits:
  assumes "core A g" and "order < PAGE_NSIZES" and "a \<in> set (pg_freelist g order)"
  shows "fits g (order, a)" "(order, a) \<in> free_set g" "(order, a) \<notin> A"
  using assms coreD(4) [OF assms(1)] parts_fits [OF coreD(3) [OF assms(1)], of "(order, a)"] by (auto simp: free_set_def)

lemma fpages_cons: "order < PAGE_NSIZES \<Longrightarrow> pg_freelist g' = (pg_freelist g)(order := a # pg_freelist g order) \<Longrightarrow> fpages g' = fpages g + 2 ^ order"
  unfolding fpages_def by (simp add: sum.remove [of "{..<8}" order])

text \<open>Taking a block: it becomes allocated.\<close>

lemma core_take:
  assumes c: "core A g" and lt: "order < PAGE_NSIZES" and h: "pg_freelist g order = a # rest"
  obtains g' where "take_free order g = Some (a, g')" and "core (insert (order, a) A) g'" and "same_range g g'"
    and "pg_freelist g' = (pg_freelist g)(order := rest)" and "fpages g = fpages g' + 2 ^ order"
proof -
  have a: "a \<in> set (pg_freelist g order)" and d: "a \<notin> set rest" "distinct rest" using h coreD(2) [OF c lt] by auto
  note f = core_free_fits [OF c lt a]
  let ?g = "set_list order rest g"
  define g' where "g' = (if order < PAGE_NSIZES - 1 then bit_flip (order + 1) ((a - pg_baseaddr g) div block_size (order + 1)) ?g else ?g)"
  have r: "same_range g ?g" "same_range g g'" by (simp_all add: g'_def)
  have fl: "pg_freelist g' = (pg_freelist g)(order := rest)" by (simp add: g'_def)
  have l: "x \<in> set (pg_freelist g' p) \<longleftrightarrow> (x \<in> set (pg_freelist g p)) \<noteq> (p = order \<and> x = a)" for p x using h d by (auto simp: fl)
  have run: "take_free order g = Some (a, g')"
    using h lt calculate_index_fits [OF coreD(1) [OF c] f(1), of "order + 1"] same_range_cong(5) [OF r(1)]
    by (simp add: take_free_def g'_def Let_def)
  have bits: "bits_ok g'"
  proof (cases "order < PAGE_NSIZES - 1")
    case True
    show ?thesis by (rule bits_toggle [OF coreD(5) [OF c] r(2) f(1) True _ l]) (use True in \<open>simp add: g'_def\<close>)
  next
    case False
    have "bits_ok g' \<longleftrightarrow> bits_ok g" by (rule bits_top [OF r(2)]) (use False fl in \<open>auto simp: g'_def\<close>)
    then show ?thesis using coreD(5) [OF c] by blast
  qed
  have fs: "free_set g' = free_set g - {(order, a)}" using free_set_change [OF l] f(2) by (auto simp: free_set_def)
  have "core (insert (order, a) A) g'"
    by (rule core_change [OF c r(2) _ _ _ bits]) (use fl d coreD(2) [OF c] fs f coreD(4) [OF c] in auto)
  then show ?thesis using that run r(2) fl fpages_cons [OF lt, of g g' a] h by (simp add: fun_upd_idem)
qed

text \<open>Giving a block back, with its bit.\<close>

definition give :: "nat \<Rightarrow> nat \<Rightarrow> pagegroup \<Rightarrow> pagegroup" where
  "give order a g = (if order < PAGE_NSIZES - 1 then bit_flip (order + 1) ((a - pg_baseaddr g) div block_size (order + 1)) (insert_free order a g)
     else insert_free order a g)"

lemma give_fields [simp]:
  "pg_freelist (give order a g) = (pg_freelist g)(order := a # pg_freelist g order)" "same_range g (give order a h) = same_range g h"
  by (simp_all add: give_def)

lemma core_give:
  assumes c: "core A g" and a: "(order, a) \<in> A"
  shows "core (A - {(order, a)}) (give order a g)" "fpages (give order a g) = fpages g + 2 ^ order"
proof -
  have f: "fits g (order, a)" by (rule parts_fits [OF coreD(3) [OF c]]) (use a in blast)
  note lt = fitsD(1) [OF f]
  have nf: "(order, a) \<notin> free_set g" using a coreD(4) [OF c] by blast
  then have na: "a \<notin> set (pg_freelist g order)" using lt by (simp add: free_set_def)
  have r: "same_range g (give order a g)" by simp
  have l: "x \<in> set (pg_freelist (give order a g) p) \<longleftrightarrow> (x \<in> set (pg_freelist g p)) \<noteq> (p = order \<and> x = a)" for p x using na by auto
  have bits: "bits_ok (give order a g)"
  proof (cases "order < PAGE_NSIZES - 1")
    case True
    show ?thesis by (rule bits_toggle [OF coreD(5) [OF c] r f True _ l]) (use True in \<open>simp add: give_def\<close>)
  next
    case False
    have "bits_ok (give order a g) \<longleftrightarrow> bits_ok g" by (rule bits_top [OF r]) (use False in \<open>auto simp: give_def\<close>)
    then show ?thesis using coreD(5) [OF c] by blast
  qed
  have fs: "free_set (give order a g) = insert (order, a) (free_set g)" using free_set_change [OF l] lt by (auto simp: free_set_def)
  show "core (A - {(order, a)}) (give order a g)"
    by (rule core_change [OF c r _ _ _ bits]) (use na coreD(2) [OF c] fs a nf coreD(4) [OF c] in auto)
  show "fpages (give order a g) = fpages g + 2 ^ order" by (rule fpages_cons [OF lt, of _ _ a]) simp
qed

section \<open>Splitting\<close>

lemma core_give_pair:
  assumes c: "core A g" and a: "(order, a) \<in> A" "(order, a + block_size order) \<in> A" and f: "fits g (order + 1, a)"
  shows "core (A - {(order, a), (order, a + block_size order)}) (insert_free order (a + block_size order) (insert_free order a g))"
    "fpages (insert_free order (a + block_size order) (insert_free order a g)) = fpages g + 2 ^ (order + 1)"
proof -
  let ?b = "a + block_size order" and ?g = "insert_free order (a + block_size order) (insert_free order a g)"
  note fa = fits_pair(1,2) [OF f]
  have lt: "order < PAGE_NSIZES" using fitsD(1) [OF f] by simp
  have na: "a \<notin> set (pg_freelist g order)" "?b \<notin> set (pg_freelist g order)"
    using a coreD(4) [OF c] lt by (auto simp: free_set_def)
  have r: "same_range g ?g" by simp
  have l: "x \<in> set (pg_freelist ?g p) \<longleftrightarrow> (x \<in> set (pg_freelist g p)) \<noteq> (p = order \<and> (x = a \<or> x = ?b))" for p x using na by auto
  have bits: "bits_ok ?g" by (rule bits_pair [OF coreD(5) [OF c] r f _ l]) simp
  have fs: "free_set ?g = free_set g \<union> {(order, a), (order, ?b)}" using free_set_change [OF l] lt na by (auto simp: free_set_def)
  show "core (A - {(order, a), (order, ?b)}) ?g"
    by (rule core_change [OF c r _ _ _ bits]) (use na coreD(2) [OF c] fs a coreD(4) [OF c] in auto)
  show "fpages ?g = fpages g + 2 ^ (order + 1)"
    using fpages_cons [OF lt, of ?g "insert_free order a g" ?b] fpages_cons [OF lt, of "insert_free order a g" g a] by simp
qed

text \<open>No two buddies are both free.\<close>

definition no_buddies :: "pagegroup \<Rightarrow> bool" where
  "no_buddies g \<longleftrightarrow> (\<forall>order a. order < PAGE_NSIZES - 1 \<longrightarrow> fits g (order + 1, a) \<longrightarrow>
     \<not> (a \<in> set (pg_freelist g order) \<and> a + block_size order \<in> set (pg_freelist g order)))"

lemma no_buddies_mono:
  assumes "no_buddies g" and r: "same_range g g'" and "\<And>p. set (pg_freelist g' p) \<subseteq> set (pg_freelist g p)"
  shows "no_buddies g'"
  using assms(1,3) unfolding no_buddies_def same_range_cong [OF r] by blast

text \<open>One more free block leaves no two free buddies if its own buddy is not free.\<close>

lemma no_buddies_insert:
  assumes nb: "no_buddies g" and r: "same_range g g'" and f: "fits g (order, a)" and fl: "\<And>p. set (pg_freelist g' p) \<subseteq> set (pg_freelist g p) \<union> (if p = order then {a} else {})"
    and n: "a \<noteq> pair_of g order a \<Longrightarrow> pair_of g order a \<notin> set (pg_freelist g order)"
      "a = pair_of g order a \<Longrightarrow> a + block_size order \<notin> set (pg_freelist g order)"
  shows "no_buddies g'"
  unfolding no_buddies_def same_range_cong [OF r]
proof (intro allI impI notI)
  fix p x assume p: "p < PAGE_NSIZES - 1" and fx: "fits g (p + 1, x)" and both: "x \<in> set (pg_freelist g' p) \<and> x + block_size p \<in> set (pg_freelist g' p)"
  show False
  proof (cases "p = order \<and> (x = a \<or> x + block_size p = a)")
    case True
    then have pr: "pair_of g order a = x" using fits_pair(3,4) [OF fx] by auto
    have ne: "x \<noteq> x + block_size p" by simp
    from True show ?thesis
    proof (elim conjE disjE)
      assume "p = order" "x = a"
      then show False using n(2) pr both ne fl [of order] by auto
    next
      assume "p = order" "x + block_size p = a"
      then show False using n(1) pr both ne fl [of order] by auto
    qed
  next
    case False
    then have "x \<in> set (pg_freelist g p) \<and> x + block_size p \<in> set (pg_freelist g p)" using both fl [of p] by (auto split: if_splits)
    then show ?thesis using nb p fx unfolding no_buddies_def by blast
  qed
qed

lemma page_split_block_ok:
  assumes c: "core A g" and p: "p = q + 1" "p < PAGE_NSIZES" and h: "pg_freelist g p = a # rest" and nb: "no_buddies (set_list p rest g)"
  obtains g' where "page_split_block g p = Some g'" and "core A g'" and "same_range g g'" and "fpages g' = fpages g"
    and "pg_freelist g' = (pg_freelist g)(p := rest, q := (a + block_size q) # a # pg_freelist g q)"
    and "no_buddies (set_list q (a # pg_freelist g q) g')"
proof -
  let ?L = "{(q, a), (q, a + block_size q)}"
  have a: "a \<in> set (pg_freelist g p)" using h by simp
  note f = core_free_fits [OF c p(2) a]
  obtain g1 where t: "take_free p g = Some (a, g1)" and c1: "core (insert (p, a) A) g1" and r1: "same_range g g1"
    and fl: "pg_freelist g1 = (pg_freelist g)(p := rest)" and n: "fpages g = fpages g1 + 2 ^ p" by (rule core_take [OF c p(2) h])
  have f1: "fits g1 (q + 1, a)" using f(1) p(1) unfolding same_range_cong [OF r1] by simp
  have c2: "core (insert (p, a) A - {(p, a)} \<union> ?L) g1" using core_halve [OF c1, of q a] p(1) by simp
  have nfree: "(q, a) \<notin> free_set g1" "(q, a + block_size q) \<notin> free_set g1" using coreD(4) [OF c2] by blast+
  have nl: "a \<notin> set (pg_freelist g q)" "a + block_size q \<notin> set (pg_freelist g q)" using nfree p by (auto simp: free_set_def fl)
  have nA: "?L \<inter> A = {}"
    using parts_disjoint [OF coreD(3) [OF c], of "(p, a)" "(q, a)"] parts_disjoint [OF coreD(3) [OF c], of "(p, a)" "(q, a + block_size q)"]
      f(2) p(1) blk_halves [of q a] blk_start [of a q] blk_start [of "a + block_size q" q] by auto
  then have A: "insert (p, a) A - {(p, a)} \<union> ?L - ?L = A" using f(3) by blast
  let ?g = "insert_free q (a + block_size q) (insert_free q a g1)"
  have c3: "core A ?g" and n3: "fpages ?g = fpages g1 + 2 ^ (q + 1)" using core_give_pair [OF c2 _ _ f1] unfolding A by blast+
  have idx: "calculate_index g1 p a = Some ((a - pg_baseaddr g1) div block_size p)"
    by (rule calculate_index_fits [OF coreD(1) [OF c1], of p]) (use f1 p in simp_all)
  have "\<not> bit_check p ((a - pg_baseaddr g1) div block_size p) g1"
    using coreD(5) [OF c1] f1 p nl by (simp add: bits_ok_def bit_check_def fl)
  then have run: "page_split_block g p = Some ?g" using p h t idx by (simp add: page_split_block_def)
  let ?h = "set_list p rest g"
  have r0: "same_range g ?h" "same_range ?h (set_list q (a # pg_freelist g q) ?g)" using r1 by (simp_all add: same_range_def set_list_def insert_free_def)
  have f0: "fits ?h (q, a)" "pair_of ?h q a = a" using fits_pair(1,3) [OF f1] unfolding same_range_cong [OF r0(1)] same_range_cong [OF r1] .
  have "no_buddies (set_list q (a # pg_freelist g q) ?g)"
    by (rule no_buddies_insert [OF nb r0(2) f0(1)]) (use f0(2) nl fl p in \<open>auto simp: fun_upd_twist\<close>)
  then show ?thesis using that [OF run c3] r1 n n3 p fl by simp
qed

lemma split_down_ok:
  assumes "core A g" and "order + n < PAGE_NSIZES" and "pg_freelist g (order + n) \<noteq> []"
    and "no_buddies (set_list (order + n) (tl (pg_freelist g (order + n))) g)"
  shows "\<exists>g'. split_down g order n = Some g' \<and> core A g' \<and> same_range g g' \<and> fpages g' = fpages g
    \<and> pg_freelist g' order \<noteq> [] \<and> no_buddies (set_list order (tl (pg_freelist g' order)) g')"
  using assms
proof (induction n arbitrary: g)
  case (Suc n)
  obtain a rest where h: "pg_freelist g (order + Suc n) = a # rest" using Suc.prems(3) by (meson list.exhaust)
  obtain g1 where g1: "page_split_block g (order + Suc n) = Some g1" "core A g1" "same_range g g1" "fpages g1 = fpages g"
    "pg_freelist g1 = (pg_freelist g)(order + Suc n := rest, order + n := (a + block_size (order + n)) # a # pg_freelist g (order + n))"
    "no_buddies (set_list (order + n) (a # pg_freelist g (order + n)) g1)"
    by (rule page_split_block_ok [OF Suc.prems(1) _ Suc.prems(2) h, of "order + n"]) (use Suc.prems(4) h in simp_all)
  obtain g' where "split_down g1 order n = Some g'" "core A g'" "same_range g1 g'" "fpages g' = fpages g1" "pg_freelist g' order \<noteq> []"
    "no_buddies (set_list order (tl (pg_freelist g' order)) g')"
    using Suc.IH [OF g1(2)] Suc.prems(2) g1(5,6) by auto
  then show ?case using g1(1,3,4) same_range_trans by auto
qed auto

section \<open>Joining\<close>

lemma unlink_free_unique:
  assumes "order < PAGE_NSIZES" and "a \<in> set (pg_freelist g order)" and "\<And>p. p < PAGE_NSIZES \<Longrightarrow> a \<in> set (pg_freelist g p) \<Longrightarrow> p = order"
  shows "unlink_free a g = Some (set_list order (remove1 a (pg_freelist g order)) g)"
proof -
  have "find (\<lambda>p. a \<in> set (pg_freelist g p)) [0..<PAGE_NSIZES] = Some order"
  proof (rule find_first)
    show "\<forall>p<order. \<not> a \<in> set (pg_freelist g p)" using assms(1,3) by (metis less_irrefl less_trans)
  qed (use assms(1,2) in simp_all)
  then show ?thesis by (simp add: unlink_free_def del: upt_rec_numeral)
qed

lemma core_free_unique:
  assumes c: "core A g" and "order < PAGE_NSIZES" "a \<in> set (pg_freelist g order)" "p < PAGE_NSIZES" "a \<in> set (pg_freelist g p)"
  shows "p = order"
proof -
  have "blk (p, a) \<inter> blk (order, a) \<noteq> {}" using blk_start [of a p] blk_start [of a order] by blast
  then show ?thesis using parts_disjoint [OF coreD(3) [OF c], of "(p, a)" "(order, a)"] assms(2-5) by (simp add: free_set_def)
qed

lemma buddy_of_pair:
  assumes "range_ok g" and f: "fits g (order, a)"
  shows "buddy_of g order a = (if a = pair_of g order a then a + block_size order else pair_of g order a)"
proof -
  let ?s = "block_size order"
  obtain n where n: "a - pg_baseaddr g = ?s * n" using fitsD(3) [OF f] by (rule dvdE)
  have idx: "(a - pg_baseaddr g) div PAGE_BYTES div 2 ^ order = n"
  proof -
    have "?s * n div (PAGE_BYTES * 2 ^ order) = n" by (simp add: block_size_def mult.commute)
    then show ?thesis unfolding n div_mult2_eq .
  qed
  have pr: "pair_of g order a = pg_baseaddr g + n div 2 * (2 * ?s)"
  proof -
    have "?s * n div (?s * 2) = n div 2" unfolding div_mult2_eq by simp
    then show ?thesis unfolding pair_of_def n by (simp add: block_size_Suc mult.commute [of ?s 2])
  qed
  have a: "a = pg_baseaddr g + ?s * n" using n fitsD(2) [OF f] by simp
  show ?thesis
  proof (cases "n mod 2 = 1")
    case True
    define k where "k = n div 2"
    have k: "n = 2 * k + 1" using True unfolding k_def by presburger
    have pk: "pair_of g order a = pg_baseaddr g + k * (2 * ?s)" using pr unfolding k_def .
    have ak: "a = pg_baseaddr g + k * (2 * ?s) + ?s" unfolding a k by simp
    have "buddy_of g order a = a - ?s" unfolding buddy_of_def idx using True by simp
    then show ?thesis unfolding pk using ak by simp
  next
    case False
    define k where "k = n div 2"
    have k: "n = 2 * k" using False unfolding k_def by presburger
    have pk: "pair_of g order a = pg_baseaddr g + k * (2 * ?s)" using pr unfolding k_def .
    have ak: "a = pg_baseaddr g + k * (2 * ?s)" unfolding a k by simp
    have "buddy_of g order a = a + ?s" unfolding buddy_of_def idx using False by simp
    then show ?thesis unfolding pk using ak by simp
  qed
qed

lemma length_remove1_in: "x \<in> set xs \<Longrightarrow> Suc (length (remove1 x xs)) = length xs"
  by (induction xs) auto

text \<open>Taking both buddies out of their list.\<close>

lemma core_unlink_pair:
  assumes c: "core A g" and f: "fits g (order + 1, x)" and xy: "{a, b} = {x, x + block_size order}"
    and a: "x \<in> set (pg_freelist g order)" "x + block_size order \<in> set (pg_freelist g order)"
  shows "\<exists>g' g''. unlink_free a g = Some g' \<and> unlink_free b g' = Some g'' \<and> core (A \<union> {(order, x), (order, x + block_size order)}) g''
    \<and> same_range g g'' \<and> fpages g = fpages g'' + 2 ^ (order + 1)
    \<and> pg_freelist g'' = (pg_freelist g)(order := remove1 b (remove1 a (pg_freelist g order)))"
proof -
  let ?g' = "set_list order (remove1 a (pg_freelist g order)) g"
  let ?k = "set_list order (remove1 b (remove1 a (pg_freelist g order))) ?g'"
  have lt: "order < PAGE_NSIZES" using fitsD(1) [OF f] by simp
  have ab: "a \<noteq> b" "a \<in> set (pg_freelist g order)" "b \<in> set (pg_freelist g order)"
    using xy a unfolding doubleton_eq_iff by auto
  note d = coreD(2) [OF c lt]
  have set: "set (remove1 b (remove1 a (pg_freelist g order))) = set (pg_freelist g order) - {x, x + block_size order}"
    using d unfolding xy [symmetric] by (simp add: set_remove1_eq) blast
  have u1: "unlink_free a g = Some ?g'" by (rule unlink_free_unique [OF lt ab(2)]) (rule core_free_unique [OF c lt ab(2)])
  have "unlink_free b ?g' = Some (set_list order (remove1 b (pg_freelist ?g' order)) ?g')"
  proof (rule unlink_free_unique [OF lt])
    show "b \<in> set (pg_freelist ?g' order)" using ab by simp
    fix p assume p: "p < PAGE_NSIZES" "b \<in> set (pg_freelist ?g' p)"
    have "set (pg_freelist ?g' p) \<subseteq> set (pg_freelist g p)" by (simp add: set_remove1_subset)
    then show "p = order" using core_free_unique [OF c lt ab(3) p(1)] p(2) by blast
  qed
  then have u2: "unlink_free b ?g' = Some ?k" by simp
  have r: "same_range g ?k" by simp
  have fl: "pg_freelist ?k = (pg_freelist g)(order := remove1 b (remove1 a (pg_freelist g order)))" by simp
  have l: "y \<in> set (pg_freelist ?k p) \<longleftrightarrow> (y \<in> set (pg_freelist g p)) \<noteq> (p = order \<and> (y = x \<or> y = x + block_size order))" for p y
    unfolding fl using set a by (cases "p = order") auto
  have bits: "bits_ok ?k" by (rule bits_pair [OF coreD(5) [OF c] r f _ l]) simp
  have fs: "free_set ?k = free_set g - {(order, x), (order, x + block_size order)}"
    unfolding free_set_change [OF l] using a by (auto simp: free_set_def)
  have in_free: "{(order, x), (order, x + block_size order)} \<subseteq> free_set g" using a lt by (simp add: free_set_def)
  have "core (A \<union> {(order, x), (order, x + block_size order)}) ?k"
  proof (rule core_change [OF c r _ _ _ bits])
    show "distinct (pg_freelist ?k p)" if "p < PAGE_NSIZES" for p using d coreD(2) [OF c that] by (simp add: distinct_remove1)
    show "free_set ?k \<union> (A \<union> {(order, x), (order, x + block_size order)}) = free_set g \<union> A" unfolding fs using in_free by blast
    show "free_set ?k \<inter> (A \<union> {(order, x), (order, x + block_size order)}) = {}" unfolding fs using coreD(4) [OF c] by blast
  qed
  moreover have "fpages g = fpages ?k + 2 ^ (order + 1)"
  proof -
    have "Suc (length (remove1 a (pg_freelist g order))) = length (pg_freelist g order)" by (rule length_remove1_in [OF ab(2)])
    moreover have "Suc (length (remove1 b (remove1 a (pg_freelist g order)))) = length (remove1 a (pg_freelist g order))"
      by (rule length_remove1_in) (use ab in simp)
    ultimately have "length (pg_freelist g order) = length (pg_freelist ?k order) + 2" by simp
    then show ?thesis using lt unfolding fpages_def fl by (simp add: sum.remove [of "{..<8}" order])
  qed
  ultimately show ?thesis using u1 u2 r fl by blast
qed

lemma no_buddies_top:
  assumes "no_buddies g" and r: "same_range g g'" and "\<And>p. p < PAGE_NSIZES - 1 \<Longrightarrow> pg_freelist g' p = pg_freelist g p"
  shows "no_buddies g'"
  using assms(1,3) unfolding no_buddies_def same_range_cong [OF r] by simp

text \<open>One round of the loop: both buddies are free, and become one block of the next order.\<close>

lemma core_join:
  assumes c: "core A g" and lt: "order < PAGE_NSIZES - 1" and f: "fits g (order, a)" and pr: "x = pair_of g order a"
    and free: "x \<in> set (pg_freelist g order)" "x + block_size order \<in> set (pg_freelist g order)"
  shows "\<exists>g1 g2. unlink_free a g = Some g1 \<and> unlink_free (buddy_of g order a) g1 = Some g2 \<and> core A (give (order + 1) x g2)
    \<and> same_range g g2 \<and> fpages (give (order + 1) x g2) = fpages g \<and> min a (buddy_of g order a) = x \<and> fits g2 (order + 1, x)
    \<and> pg_freelist g2 = (pg_freelist g)(order := remove1 (buddy_of g order a) (remove1 a (pg_freelist g order)))"
proof -
  let ?L = "{(order, x), (order, x + block_size order)}"
  have fx: "fits g (order + 1, x)" unfolding pr by (rule pair_fits [OF coreD(1) [OF c] f lt])
  have b: "buddy_of g order a = (if a = x then a + block_size order else x)" unfolding pr by (rule buddy_of_pair [OF coreD(1) [OF c] f])
  have ax: "a = x \<or> a = x + block_size order" unfolding pr by (rule pair_cases [OF f])
  then have xy: "{a, buddy_of g order a} = {x, x + block_size order}" "min a (buddy_of g order a) = x" unfolding b by auto
  obtain g1 g2 where u: "unlink_free a g = Some g1" "unlink_free (buddy_of g order a) g1 = Some g2" and c2: "core (A \<union> ?L) g2"
    and r: "same_range g g2" and n: "fpages g = fpages g2 + 2 ^ (order + 1)"
    and fl: "pg_freelist g2 = (pg_freelist g)(order := remove1 (buddy_of g order a) (remove1 a (pg_freelist g order)))"
    using core_unlink_pair [OF c fx xy(1) free] by blast
  have f2: "fits g2 (order + 1, x)" using fx unfolding same_range_cong [OF r] .
  have Lfree: "?L \<subseteq> free_set g" using free lt by (simp add: free_set_def)
  then have LA: "A \<union> ?L - ?L = A" using coreD(4) [OF c] by blast
  have xA: "(order + 1, x) \<notin> A"
  proof
    assume "(order + 1, x) \<in> A"
    moreover have "blk (order + 1, x) \<inter> blk (order, x) \<noteq> {}" using blk_start [of x order] blk_start [of x "order + 1"] by blast
    ultimately have "(order + 1, x) = (order, x)" using parts_disjoint [OF coreD(3) [OF c], of "(order + 1, x)" "(order, x)"] Lfree by blast
    then show False by simp
  qed
  have c3: "core (A \<union> {(order + 1, x)}) g2" using core_merge [OF c2 _ _ f2] unfolding LA by blast
  have "A \<union> {(order + 1, x)} - {(order + 1, x)} = A" using xA by blast
  then have "core A (give (order + 1) x g2)" using core_give(1) [OF c3, of "order + 1" x] by simp
  moreover have "fpages (give (order + 1) x g2) = fpages g" using core_give(2) [OF c3, of "order + 1" x] n by simp
  ultimately show ?thesis using u r xy(2) f2 fl by blast
qed

lemma page_join_ok:
  assumes "core A g" and "order < PAGE_NSIZES" and "a \<in> set (pg_freelist g order)"
    and "no_buddies (set_list order (remove1 a (pg_freelist g order)) g)"
  shows "\<exists>g'. page_join g order a = Some g' \<and> core A g' \<and> same_range g g' \<and> fpages g' = fpages g \<and> no_buddies g'"
  using assms
proof (induction "PAGE_NSIZES - order" arbitrary: g order a rule: less_induct)
  case less
  note c = less.prems(1) and lt = less.prems(2) and a = less.prems(3) and nb = less.prems(4)
  let ?h = "set_list order (remove1 a (pg_freelist g order)) g"
  note f = core_free_fits(1) [OF c lt a]
  have rh: "same_range g ?h" "same_range ?h g" by (simp_all add: same_range_def set_list_def)
  have sh: "set (pg_freelist ?h order) = set (pg_freelist g order) - {a}" using coreD(2) [OF c lt] by (simp add: set_remove1_eq)
  show ?case
  proof (cases "order < PAGE_NSIZES - 1")
    case False
    have "no_buddies g" by (rule no_buddies_top [OF nb rh(2)]) (use False in auto)
    then show ?thesis using c False by (simp add: page_join.simps)
  next
    case True
    define x where "x = pair_of g order a"
    have fx: "fits g (order + 1, x)" unfolding x_def by (rule pair_fits [OF coreD(1) [OF c] f True])
    have ax: "a = x \<or> a = x + block_size order" unfolding x_def by (rule pair_cases [OF f])
    have idx: "calculate_index g (order + 1) a = Some ((a - pg_baseaddr g) div block_size (order + 1))"
      by (rule calculate_index_fits [OF coreD(1) [OF c] f]) (use True in simp_all)
    have bit: "bit_check (order + 1) ((a - pg_baseaddr g) div block_size (order + 1)) g
        = ((x \<in> set (pg_freelist g order)) \<noteq> (x + block_size order \<in> set (pg_freelist g order)))"
      using coreD(5) [OF c] fx True pair_index [OF fx, of a] unfolding bits_ok_def bit_check_def x_def by metis
    show ?thesis
    proof (cases "x \<in> set (pg_freelist g order) \<and> x + block_size order \<in> set (pg_freelist g order)")
      case False
      have "no_buddies g"
      proof (rule no_buddies_insert [OF nb rh(2), of order a])
        show "fits ?h (order, a)" using f unfolding same_range_cong [OF rh(1)] .
        show "set (pg_freelist g p) \<subseteq> set (pg_freelist ?h p) \<union> (if p = order then {a} else {})" for p using sh by (cases "p = order") auto
        show "pair_of ?h order a \<notin> set (pg_freelist ?h order)" if "a \<noteq> pair_of ?h order a"
          using that False ax a sh unfolding same_range_cong [OF rh(1)] x_def [symmetric] by auto
        show "a + block_size order \<notin> set (pg_freelist ?h order)" if "a = pair_of ?h order a"
          using that False ax a sh unfolding same_range_cong [OF rh(1)] x_def [symmetric] by auto
      qed
      moreover have "page_join g order a = Some g" using True idx bit False a ax by (subst page_join.simps) auto
      ultimately show ?thesis using c by simp
    next
      case both: True
      obtain g1 g2 where j: "unlink_free a g = Some g1" "unlink_free (buddy_of g order a) g1 = Some g2" "core A (give (order + 1) x g2)"
        "same_range g g2" "fpages (give (order + 1) x g2) = fpages g" "min a (buddy_of g order a) = x" "fits g2 (order + 1, x)"
        "pg_freelist g2 = (pg_freelist g)(order := remove1 (buddy_of g order a) (remove1 a (pg_freelist g order)))"
        using core_join [OF c True f x_def conjunct1 [OF both] conjunct2 [OF both]] by blast
      let ?g3 = "give (order + 1) x g2"
      have "2 ^ order dvd block_size order" by (simp add: block_size_def)
      then have al: "(a - pg_baseaddr g) mod 2 ^ order = 0" using fitsD(3) [OF f] by (meson dvd_imp_mod_0 dvd_trans)
      have fin: "calculate_index (insert_free (order + 1) x g2) (order + 2) x = Some ((x - pg_baseaddr g2) div block_size (order + 2))"
        if "order + 1 < PAGE_NSIZES - 1"
      proof -
        have "calculate_index g2 (order + 2) x = Some ((x - pg_baseaddr g2) div block_size (order + 2))"
          by (rule calculate_index_fits [OF _ j(7)]) (use that coreD(1) [OF c] same_range_cong(3) [OF j(4)] in simp_all)
        then show ?thesis using same_range_cong(5) [of g2 "insert_free (order + 1) x g2"] by simp
      qed
      have step: "page_join g order a = page_join ?g3 (order + 1) x"
        using True idx bit both al j(1,2,6) fin by (subst page_join.simps) (simp add: Let_def give_def)
      have nb3: "no_buddies (set_list (order + 1) (remove1 x (pg_freelist ?g3 (order + 1))) ?g3)"
      proof (rule no_buddies_mono [OF nb])
        show "same_range ?h (set_list (order + 1) (remove1 x (pg_freelist ?g3 (order + 1))) ?g3)"
          using same_range_trans [OF rh(2) j(4)] by simp
        show "set (pg_freelist (set_list (order + 1) (remove1 x (pg_freelist ?g3 (order + 1))) ?g3) p) \<subseteq> set (pg_freelist ?h p)" for p
          using j(8) set_remove1_subset [of _ "remove1 a (pg_freelist g order)"] by auto
      qed
      have "PAGE_NSIZES - (order + 1) < PAGE_NSIZES - order" using True by linarith
      then obtain g' where "page_join ?g3 (order + 1) x = Some g'" "core A g'" "same_range ?g3 g'" "fpages g' = fpages ?g3" "no_buddies g'"
        using less.hyps [OF _ j(3) _ _ nb3] True by auto
      moreover have "same_range g ?g3" using j(4) by simp
      ultimately show ?thesis using step j(5) same_range_trans by metis
    qed
  qed
qed

end
