(* ===== verification/PageProps.thy ===== *)
theory PageProps
imports PageInv
begin

text \<open>
  The invariant of all groups of pages, kept by allocation and freeing, and what it gives to
  the callers of the allocator: blocks that are handed out never overlap, freeing always
  succeeds and coalesces, and the count of free pages is exact.
\<close>

section \<open>All groups\<close>

text \<open>The blocks of \<^verbatim>\<open>A\<close> that lie in a group, and the invariant of the whole allocator.\<close>

definition own :: "block set \<Rightarrow> pagegroup \<Rightarrow> block set" where
  "own A g = {b \<in> A. fits g b}"

definition group_ok :: "block set \<Rightarrow> pagegroup \<Rightarrow> bool" where
  "group_ok A g \<longleftrightarrow> core (own A g) g \<and> no_buddies g"

definition apart :: "pagegroup list \<Rightarrow> bool" where
  "apart gs \<longleftrightarrow> (\<forall>i < length gs. \<forall>j < length gs. i \<noteq> j \<longrightarrow>
     {pg_baseaddr (gs ! i)..<pg_endaddr (gs ! i)} \<inter> {pg_baseaddr (gs ! j)..<pg_endaddr (gs ! j)} = {})"

definition pages_ok :: "block set \<Rightarrow> pages \<Rightarrow> bool" where
  "pages_ok A s \<longleftrightarrow> (\<forall>g \<in> set (pagegroup_list s). group_ok A g) \<and> apart (pagegroup_list s)
     \<and> (\<forall>b \<in> A. \<exists>g \<in> set (pagegroup_list s). fits g b)
     \<and> page_freecount s = of_nat (sum_list (map fpages (pagegroup_list s)))"

lemma pages_okD:
  assumes "pages_ok A s"
  shows "\<And>i. i < length (pagegroup_list s) \<Longrightarrow> core (own A (pagegroup_list s ! i)) (pagegroup_list s ! i)"
    "\<And>i. i < length (pagegroup_list s) \<Longrightarrow> no_buddies (pagegroup_list s ! i)"
    "apart (pagegroup_list s)" "\<And>b. b \<in> A \<Longrightarrow> \<exists>i < length (pagegroup_list s). fits (pagegroup_list s ! i) b"
    "page_freecount s = of_nat (sum_list (map fpages (pagegroup_list s)))"
proof -
  show "core (own A (pagegroup_list s ! i)) (pagegroup_list s ! i)" "no_buddies (pagegroup_list s ! i)" if "i < length (pagegroup_list s)" for i
    using assms nth_mem [OF that] unfolding pages_ok_def group_ok_def by blast+
  show "\<exists>i < length (pagegroup_list s). fits (pagegroup_list s ! i) b" if "b \<in> A" for b
    using assms that unfolding pages_ok_def by (metis in_set_conv_nth)
qed (use assms in \<open>simp_all add: pages_ok_def\<close>)

lemma fits_blk: "fits g b \<Longrightarrow> blk b \<subseteq> {pg_baseaddr g..<pg_endaddr g}"
  by (auto simp: fits_def blk_def)

lemma apart_fits:
  assumes "apart gs" and "i < length gs" and "j < length gs" and "i \<noteq> j" and b: "fits (gs ! i) b" and c: "fits (gs ! j) c"
  shows "blk b \<inter> blk c = {}"
  using fits_blk [OF b] fits_blk [OF c] assms(1-4) unfolding apart_def by blast

lemma apart_unique: "apart gs \<Longrightarrow> i < length gs \<Longrightarrow> j < length gs \<Longrightarrow> fits (gs ! i) b \<Longrightarrow> fits (gs ! j) b \<Longrightarrow> i = j"
  using apart_fits [of gs i j b b] blk_nonempty [of b] by blast

lemma sum_list_update_fpages:
  "i < length gs \<Longrightarrow> sum_list (map fpages (gs[i := g])) + fpages (gs ! i) = sum_list (map fpages gs) + fpages g"
  by (induction gs arbitrary: i) (auto split: nat.splits)

text \<open>Replacing one group by a later state of it.\<close>

lemma pages_ok_set:
  assumes ok: "pages_ok A s" and i: "i < length (pagegroup_list s)" and r: "same_range (pagegroup_list s ! i) g"
    and c: "core (own A' (pagegroup_list s ! i)) g" and nb: "no_buddies g"
    and A': "\<And>b. \<not> fits (pagegroup_list s ! i) b \<Longrightarrow> b \<in> A' \<longleftrightarrow> b \<in> A"
    and n: "n + of_nat (fpages (pagegroup_list s ! i)) = page_freecount s + of_nat (fpages g)"
  shows "pages_ok A' (set_group i g (s\<lparr>page_freecount := n\<rparr>))"
proof -
  let ?gs = "pagegroup_list s" and ?t = "set_group i g (s\<lparr>page_freecount := n\<rparr>)"
  have gs: "pagegroup_list ?t = ?gs[i := g]" "page_freecount ?t = n" by (simp_all add: set_group_def)
  have fit: "fits g b = fits (?gs ! i) b" for b by (rule fun_cong [OF same_range_cong(1) [OF r]])
  have "group_ok A' (?gs[i := g] ! j)" if j: "j < length ?gs" for j
  proof (cases "j = i")
    case True then show ?thesis using c nb i by (simp add: group_ok_def own_def fit)
  next
    case False
    then have "own A' (?gs ! j) = own A (?gs ! j)" unfolding own_def using A' apart_unique [OF pages_okD(3) [OF ok] j i] by blast
    then show ?thesis using False pages_okD(1,2) [OF ok j] by (simp add: group_ok_def)
  qed
  moreover have "apart (?gs[i := g])"
  proof -
    have "pg_baseaddr (?gs[i := g] ! j) = pg_baseaddr (?gs ! j)" "pg_endaddr (?gs[i := g] ! j) = pg_endaddr (?gs ! j)" if "j < length ?gs" for j
      using r that i by (auto simp: same_range_def nth_list_update)
    then show ?thesis using pages_okD(3) [OF ok] by (simp add: apart_def)
  qed
  moreover have "\<exists>h \<in> set (?gs[i := g]). fits h b" if "b \<in> A'" for b
  proof (cases "fits (?gs ! i) b")
    case True then show ?thesis using i fit set_update_memI by fast
  next
    case False
    then have "b \<in> A" using A' that by blast
    then obtain j where "j < length ?gs" "fits (?gs ! j) b" using pages_okD(4) [OF ok] by blast
    then show ?thesis using fit i nth_mem [of j "?gs[i := g]"] by (metis length_list_update nth_list_update)
  qed
  moreover have "n = of_nat (sum_list (map fpages (?gs[i := g])))"
  proof -
    have "n + of_nat (fpages (?gs ! i)) = of_nat (sum_list (map fpages ?gs) + fpages g)" using n pages_okD(5) [OF ok] by simp
    then show ?thesis unfolding sum_list_update_fpages [OF i, symmetric] by simp
  qed
  ultimately show ?thesis unfolding pages_ok_def gs by (auto simp: in_set_conv_nth)
qed

text \<open>Freeing an allocated block.\<close>

lemma from_address_owner:
  assumes ok: "pages_ok A s" and i: "i < length (pagegroup_list s)" and f: "fits (pagegroup_list s ! i) (order, a)"
  shows "pagegroup_from_address a s = Some i"
proof -
  let ?R = "\<lambda>i. {pg_baseaddr (pagegroup_list s ! i)..<pg_endaddr (pagegroup_list s ! i)}"
  have ai: "a \<in> ?R i" using fitsD(2,5) [OF f] by simp
  have "a \<notin> ?R j" if "j < i" for j
  proof -
    have "?R j \<inter> ?R i = {}" using pages_okD(3) [OF ok, unfolded apart_def, rule_format, OF less_trans [OF that i] i less_imp_neq [OF that]] .
    then show ?thesis using ai by (simp only: disjoint_iff) blast
  qed
  then have "find (\<lambda>j. a \<in> ?R j) [0..<length (pagegroup_list s)] = Some i" by (intro find_first allI impI i ai)
  then show ?thesis by (simp only: pagegroup_from_address_def Let_def atLeastLessThan_iff)
qed

lemma free_in_group:
  assumes c: "core A g" and nb: "no_buddies g" and b: "(order, a) \<in> A"
  shows "\<exists>g'. (if order < PAGE_NSIZES - 1 then do {
                  j \<leftarrow> calculate_index (insert_free order a g) (order + 1) a;
                  page_join (bit_flip (order + 1) j (insert_free order a g)) order a
                } else Some (insert_free order a g)) = Some g'
    \<and> core (A - {(order, a)}) g' \<and> same_range g g' \<and> fpages g' = fpages g + 2 ^ order \<and> no_buddies g'"
proof -
  have f: "fits g (order, a)" using coreD(3) [OF c] b parts_fits by blast
  note lt = fitsD(1) [OF f]
  note c2 = core_give [OF c b]
  have idx: "calculate_index (insert_free order a g) (order + 1) a = Some ((a - pg_baseaddr g) div block_size (order + 1))" if "order < PAGE_NSIZES - 1"
    using calculate_index_fits [OF coreD(1) [OF c] f, of "order + 1"] that same_range_cong(5) [of g "insert_free order a g"] by simp
  have "no_buddies (set_list order (remove1 a (pg_freelist (give order a g) order)) (give order a g))"
    by (rule no_buddies_mono [OF nb]) auto
  from page_join_ok [OF c2(1) lt _ this] obtain g' where "page_join (give order a g) order a = Some g'" "core (A - {(order, a)}) g'"
      "same_range (give order a g) g'" "fpages g' = fpages g + 2 ^ order" "no_buddies g'"
    using c2(2) by auto
  moreover from this have "same_range g g'" using same_range_trans [of g "give order a g"] by simp
  ultimately show ?thesis
    by (intro exI [of _ g']) (cases "order < PAGE_NSIZES - 1", use idx in \<open>simp add: give_def\<close>, simp add: give_def page_join.simps)
qed


lemma own_minus: "own (A - B) g = own A g - B"
  by (auto simp: own_def)

lemma page_free_order_ok:
  assumes ok: "pages_ok A s" and b: "(order, a) \<in> A"
  shows "\<exists>s'. page_free_order a order s = Some s' \<and> page_freecount s' = page_freecount s + 2 ^ order \<and> pages_ok (A - {(order, a)}) s'"
proof -
  obtain i where i: "i < length (pagegroup_list s)" and f: "fits (pagegroup_list s ! i) (order, a)" using pages_okD(4) [OF ok b] by blast
  have "(order, a) \<in> own A (pagegroup_list s ! i)" using b f by (simp add: own_def)
  from free_in_group [OF pages_okD(1,2) [OF ok i] this] obtain g where
    run: "(if order < PAGE_NSIZES - 1 then do {
                  j \<leftarrow> calculate_index (insert_free order a (pagegroup_list s ! i)) (order + 1) a;
                  page_join (bit_flip (order + 1) j (insert_free order a (pagegroup_list s ! i))) order a
                } else Some (insert_free order a (pagegroup_list s ! i))) = Some g"
    and c: "core (own A (pagegroup_list s ! i) - {(order, a)}) g" and r: "same_range (pagegroup_list s ! i) g"
    and n: "fpages g = fpages (pagegroup_list s ! i) + 2 ^ order" and nb: "no_buddies g" by blast
  have "page_free_order a order s = Some (set_group i g (s\<lparr>page_freecount := page_freecount s + 2 ^ order\<rparr>))"
    unfolding page_free_order_def from_address_owner [OF ok i f] using run by (simp add: Let_def)
  moreover have "pages_ok (A - {(order, a)}) (set_group i g (s\<lparr>page_freecount := page_freecount s + 2 ^ order\<rparr>))"
    by (rule pages_ok_set [OF ok i r _ nb]) (use c n f in \<open>auto simp: own_minus\<close>)
  ultimately show ?thesis by (simp add: set_group_def)
qed

lemma order_of_bound: "order_of npages = Some order \<Longrightarrow> order < PAGE_NSIZES"
  by (auto simp: order_of_def find_Some_iff)

text \<open>The blocks of the slabs that are given back.\<close>

definition block_of :: "nat \<times> 32 word \<Rightarrow> block" where
  "block_of p = (the (order_of (snd p)), fst p)"

lemma free_blocks_ok:
  "pages_ok A s \<Longrightarrow> distinct (map block_of slabs) \<Longrightarrow> block_of ` set slabs \<subseteq> A \<Longrightarrow> \<forall>p \<in> set slabs. order_of (snd p) \<noteq> None \<Longrightarrow>
   \<exists>s'. free_blocks slabs s = Some s' \<and> pages_ok (A - block_of ` set slabs) s'"
proof (induction slabs arbitrary: A s)
  case (Cons p slabs)
  obtain start npages where p: "p = (start, npages)" by fastforce
  with Cons.prems(4) obtain order where o: "order_of npages = Some order" by auto
  then have bp: "block_of p = (order, start)" by (simp add: block_of_def p)
  have "(order, start) \<in> A" using Cons.prems(3) bp by auto
  then obtain s' where s': "page_free_order start order s = Some s'" "pages_ok (A - {(order, start)}) s'"
    using page_free_order_ok [OF Cons.prems(1)] by blast
  have "block_of ` set slabs \<subseteq> A - {(order, start)}" using Cons.prems(2,3) bp by auto
  with Cons.IH [OF s'(2)] Cons.prems(2,4) obtain t where
    "free_blocks slabs s' = Some t" "pages_ok (A - {(order, start)} - block_of ` set slabs) t" by auto
  moreover have "A - {(order, start)} - block_of ` set slabs = A - block_of ` set (p # slabs)" using bp by auto
  ultimately show ?case using s'(1) o p by (simp add: page_free_n_def)
qed simp


section \<open>Allocation\<close>

lemma group_with_Some: "group_with order s = Some i \<Longrightarrow> i < length (pagegroup_list s) \<and> pg_freelist (pagegroup_list s ! i) order \<noteq> []"
  by (auto simp: group_with_def find_Some_iff)

lemma group_with_None: "group_with order s = None \<longleftrightarrow> (\<forall>g \<in> set (pagegroup_list s). pg_freelist g order = [])"
  by (auto simp: group_with_def find_None_iff all_set_conv_all_nth)

text \<open>A group from which a block can be taken: splitting may have left two free buddies at its head.\<close>

definition ready :: "block set \<Rightarrow> pages \<Rightarrow> nat \<Rightarrow> nat \<Rightarrow> pagegroup \<Rightarrow> bool" where
  "ready A s order i g \<longleftrightarrow> i < length (pagegroup_list s) \<and> same_range (pagegroup_list s ! i) g \<and> core (own A (pagegroup_list s ! i)) g
     \<and> fpages g = fpages (pagegroup_list s ! i) \<and> pg_freelist g order \<noteq> [] \<and> no_buddies (set_list order (tl (pg_freelist g order)) g)"

lemma set_tl_subset: "set (tl xs) \<subseteq> set xs"
  by (cases xs) auto

lemma no_buddies_tl: "no_buddies g \<Longrightarrow> no_buddies (set_list order (tl (pg_freelist g order)) g)"
  by (erule no_buddies_mono) (simp_all add: set_tl_subset)

lemma ready_now: "pages_ok A s \<Longrightarrow> group_with order s = Some i \<Longrightarrow> ready A s order i (pagegroup_list s ! i)"
  using group_with_Some pages_okD(1,2) no_buddies_tl unfolding ready_def by simp

definition fresh :: "block set \<Rightarrow> block \<Rightarrow> bool" where
  "fresh A b \<longleftrightarrow> b \<notin> A \<and> (\<forall>c \<in> A. blk c \<inter> blk b = {})"

lemma freshD:
  assumes "fresh A (order, a)"
  shows "\<forall>(p, c) \<in> A. {c..<c + block_size p} \<inter> {a..<a + block_size order} = {}"
proof clarify
  fix p c assume "(p, c) \<in> A"
  then have "blk (p, c) \<inter> blk (order, a) = {}" using assms unfolding fresh_def by blast
  then show "{c..<c + block_size p} \<inter> {a..<a + block_size order} = {}" by (simp only: blk_def fst_conv snd_conv)
qed

lemma take_ready:
  assumes ok: "pages_ok A s" and rd: "ready A s order i g" and lt: "order < PAGE_NSIZES"
  shows "\<exists>a g'. take_free order g = Some (a, g') \<and> fresh A (order, a)
    \<and> pages_ok (insert (order, a) A) (set_group i g' (s\<lparr>page_freecount := page_freecount s - 2 ^ order\<rparr>))"
proof -
  let ?g = "pagegroup_list s ! i"
  from rd have i: "i < length (pagegroup_list s)" and r: "same_range ?g g" and c: "core (own A ?g) g" and n: "fpages g = fpages ?g"
    and nb: "no_buddies (set_list order (tl (pg_freelist g order)) g)" and "pg_freelist g order \<noteq> []" by (simp_all add: ready_def)
  then obtain a rest where h: "pg_freelist g order = a # rest" by (cases "pg_freelist g order") auto
  obtain g' where t: "take_free order g = Some (a, g')" and c': "core (insert (order, a) (own A ?g)) g'" and r': "same_range g g'"
    and fl: "pg_freelist g' = (pg_freelist g)(order := rest)" and n': "fpages g = fpages g' + 2 ^ order" by (rule core_take [OF c lt h])
  have "a \<in> set (pg_freelist g order)" by (simp add: h)
  then have fg: "fits g (order, a)" and free: "(order, a) \<in> free_set g" using core_free_fits(1) [OF c lt] lt by (simp_all add: free_set_def)
  have f: "fits ?g (order, a)" using fg unfolding same_range_cong(1) [OF r] .
  have "fresh A (order, a)"
    unfolding fresh_def
  proof (intro conjI ballI)
    show new: "(order, a) \<notin> A" using coreD(4) [OF c] free f by (auto simp: own_def)
    show "blk b \<inter> blk (order, a) = {}" if b: "b \<in> A" for b
    proof -
      obtain j where j: "j < length (pagegroup_list s)" "fits (pagegroup_list s ! j) b" using pages_okD(4) [OF ok b] by blast
      show ?thesis
      proof (cases "j = i")
        case True
        then have "b \<in> own A ?g" using b j(2) by (simp add: own_def)
        then show ?thesis using parts_disjoint [OF coreD(3) [OF c], of b "(order, a)"] free new b by blast
      next
        case False
        show ?thesis by (rule apart_fits [OF pages_okD(3) [OF ok] j(1) i False j(2) f])
      qed
    qed
  qed
  moreover have nb': "no_buddies g'" by (rule no_buddies_mono [OF nb]) (use r' h fl in \<open>auto simp: same_range_def set_list_def\<close>)
  have rr: "same_range ?g g'" by (rule same_range_trans [OF r r'])
  have "own (insert (order, a) A) ?g = insert (order, a) (own A ?g)" using f by (auto simp: own_def)
  then have "pages_ok (insert (order, a) A) (set_group i g' (s\<lparr>page_freecount := page_freecount s - 2 ^ order\<rparr>))"
    using c' f n' [unfolded n] by (intro pages_ok_set [OF ok i rr _ nb']) auto
  ultimately show ?thesis using t by blast
qed

lemma split_search_ok:
  assumes "pages_ok A s" and "\<forall>p \<in> set ps. order < p \<and> p < PAGE_NSIZES"
  shows "(split_search order ps s = Some (None, s) \<and> (\<forall>p \<in> set ps. group_with p s = None))
    \<or> (\<exists>i g. split_search order ps s = Some (Some i, set_group i g s) \<and> ready A s order i g)"
  using assms(2)
proof (induction ps)
  case (Cons p ps)
  show ?case
  proof (cases "group_with p s")
    case None then show ?thesis using Cons by auto
  next
    case (Some i)
    have rd: "ready A s p i (pagegroup_list s ! i)" by (rule ready_now [OF assms(1) Some])
    have p: "order + (p - order) = p" "p < PAGE_NSIZES" using Cons.prems by auto
    from split_down_ok [of "own A (pagegroup_list s ! i)" "pagegroup_list s ! i" order "p - order", unfolded p(1)] rd p(2)
    obtain g where "split_down (pagegroup_list s ! i) order (p - order) = Some g" "ready A s order i g"
      unfolding ready_def by auto
    moreover from this have "split_search order (p # ps) s = Some (Some i, set_group i g s)" using Some by (simp add: ready_def)
    ultimately show ?thesis by blast
  qed
qed simp

lemma set_group_again: "i < length (pagegroup_list s) \<Longrightarrow>
    pagegroup_list (set_group i g s) ! i = g \<and> page_freecount (set_group i g s) = page_freecount s
    \<and> set_group i g' (set_group i g s\<lparr>page_freecount := n\<rparr>) = set_group i g' (s\<lparr>page_freecount := n\<rparr>)"
  by (simp add: set_group_def)

text \<open>What the caller of \<^verbatim>\<open>_page_alloc_order\<close> gets.\<close>

definition alloc_post :: "(nat \<times> 32 word) list \<Rightarrow> nat \<Rightarrow> block set \<Rightarrow> pages \<Rightarrow> nat option \<Rightarrow> pages \<Rightarrow> bool" where
  "alloc_post slabs order A s r s' \<longleftrightarrow>
     (case r of
        Some a \<Rightarrow> fresh A (order, a) \<and> pages_ok (insert (order, a) A) s'
      | None \<Rightarrow> pages_ok (A - block_of ` set slabs) s' \<and> (\<forall>p < PAGE_NSIZES. order \<le> p \<longrightarrow> (\<forall>g \<in> set (pagegroup_list s). pg_freelist g p = [])))"

definition slabs_ok :: "(nat \<times> 32 word) list \<Rightarrow> block set \<Rightarrow> bool" where
  "slabs_ok slabs A \<longleftrightarrow> distinct (map block_of slabs) \<and> block_of ` set slabs \<subseteq> A \<and> (\<forall>p \<in> set slabs. order_of (snd p) \<noteq> None)"

lemma page_alloc_order_ok:
  assumes ok: "pages_ok A s" and lt: "order < PAGE_NSIZES" and sl: "slabs_ok slabs A"
  shows "\<exists>r s'. page_alloc_order slabs order s = Some (r, s') \<and> alloc_post slabs order A s r s'"
proof (cases "group_with order s")
  case (Some i)
  from take_ready [OF ok ready_now [OF ok Some] lt] show ?thesis using Some by (auto simp: page_alloc_order_def alloc_post_def)
next
  case None
  have "\<forall>p \<in> set [order + 1..<PAGE_NSIZES]. order < p \<and> p < PAGE_NSIZES" by auto
  from split_search_ok [OF ok this] show ?thesis
  proof (elim disjE exE conjE)
    assume n: "split_search order [order + 1..<PAGE_NSIZES] s = Some (None, s)" "\<forall>p \<in> set [order + 1..<PAGE_NSIZES]. group_with p s = None"
    have "group_with p s = None" if "order \<le> p" "p < PAGE_NSIZES" for p
      using None n(2) that by (cases "p = order") (auto simp del: upt_rec_numeral)
    then have none: "\<forall>p < PAGE_NSIZES. order \<le> p \<longrightarrow> (\<forall>g \<in> set (pagegroup_list s). pg_freelist g p = [])" unfolding group_with_None by blast
    obtain s' where "free_blocks slabs s = Some s'" "pages_ok (A - block_of ` set slabs) s'"
      using free_blocks_ok [OF ok, of slabs] sl unfolding slabs_ok_def by blast
    then show ?thesis using None n(1) none by (intro exI) (auto simp: page_alloc_order_def page_split_def alloc_post_def simp del: upt_rec_numeral)
  next
    fix i g
    assume s: "split_search order [order + 1..<PAGE_NSIZES] s = Some (Some i, set_group i g s)" and rd: "ready A s order i g"
    have "i < length (pagegroup_list s)" using rd by (simp add: ready_def)
    then show ?thesis using None s take_ready [OF ok rd lt] set_group_again [of i s g]
      by (auto simp: page_alloc_order_def page_split_def alloc_post_def simp del: upt_rec_numeral)
  qed
qed



section \<open>The page interface\<close>

text \<open>
  What the clients of the allocator use of it: single pages, which they hold from the call that
  gets one to the call that gives it back.
\<close>

locale page_source =
  fixes rep :: "block set \<Rightarrow> 's \<Rightarrow> bool"
    and spare :: "'k \<Rightarrow> block set \<Rightarrow> bool"
    and given :: "'k \<Rightarrow> block set"
    and get_page :: "'k \<Rightarrow> 's \<Rightarrow> (nat option \<times> 's) option"
    and give_page :: "nat \<Rightarrow> 's \<Rightarrow> 's option"
  assumes get_law: "\<lbrakk> rep A s; spare k A \<rbrakk> \<Longrightarrow> \<exists>r s'. get_page k s = Some (r, s')
      \<and> (\<forall>a. r = Some a \<longrightarrow> (0, a) \<notin> A \<and> rep (insert (0, a) A) s') \<and> (r = None \<longrightarrow> rep (A - given k) s')"
    and give_law: "\<lbrakk> rep A s; (0, a) \<in> A \<rbrakk> \<Longrightarrow> \<exists>s'. give_page a s = Some s' \<and> rep (A - {(0, a)}) s'"
begin

lemma got_page:
  assumes "rep A s" and "spare k A" and "get_page k s = Some (Some a, s')"
  shows "(0, a) \<notin> A" "rep (insert (0, a) A) s'"
  using get_law [OF assms(1,2)] assms(3) by auto

lemma get_give:
  assumes "rep A s" and "spare k A" and "get_page k s = Some (Some a, s')"
  shows "\<exists>s''. give_page a s' = Some s'' \<and> rep A s''"
proof -
  have "insert (0, a) A - {(0, a)} = A" using got_page(1) [OF assms] by blast
  then show ?thesis using give_law [OF got_page(2) [OF assms], of a] by simp
qed

end

interpretation kp: page_source pages_ok slabs_ok "\<lambda>slabs. block_of ` set slabs" page_alloc page_free
proof
  fix A s k assume "pages_ok A s" and "slabs_ok k A"
  then obtain r s' where "page_alloc_order k 0 s = Some (r, s')" "alloc_post k 0 A s r s'" using page_alloc_order_ok [of A s 0 k] by auto
  then show "\<exists>r s'. page_alloc k s = Some (r, s') \<and> (\<forall>a. r = Some a \<longrightarrow> (0, a) \<notin> A \<and> pages_ok (insert (0, a) A) s')
      \<and> (r = None \<longrightarrow> pages_ok (A - block_of ` set k) s')"
    by (cases r) (auto simp: page_alloc_def alloc_post_def fresh_def)
next
  fix A s and a :: nat assume "pages_ok A s" and "(0, a) \<in> A"
  then show "\<exists>s'. page_free a s = Some s' \<and> pages_ok (A - {(0, a)}) s'" using page_free_order_ok [of A s 0 a] by (auto simp: page_free_def)
qed

section \<open>Creation\<close>

text \<open>A range whose pages, less those of the bookkeeping, are a whole number of the largest blocks.\<close>

lemma small_blocks_none: "2 ^ 7 dvd npages \<Longrightarrow> \<forall>order \<in> set os. order < 7 \<Longrightarrow> small_blocks os npages e (\<lambda>_. []) = (e, \<lambda>_. [])"
proof (induction os)
  case (Cons order os)
  obtain k where "npages = 2 ^ 7 * k" using Cons.prems(1) by blast
  also have "(2::nat) ^ 7 = 2 ^ order * 2 ^ (7 - order)" using Cons.prems(2) by (simp flip: power_add)
  finally have "npages div 2 ^ order = 2 ^ (7 - order) * k" by simp
  moreover have "even ((2::nat) ^ (7 - order) * k)" using Cons.prems(2) by simp
  ultimately show ?case using Cons by (simp add: fun_upd_idem even_iff_mod_2_eq_zero)
qed simp

lemma big_blocks_eq:
  "block_size 7 dvd e - current \<Longrightarrow> current \<le> e \<Longrightarrow>
   big_blocks current e as = rev (map (\<lambda>k. current + k * block_size 7) [0..<(e - current) div block_size 7]) @ as"
proof (induction current e as rule: big_blocks.induct)
  case (1 current e as)
  show ?case
  proof (cases "current < e")
    case False then show ?thesis using 1 by (subst big_blocks.simps) simp
  next
    case True
    obtain n where n: "e - current = block_size 7 * Suc n" using 1(2) True by (metis dvdE gr0_conv_Suc less_numeral_extra(3) mult_0_right neq0_conv zero_less_diff)
    then have e: "e = current + block_size 7 + block_size 7 * n" using True by simp
    then have le: "current + block_size 7 \<le> e" and d: "e - (current + block_size 7) = block_size 7 * n" by simp_all
    have "big_blocks current e as = big_blocks (current + block_size 7) e (current # as)" using True by (subst big_blocks.simps) simp
    also have "\<dots> = rev (map (\<lambda>k. current + block_size 7 + k * block_size 7) [0..<n]) @ current # as"
      using 1(1) True le d by simp
    also have "\<dots> = rev (map (\<lambda>k. current + k * block_size 7) [0..<Suc n]) @ as"
    proof -
      have "[0..<Suc n] = 0 # map Suc [0..<n]" by (simp add: upt_conv_Cons map_Suc_upt del: upt_Suc)
      then show ?thesis by (simp add: o_def add.assoc del: upt_Suc)
    qed
    finally show ?thesis using n by simp
  qed
qed

definition whole :: "pagegroup \<Rightarrow> bool" where
  "whole g \<longleftrightarrow> PAGE_BYTES dvd pg_baseaddr g \<and> block_size 7 dvd pg_endaddr g - pg_baseaddr g"

text \<open>
  Every index that is computed for such a group is inside the bitmap of its order, which has at
  least a bit for each block of that order.
\<close>

lemma index_in_bitmap:
  assumes w: "whole g" and i: "calculate_index g order a = Some i"
  shows "i < (pg_endaddr g - pg_baseaddr g) div PAGE_BYTES div 2 ^ order"
proof -
  let ?n = "pg_endaddr g - pg_baseaddr g" and ?d = "PAGE_BYTES * 2 ^ order"
  have o: "order < PAGE_NSIZES" "a - pg_baseaddr g < ?n" and ie: "i = (a - pg_baseaddr g) div ?d"
    using i by (auto simp: calculate_index_def Let_def div_mult2_eq [symmetric] mult.commute split: if_splits)
  have "(2 :: nat) ^ 7 = 2 ^ order * 2 ^ (7 - order)" using o(1) by (simp flip: power_add)
  then have "?d dvd block_size 7" unfolding block_size_def by (metis dvd_triv_left mult.assoc mult.commute)
  then have "?d dvd ?n" using w unfolding whole_def by (metis dvd_trans)
  then obtain k where k: "?n = ?d * k" by blast
  then have "i < k" using o(2) unfolding ie by (simp add: less_mult_imp_div_less mult.commute)
  then show ?thesis unfolding k div_mult2_eq [symmetric] by simp
qed

lemma pagegroup_create_blocks:
  assumes c: "pagegroup_create start e = Some g" and w: "whole g"
  shows "pg_baseaddr g \<le> pg_endaddr g" "pg_map g = (\<lambda>_ _. False)"
    "pg_freelist g = (\<lambda>_. [])(7 := rev (map (\<lambda>k. pg_baseaddr g + k * block_size 7) [0..<(pg_endaddr g - pg_baseaddr g) div block_size 7]))"
proof -
  define e1 where "e1 = e - SIZEOF_PAGEGROUP - bitmap_bytes ((e - start) div PAGE_BYTES)"
  define e' where "e' = e1 - e1 mod PAGE_BYTES"
  obtain e'' fl where sm: "small_blocks [0..<PAGE_NSIZES - 1] ((e' - start) div PAGE_BYTES) e' (\<lambda>_. []) = (e'', fl)" by (rule prod.exhaust)
  have create: "Some g = pagegroup_create start e" using c by simp
  have le: "start \<le> e'" and g: "g = \<lparr>pg_freelist = fl(7 := big_blocks start e'' []), pg_map = (\<lambda>_ _. False), pg_baseaddr = start, pg_endaddr = e'\<rparr>"
    using create unfolding pagegroup_create_def Let_def e1_def [symmetric] e'_def [symmetric] sm
    by (simp_all add: split: if_splits)
  have d: "block_size 7 dvd e' - start" using w by (simp add: whole_def g)
  then obtain k where "e' - start = block_size 7 * k" by (rule dvdE)
  then have "(e' - start) div PAGE_BYTES = 2 ^ 7 * k" by (simp add: block_size_def)
  then have "2 ^ 7 dvd (e' - start) div PAGE_BYTES" by simp
  from small_blocks_none [OF this, of "[0..<PAGE_NSIZES - 1]" e'] sm have "e'' = e'" "fl = (\<lambda>_. [])" by (simp_all del: upt_rec_numeral)
  then show "pg_baseaddr g \<le> pg_endaddr g" "pg_map g = (\<lambda>_ _. False)"
    "pg_freelist g = (\<lambda>_. [])(7 := rev (map (\<lambda>k. pg_baseaddr g + k * block_size 7) [0..<(pg_endaddr g - pg_baseaddr g) div block_size 7]))"
    using le big_blocks_eq [OF d le, of "[]"] by (simp_all add: g)
qed


lemma big_blk_disjoint: "k \<noteq> l \<Longrightarrow> blk (7, b + k * block_size 7) \<inter> blk (7, b + l * block_size 7) = {}"
proof (induction k l rule: linorder_less_wlog)
  case (less k l)
  then have "Suc k * block_size 7 \<le> l * block_size 7" by (intro mult_le_mono1) simp
  then show ?case by (auto simp: blk_def)
qed (auto simp: Int_commute)

lemma big_blk_cover: "(\<Union>k<n. blk (7, b + k * block_size 7)) = {b..<b + n * block_size 7}"
  by (induction n) (auto simp: blk_def lessThan_Suc)

lemma pagegroup_create_ok:
  assumes c: "pagegroup_create start e = Some g" and w: "whole g"
  shows "core {} g \<and> no_buddies g \<and> fpages g = (pg_endaddr g - pg_baseaddr g) div PAGE_BYTES"
proof -
  let ?n = "(pg_endaddr g - pg_baseaddr g) div block_size 7" and ?a = "\<lambda>k. pg_baseaddr g + k * block_size 7"
  note p = pagegroup_create_blocks [OF c w]
  have n: "pg_baseaddr g + ?n * block_size 7 = pg_endaddr g" using w p(1) by (simp add: whole_def)
  have r: "range_ok g" using w p(1) by (simp add: range_ok_def whole_def)
  have low: "pg_freelist g order = []" if "order < 7" for order using that by (simp add: p(3))
  have fs: "free_set g = (\<lambda>k. (7, ?a k)) ` {..<?n}" by (auto simp: free_set_def p(3) image_def)
  have "fits g (7, ?a k)" if "k < ?n" for k
  proof -
    have "Suc k * block_size 7 \<le> ?n * block_size 7" using that by (intro mult_le_mono1) simp
    then show ?thesis using n by (simp add: fits_def)
  qed
  moreover have "blk b \<inter> blk c = {}" if "b \<in> free_set g" "c \<in> free_set g" "b \<noteq> c" for b c
  proof -
    obtain k l where "b = (7, ?a k)" "c = (7, ?a l)" using \<open>b \<in> free_set g\<close> \<open>c \<in> free_set g\<close> unfolding fs by (elim imageE)
    then show ?thesis using big_blk_disjoint [of k l "pg_baseaddr g"] \<open>b \<noteq> c\<close> by auto
  qed
  moreover have "\<Union> (blk ` free_set g) = {pg_baseaddr g..<pg_endaddr g}"
    using big_blk_cover [where n = ?n and b = "pg_baseaddr g"] unfolding fs n by (simp add: image_image)
  ultimately have "parts g (free_set g)" unfolding parts_def by (intro conjI ballI impI) (auto simp: fs)
  moreover have "inj_on ?a {..<?n}" by (simp add: inj_on_def)
  then have "distinct (pg_freelist g order)" for order by (simp add: p(3) distinct_map lessThan_atLeast0)
  moreover have "bits_ok g" by (simp add: bits_ok_def p(2) low)
  moreover have "no_buddies g" by (simp add: no_buddies_def low)
  moreover have "fpages g = ?n * 2 ^ 7" by (simp add: fpages_def p(3) eval_nat_numeral lessThan_Suc)
  moreover have "?n * 2 ^ 7 = (pg_endaddr g - pg_baseaddr g) div PAGE_BYTES"
  proof -
    obtain k where "pg_endaddr g - pg_baseaddr g = block_size 7 * k" using w unfolding whole_def by blast
    then show ?thesis by (simp add: block_size_def)
  qed
  ultimately show ?thesis using r by (simp add: core_def)
qed

lemma page_add_range_ok:
  assumes ok: "pages_ok A s" and run: "page_add_range start e s = Some s'"
    and w: "\<And>g. pagegroup_list s' = pagegroup_list s @ [g] \<Longrightarrow> whole g" and ap: "apart (pagegroup_list s')"
  shows "pages_ok A s'"
proof (cases "s' = s")
  case False
  then obtain g where g: "pagegroup_create (start - start mod PAGE_BYTES) (e - e mod PAGE_BYTES) = Some g"
    and s': "s' = s\<lparr>pagegroup_list := pagegroup_list s @ [g], page_freecount := page_freecount s + of_nat ((pg_endaddr g - pg_baseaddr g) div PAGE_BYTES)\<rparr>"
    using run by (auto simp: page_add_range_def Let_def bind_eq_Some_conv split: if_splits)
  have wg: "whole g" by (rule w) (simp add: s')
  note c = pagegroup_create_ok [OF g wg]
  have "own A g = {}"
  proof (rule equals0I)
    fix b assume b: "b \<in> own A g"
    then obtain i where i: "i < length (pagegroup_list s)" "fits (pagegroup_list s ! i) b" using pages_okD(4) [OF ok, of b] unfolding own_def by blast
    then show False using apart_unique [OF ap, of i "length (pagegroup_list s)" b] b by (simp add: s' nth_append own_def)
  qed
  then have "group_ok A g" using c by (simp add: group_ok_def)
  then show ?thesis using ok ap c unfolding pages_ok_def s' by (simp add: fpages_def)
qed (use ok in simp)


section \<open>Coalescing and counting\<close>

text \<open>Two blocks that meet are nested, the smaller in the larger.\<close>

lemma nested:
  assumes f: "fits g (q, x)" "fits g (p, c)" and le: "q \<le> p" and y: "y \<in> blk (q, x)" "y \<in> blk (p, c)"
  shows "c \<le> x" "x + block_size q \<le> c + block_size p"
proof -
  let ?B = "block_size q" and ?b = "pg_baseaddr g"
  obtain i where i: "x = ?b + ?B * i" using fitsD(2,3) [OF f(1)] by (metis dvdE le_add_diff_inverse)
  obtain r where r: "block_size p = ?B * r" using block_size_dvd [OF le] by blast
  obtain k where k: "c = ?b + ?B * r * k" using fitsD(2,3) [OF f(2)] unfolding r by (metis dvdE le_add_diff_inverse)
  have "?b + ?B * r * k \<le> y" "y < ?b + ?B * i + ?B" "?b + ?B * i \<le> y" "y < ?b + ?B * r * k + ?B * r"
    using y r by (simp_all add: blk_def i k)
  then have "?B * (r * k) < ?B * (i + 1)" "?B * i < ?B * (r * k + r)" by (simp_all add: algebra_simps)
  then have m: "r * k < i + 1" "i < r * k + r" unfolding mult_less_cancel1 by simp_all
  then have "?B * (r * k) \<le> ?B * i" "?B * (i + 1) \<le> ?B * (r * k + r)" by (intro mult_le_mono2, simp)+
  then show "c \<le> x" "x + ?B \<le> c + block_size p" unfolding i k r by (simp_all add: algebra_simps)
qed

lemma coalesced:
  assumes c: "core {} g" and nb: "no_buddies g" and lt: "order < PAGE_NSIZES - 1"
  shows "pg_freelist g order = []"
proof (rule ccontr)
  let ?P = "\<lambda>q. q < PAGE_NSIZES - 1 \<and> pg_freelist g q \<noteq> []"
  assume "pg_freelist g order \<noteq> []"
  then obtain q where q: "q < PAGE_NSIZES - 1" "pg_freelist g q \<noteq> []" and least: "\<And>p. p < q \<Longrightarrow> \<not> ?P p"
    using lt exists_least_iff [of ?P] by blast
  then obtain a where a: "a \<in> set (pg_freelist g q)" by (meson list.set_sel(1))
  have q8: "q < PAGE_NSIZES" using q(1) by simp
  note f = core_free_fits(1) [OF c q8 a]
  define x where "x = pair_of g q a"
  have fx: "fits g (q + 1, x)" unfolding x_def by (rule pair_fits [OF coreD(1) [OF c] f q(1)])
  define y where "y = (if a = x then x + block_size q else x)"
  have xy: "{a, y} = {x, x + block_size q}" using pair_cases [OF f] unfolding x_def [symmetric] y_def by auto
  then have yx: "y \<in> blk (q + 1, x)" "a \<in> blk (q + 1, x)" and fy: "fits g (q, y)" unfolding blk_halves using fits_pair [OF fx] by (auto simp: doubleton_eq_iff)
  have "y \<in> {pg_baseaddr g..<pg_endaddr g}" using fitsD(2,5) [OF fy] by simp
  then obtain p d where free: "(p, d) \<in> free_set g" and yd: "y \<in> blk (p, d)"
    using coreD(3) [OF c] unfolding parts_def by (metis UN_E Un_empty_right prod.exhaust)
  have fd: "fits g (p, d)" using parts_fits [OF coreD(3) [OF c]] free by blast
  have "p = q"
  proof (rule ccontr)
    assume "p \<noteq> q"
    then have qp: "q + 1 \<le> p" using least [of p] free q(1) unfolding free_set_iff by fastforce
    have "a \<in> blk (p, d)" using nested [OF fx fd qp yx(1) yd] yx(2) by (auto simp: blk_def)
    then have "blk (p, d) \<inter> blk (q, a) \<noteq> {}" using blk_start [of a q] by blast
    then show False using parts_disjoint [OF coreD(3) [OF c], of "(p, d)" "(q, a)"] free a q8 \<open>p \<noteq> q\<close> by (simp add: free_set_iff)
  qed
  then have "y = d" using nested [OF fy _ _ blk_start, of p d] nested [OF fd fy _ yd] fd yd by simp
  then have "y \<in> set (pg_freelist g q)" using free \<open>p = q\<close> by (simp add: free_set_iff)
  with a have "{a, y} \<subseteq> set (pg_freelist g q)" by simp
  then show False using nb fx q(1) unfolding xy no_buddies_def by auto
qed

lemma core_count:
  assumes c: "core A g"
  shows "finite A" "PAGE_BYTES * fpages g + (\<Sum>b \<in> A. block_size (fst b)) = pg_endaddr g - pg_baseaddr g"
proof -
  let ?B = "free_set g \<union> A"
  note p = coreD(3) [OF c]
  have disj: "\<forall>b \<in> ?B. \<forall>d \<in> ?B. b \<noteq> d \<longrightarrow> blk b \<inter> blk d = {}" and cover: "\<Union> (blk ` ?B) = {pg_baseaddr g..<pg_endaddr g}"
    using p unfolding parts_def by blast+
  have "inj_on blk ?B" using disj blk_nonempty unfolding inj_on_def by (metis Int_absorb)
  moreover have "finite (blk ` ?B)" by (rule finite_UnionD) (simp only: cover finite_atLeastLessThan)
  ultimately have fin: "finite ?B" by (rule finite_imageD [rotated])
  then show finA: "finite A" by simp
  have "pg_endaddr g - pg_baseaddr g = card (\<Union> (blk ` ?B))" unfolding cover by simp
  also have "\<dots> = (\<Sum>b \<in> ?B. block_size (fst b))" using card_UN_disjoint [OF fin _ disj] by (simp add: blk_def)
  also have "\<dots> = (\<Sum>b \<in> free_set g. block_size (fst b)) + (\<Sum>b \<in> A. block_size (fst b))"
    using fin coreD(4) [OF c] by (intro sum.union_disjoint) auto
  also have "free_set g = (SIGMA q:{..<PAGE_NSIZES}. set (pg_freelist g q))" by (auto simp: free_set_def)
  also have "(\<Sum>b \<in> (SIGMA q:{..<PAGE_NSIZES}. set (pg_freelist g q)). block_size (fst b)) = (\<Sum>q<PAGE_NSIZES. \<Sum>a \<in> set (pg_freelist g q). block_size q)"
    by (subst sum.Sigma) (auto simp: split_def)
  also have "\<dots> = (\<Sum>q<PAGE_NSIZES. PAGE_BYTES * (length (pg_freelist g q) * 2 ^ q))"
    by (rule sum.cong) (use coreD(2) [OF c] in \<open>simp_all add: distinct_card block_size_def\<close>)
  finally show "PAGE_BYTES * fpages g + (\<Sum>b \<in> A. block_size (fst b)) = pg_endaddr g - pg_baseaddr g"
    unfolding fpages_def sum_distrib_left by simp
qed


section \<open>What callers see\<close>

text \<open>
  The states that callers bring about, with the blocks they hold: ranges of memory are added,
  which do not overlap; blocks are asked for and given back.  A caller that frees gives the size
  it asked for, or one of the same order.
\<close>

inductive page_run :: "block set \<Rightarrow> pages \<Rightarrow> bool" where
  run_init: "page_run {} page_init"
| run_range: "page_run A s \<Longrightarrow> page_add_range start e s = Some s' \<Longrightarrow> apart (pagegroup_list s') \<Longrightarrow> page_run A s'"
| run_alloc: "page_run A s \<Longrightarrow> slabs_ok slabs A \<Longrightarrow> order_of npages = Some order \<Longrightarrow>
    page_alloc_n slabs npages s = Some (Some a, s') \<Longrightarrow> page_run (insert (order, a) A) s'"
| run_none: "page_run A s \<Longrightarrow> slabs_ok slabs A \<Longrightarrow> order_of npages = Some order \<Longrightarrow>
    page_alloc_n slabs npages s = Some (None, s') \<Longrightarrow> page_run (A - block_of ` set slabs) s'"
| run_free: "page_run A s \<Longrightarrow> (order, a) \<in> A \<Longrightarrow> order_of npages = Some order \<Longrightarrow>
    page_free_n a npages s = Some s' \<Longrightarrow> page_run (A - {(order, a)}) s'"

text \<open>
  The code relies on more than this: every group must come out as a whole number of the largest
  blocks, 128 pages each.  No operation changes the range of a group, so that it is a property of
  the ranges that were added.
\<close>

definition whole_groups :: "pages \<Rightarrow> bool" where
  "whole_groups s \<longleftrightarrow> (\<forall>g \<in> set (pagegroup_list s). whole g)"

definition ranges :: "pages \<Rightarrow> (nat \<times> nat) list" where
  "ranges s = map (\<lambda>g. (pg_baseaddr g, pg_endaddr g)) (pagegroup_list s)"

lemma whole_groups_ranges: "ranges s' = ranges s \<Longrightarrow> whole_groups s' = whole_groups s"
proof -
  have "whole_groups s \<longleftrightarrow> (\<forall>(b, e) \<in> set (ranges s). PAGE_BYTES dvd b \<and> block_size 7 dvd e - b)" for s
    by (simp add: whole_groups_def ranges_def whole_def)
  then show "ranges s' = ranges s \<Longrightarrow> whole_groups s' = whole_groups s" by simp
qed

lemma unlink_range: "unlink_free a g = Some g' \<Longrightarrow> same_range g g'"
  by (auto simp: unlink_free_def split: option.splits)

lemma take_range: "take_free order g = Some (a, g') \<Longrightarrow> same_range g g'"
  by (auto simp: take_free_def bind_eq_Some_conv Let_def split: list.splits if_splits)

lemma split_range: "split_down g order n = Some g' \<Longrightarrow> same_range g g'"
proof (induction n arbitrary: g)
  case (Suc n)
  then obtain h where h: "page_split_block g (order + Suc n) = Some h" "split_down h order n = Some g'" by (auto simp: bind_eq_Some_conv)
  then have "same_range g h" by (auto simp: page_split_block_def bind_eq_Some_conv Let_def dest!: take_range)
  then show ?case using Suc.IH [OF h(2)] same_range_trans by blast
qed simp

lemma join_range: "page_join g order addr = Some g' \<Longrightarrow> same_range g g'"
proof (induction g order addr rule: page_join.induct)
  case (1 g order addr)
  show ?case
  proof (cases "\<exists>i. order < PAGE_NSIZES - 1 \<and> calculate_index g (order + 1) addr = Some i \<and> \<not> bit_check (order + 1) i g")
    case False then show ?thesis using "1.prems" by (subst (asm) page_join.simps) (auto split: if_splits simp: bind_eq_Some_conv)
  next
    case True
    let ?b = "buddy_of g order addr"
    obtain i where i: "order < PAGE_NSIZES - 1" "calculate_index g (order + 1) addr = Some i" "\<not> bit_check (order + 1) i g" using True by blast
    obtain g1 g2 g3 where u: "unlink_free addr g = Some g1" "unlink_free ?b g1 = Some g2"
      "(if order + 1 < PAGE_NSIZES - 1 then do { i \<leftarrow> calculate_index (insert_free (order + 1) (min addr ?b) g2) (order + 2) (min addr ?b);
          Some (bit_flip (order + 2) i (insert_free (order + 1) (min addr ?b) g2)) } else Some (insert_free (order + 1) (min addr ?b) g2)) = Some g3"
      "page_join g3 (order + 1) (min addr ?b) = Some g'" and k: "(addr - pg_baseaddr g) mod 2 ^ order = 0"
      using "1.prems" [unfolded page_join.simps [of g order addr]] i by (auto simp: bind_eq_Some_conv Let_def simp del: One_nat_def split del: if_split)
    have "same_range g g2" using unlink_range [OF u(1)] unlink_range [OF u(2)] same_range_trans by blast
    then have "same_range g g3" using u(3) by (auto simp: bind_eq_Some_conv split: if_splits)
    moreover have "same_range g3 g'" by (rule "1.IH" [OF i _ refl u(1,2) refl refl u(3,4)]) (use k in simp)
    ultimately show ?thesis by (rule same_range_trans)
  qed
qed

lemma set_group_ranges: "same_range (pagegroup_list s ! i) g \<Longrightarrow> ranges (set_group i g s) = ranges s"
  by (cases "i < length (pagegroup_list s)") (auto simp: ranges_def set_group_def same_range_def nth_list_update intro!: nth_equalityI)

lemma freecount_ranges [simp]: "ranges (s\<lparr>page_freecount := c\<rparr>) = ranges s" "pagegroup_list (s\<lparr>page_freecount := c\<rparr>) = pagegroup_list s"
  by (simp_all add: ranges_def)

lemma free_order_ranges:
  assumes "page_free_order a order s = Some s'"
  shows "ranges s' = ranges s"
proof (cases "pagegroup_from_address a s")
  case (Some i)
  then obtain g where g: "(if order < PAGE_NSIZES - 1 then do { j \<leftarrow> calculate_index (insert_free order a (pagegroup_list s ! i)) (order + 1) a;
        page_join (bit_flip (order + 1) j (insert_free order a (pagegroup_list s ! i))) order a } else Some (insert_free order a (pagegroup_list s ! i))) = Some g"
    and s': "s' = set_group i g (s\<lparr>page_freecount := page_freecount s + 2 ^ order\<rparr>)"
    using assms by (auto simp: page_free_order_def bind_eq_Some_conv Let_def)
  have "same_range (pagegroup_list s ! i) g" using g by (auto simp: bind_eq_Some_conv split: if_splits dest!: join_range intro: same_range_trans [rotated])
  then show ?thesis using set_group_ranges [of "s\<lparr>page_freecount := page_freecount s + 2 ^ order\<rparr>" i g] by (simp add: s')
qed (use assms in \<open>simp add: page_free_order_def\<close>)

lemma free_n_ranges: "page_free_n a npages s = Some s' \<Longrightarrow> ranges s' = ranges s"
  by (auto simp: page_free_n_def bind_eq_Some_conv dest: free_order_ranges)

lemma free_blocks_ranges: "free_blocks bs s = Some s' \<Longrightarrow> ranges s' = ranges s"
  by (induction bs s rule: free_blocks.induct) (auto simp: bind_eq_Some_conv dest: free_n_ranges)

lemma split_search_ranges: "split_search order ps s = Some (r, s') \<Longrightarrow> ranges s' = ranges s"
  by (induction ps) (auto simp: bind_eq_Some_conv split: option.splits dest!: split_range intro: set_group_ranges)

lemma alloc_n_ranges:
  assumes "page_alloc_n slabs npages s = Some (r, s')"
  shows "ranges s' = ranges s"
proof -
  obtain order q t where o: "(case group_with order s of Some i \<Rightarrow> Some (Some i, s) | None \<Rightarrow> page_split slabs order s) = Some (q, t)"
    "(case q of None \<Rightarrow> Some (None, t) | Some i \<Rightarrow> do { (addr, g) \<leftarrow> take_free order (pagegroup_list t ! i);
       Some (Some addr, set_group i g (t\<lparr>page_freecount := page_freecount t - 2 ^ order\<rparr>)) }) = Some (r, s')"
    using assms by (auto simp: page_alloc_n_def page_alloc_order_def bind_eq_Some_conv)
  have t: "ranges t = ranges s" using o(1)
    by (auto simp: page_split_def bind_eq_Some_conv simp del: upt_rec_numeral split: option.splits dest!: split_search_ranges free_blocks_ranges)
  show ?thesis
  proof (cases q)
    case (Some i)
    then obtain a g where "take_free order (pagegroup_list t ! i) = Some (a, g)" "s' = set_group i g (t\<lparr>page_freecount := page_freecount t - 2 ^ order\<rparr>)"
      using o(2) by (auto simp: bind_eq_Some_conv)
    then show ?thesis using set_group_ranges [of "t\<lparr>page_freecount := page_freecount t - 2 ^ order\<rparr>" i g] take_range t by simp
  qed (use o(2) t in simp)
qed

lemma page_run_ok: "page_run A s \<Longrightarrow> whole_groups s \<Longrightarrow> pages_ok A s"
proof (induction rule: page_run.induct)
  case run_init show ?case by (simp add: page_init_def pages_ok_def apart_def)
next
  case (run_range A s start e s')
  have "whole_groups s"
    using run_range.prems run_range(2) by (auto simp: page_add_range_def bind_eq_Some_conv Let_def whole_groups_def split: if_splits)
  then show ?case by (intro page_add_range_ok [OF run_range.IH run_range(2) _ run_range(3)]) (use run_range.prems in \<open>simp_all add: whole_groups_def\<close>)
next
  case (run_alloc A s slabs npages order a s')
  then have "pages_ok A s" using whole_groups_ranges [OF alloc_n_ranges [OF run_alloc(4)]] by simp
  then show ?case using page_alloc_order_ok [OF _ order_of_bound run_alloc(2)] run_alloc(3,4)
    by (fastforce simp: page_alloc_n_def alloc_post_def)
next
  case (run_none A s slabs npages order s')
  then have "pages_ok A s" using whole_groups_ranges [OF alloc_n_ranges [OF run_none(4)]] by simp
  then show ?case using page_alloc_order_ok [OF _ order_of_bound run_none(2)] run_none(3,4)
    by (fastforce simp: page_alloc_n_def alloc_post_def)
next
  case (run_free A s order a npages s')
  then have ok: "pages_ok A s" using whole_groups_ranges [OF free_n_ranges [OF run_free(4)]] by simp
  show ?case using page_free_order_ok [OF ok run_free(2)] run_free(3,4) by (auto simp: page_free_n_def)
qed

lemma pages_count:
  assumes ok: "pages_ok A s"
  shows "finite A \<and> PAGE_BYTES * sum_list (map fpages (pagegroup_list s)) + (\<Sum>b \<in> A. block_size (fst b))
    = (\<Sum>g \<leftarrow> pagegroup_list s. pg_endaddr g - pg_baseaddr g)"
proof -
  let ?gs = "pagegroup_list s" and ?n = "length (pagegroup_list s)"
  have A: "A = (\<Union>i<?n. own A (?gs ! i))" using pages_okD(4) [OF ok] unfolding own_def by blast
  have fin: "finite (own A (?gs ! i))" if "i < ?n" for i by (rule core_count(1) [OF pages_okD(1) [OF ok that]])
  have "finite (\<Union>i<?n. own A (?gs ! i))" using fin by simp
  then have "finite A" using A by simp
  moreover have "(\<Sum>b \<in> (\<Union>i<?n. own A (?gs ! i)). block_size (fst b)) = (\<Sum>i<?n. \<Sum>b \<in> own A (?gs ! i). block_size (fst b))"
  proof (rule sum.UNION_disjoint)
    show "\<forall>i \<in> {..<?n}. \<forall>j \<in> {..<?n}. i \<noteq> j \<longrightarrow> own A (?gs ! i) \<inter> own A (?gs ! j) = {}"
      using apart_unique [OF pages_okD(3) [OF ok]] unfolding own_def lessThan_iff by blast
  qed (use fin in simp_all)
  moreover have "PAGE_BYTES * sum_list (map fpages ?gs) = (\<Sum>i<?n. PAGE_BYTES * fpages (?gs ! i))"
    by (simp add: sum_list_sum_nth sum_distrib_left lessThan_atLeast0)
  moreover have "(\<Sum>g \<leftarrow> ?gs. pg_endaddr g - pg_baseaddr g) = (\<Sum>i<?n. PAGE_BYTES * fpages (?gs ! i) + (\<Sum>b \<in> own A (?gs ! i). block_size (fst b)))"
    unfolding sum_list_sum_nth length_map lessThan_atLeast0 by (rule sum.cong) (use core_count(2) [OF pages_okD(1) [OF ok]] in simp_all)
  ultimately show ?thesis unfolding sum.distrib using A by simp
qed


text \<open>
  C31. Provided that every group came out as a whole number of 128-page blocks, whatever sequence of
  allocations and frees callers made before, \<^verbatim>\<open>page_alloc_n\<close> of a size of at most 128 pages
  returns, and a block it hands out overlaps none that is held and lies inside the memory that was
  added; it returns nothing only when no free block of that order or a larger one is left.  (Larger
  sizes are a panic.)
\<close>

theorem page_alloc_n_fresh:
  assumes "page_run A s" and "whole_groups s" and "slabs_ok slabs A" and "order_of npages = Some order"
  shows "\<exists>r s'. page_alloc_n slabs npages s = Some (r, s')
    \<and> (case r of
         Some a \<Rightarrow> (\<forall>(p, c) \<in> A. {c..<c + block_size p} \<inter> {a..<a + block_size order} = {})
           \<and> (\<exists>g \<in> set (pagegroup_list s'). pg_baseaddr g \<le> a \<and> a + block_size order \<le> pg_endaddr g)
       | None \<Rightarrow> (\<forall>g \<in> set (pagegroup_list s). \<forall>p. order \<le> p \<longrightarrow> p < PAGE_NSIZES \<longrightarrow> pg_freelist g p = []))"
proof -
  obtain r s' where run: "page_alloc_order slabs order s = Some (r, s')" and post: "alloc_post slabs order A s r s'"
    using page_alloc_order_ok [OF page_run_ok [OF assms(1,2)] order_of_bound [OF assms(4)] assms(3)] by blast
  have n: "page_alloc_n slabs npages s = Some (r, s')" using run assms(4) by (simp add: page_alloc_n_def)
  show ?thesis
  proof (cases r)
    case None then show ?thesis using n post by (simp add: alloc_post_def)
  next
    case (Some a)
    then have "fresh A (order, a)" and ok: "pages_ok (insert (order, a) A) s'" using post by (simp_all add: alloc_post_def)
    then have dis: "\<forall>(p, c) \<in> A. {c..<c + block_size p} \<inter> {a..<a + block_size order} = {}" by (intro freshD)
    obtain g where "g \<in> set (pagegroup_list s')" "fits g (order, a)" using ok unfolding pages_ok_def by blast
    then have "\<exists>g \<in> set (pagegroup_list s'). pg_baseaddr g \<le> a \<and> a + block_size order \<le> pg_endaddr g" using fitsD(2,4) by blast
    then show ?thesis using n dis unfolding Some by (intro exI conjI) (assumption, simp only: option.case simp_thms)
  qed
qed

text \<open>
  C32. Provided that every group came out as a whole number of 128-page blocks, giving back a block
  that is held, whatever was done before, never fails an assertion nor touches memory that is not
  free, adds its pages to the count, and once the last block is back everything has been joined
  into the largest blocks again.
\<close>

theorem page_free_n_coalesces:
  assumes "page_run A s" and "whole_groups s" and "(order, a) \<in> A" and "order_of npages = Some order"
  shows "\<exists>s'. page_free_n a npages s = Some s' \<and> page_free_count s' = page_free_count s + 2 ^ order
    \<and> (A = {(order, a)} \<longrightarrow> (\<forall>g \<in> set (pagegroup_list s'). \<forall>p < PAGE_NSIZES - 1. pg_freelist g p = []))"
proof -
  obtain s' where s': "page_free_order a order s = Some s'" "page_freecount s' = page_freecount s + 2 ^ order" "pages_ok (A - {(order, a)}) s'"
    using page_free_order_ok [OF page_run_ok [OF assms(1,2)] assms(3)] by blast
  have "pg_freelist g p = []" if "A = {(order, a)}" "g \<in> set (pagegroup_list s')" "p < PAGE_NSIZES - 1" for g p
  proof -
    have "group_ok {} g" using s'(3) that(1,2) by (simp add: pages_ok_def)
    then show ?thesis using coalesced [OF _ _ that(3)] by (simp add: group_ok_def own_def)
  qed
  then show ?thesis using s'(1,2) assms(4) by (auto simp: page_free_n_def page_free_count_def)
qed

text \<open>
  C33. Provided that every group came out as a whole number of 128-page blocks,
  \<^verbatim>\<open>page_free_count\<close> is exact after any sequence of allocations and frees: the pages of all
  groups less those of the blocks held.
\<close>

theorem page_free_count_exact:
  assumes "page_run A s" and "whole_groups s"
  shows "page_free_count s = of_nat ((\<Sum>g \<leftarrow> pagegroup_list s. pg_endaddr g - pg_baseaddr g) div PAGE_BYTES - (\<Sum>b \<in> A. 2 ^ fst b))"
proof -
  note ok = page_run_ok [OF assms]
  have "(\<Sum>b \<in> A. block_size (fst b)) = PAGE_BYTES * (\<Sum>b \<in> A. 2 ^ fst b)" by (simp add: block_size_def sum_distrib_right mult.commute)
  then have "(\<Sum>g \<leftarrow> pagegroup_list s. pg_endaddr g - pg_baseaddr g) = PAGE_BYTES * (sum_list (map fpages (pagegroup_list s)) + (\<Sum>b \<in> A. 2 ^ fst b))"
    using pages_count [OF ok] by (simp add: algebra_simps)
  then show ?thesis using pages_okD(5) [OF ok] by (simp add: page_free_count_def)
qed


text \<open>One range of 129 pages: a page of bookkeeping and one block of 128 pages, of which one page is then held.\<close>

definition example_group :: pagegroup where
  "example_group = \<lparr>pg_freelist = (\<lambda>_. [])(7 := [0]), pg_map = (\<lambda>_ _. False), pg_baseaddr = 0, pg_endaddr = 524288\<rparr>"

definition example_pages :: pages where
  "example_pages = \<lparr>pagegroup_list = [example_group], page_freecount = 128\<rparr>"

definition example_held :: pages where
  "example_held = snd (the (page_alloc_n [] 1 example_pages))"

lemma example_create: "pagegroup_create 0 528384 = Some example_group"
proof -
  have "bitmap_bytes 129 = 18" by code_simp
  moreover have "small_blocks [0..<7] 128 524288 (\<lambda>_. []) = (524288, \<lambda>_. [])" by (rule small_blocks_none) auto
  moreover have "big_blocks 0 524288 [] = [0]" by (simp add: big_blocks.simps block_size_def)
  ultimately show ?thesis by (simp add: pagegroup_create_def example_group_def del: upt_rec_numeral)
qed

lemma example_pages_run: "page_run {} example_pages"
proof (rule run_range [OF run_init])
  show "page_add_range 0 528384 page_init = Some example_pages"
    using example_create by (simp add: page_add_range_def page_init_def example_pages_def example_group_def)
  show "apart (pagegroup_list example_pages)" by (simp add: apart_def example_pages_def)
qed

lemma example_whole: "whole_groups example_pages"
  by (simp add: whole_groups_def example_pages_def example_group_def whole_def block_size_def)

lemma example_order: "order_of 1 = Some 0"
  by code_simp

lemma slabs_ok_Nil: "slabs_ok [] A"
  by (simp add: slabs_ok_def)

lemma split_down_numeral:
  "split_down g order (numeral k) = do { g \<leftarrow> page_split_block g (order + numeral k); split_down g order (pred_numeral k) }"
  by (simp add: numeral_eq_Suc)

lemma orders: "[Suc 0..<8] = [Suc 0, 2, 3, 4, 5, 6, 7]"
  by code_simp

lemmas example_eval = orders example_pages_def example_group_def page_alloc_n_def page_alloc_order_def page_split_def group_with_def
  upt_rec_numeral split_down_numeral page_split_block_def take_free_def calculate_index_def set_list_def insert_free_def
  bit_flip_def bit_check_def set_group_def block_size_def example_order Let_def

lemma example_alloc: "page_alloc_n [] 1 example_pages = Some (Some 520192, example_held)"
proof -
  have "map_option fst (page_alloc_n [] 1 example_pages) = Some (Some 520192)" by (simp add: example_eval)
  then show ?thesis by (auto simp: example_held_def)
qed

lemma example_held_run: "page_run {(0, 520192)} example_held"
  using run_alloc [OF example_pages_run slabs_ok_Nil example_order example_alloc] by simp

lemma example_held_whole: "whole_groups example_held"
  using whole_groups_ranges [OF alloc_n_ranges [OF example_alloc]] example_whole by simp

theorem page_alloc_n_fresh_witness:
  "map_option fst (page_alloc_n [] 1 example_held) = Some (Some 516096) \<and> {520192..<520192 + block_size 0} \<inter> {516096..<516096 + block_size 0} = ({} :: nat set)"
proof -
  have run: "map_option fst (page_alloc_n [] 1 example_held) = Some (Some 516096)" by (simp add: example_held_def example_eval)
  moreover have "{520192..<520192 + block_size 0} \<inter> {516096..<516096 + block_size 0} = ({} :: nat set)"
    using page_alloc_n_fresh [OF example_held_run example_held_whole slabs_ok_Nil example_order] run by auto
  ultimately show ?thesis by blast
qed

lemma page_free_n_groups: "page_free_n a npages s = Some s' \<Longrightarrow> length (pagegroup_list s') = length (pagegroup_list s)"
  by (auto simp: page_free_n_def page_free_order_def Let_def set_group_def bind_eq_Some_conv split: option.splits)

theorem page_free_n_coalesces_witness:
  "(do { s \<leftarrow> page_free_n 520192 1 example_held; Some (page_free_count s, map (\<lambda>g. map (pg_freelist g) [0..<7]) (pagegroup_list s)) })
    = Some (page_free_count example_held + 1, [replicate 7 []])"
proof -
  obtain s where s: "page_free_n 520192 1 example_held = Some s" "page_free_count s = page_free_count example_held + 1"
    "\<forall>g \<in> set (pagegroup_list s). \<forall>p < PAGE_NSIZES - 1. pg_freelist g p = []"
    using page_free_n_coalesces [OF example_held_run example_held_whole singletonI example_order] by auto
  have "length (pagegroup_list example_held) = 1" by (simp add: example_held_def example_eval)
  then obtain g where "pagegroup_list s = [g]" using page_free_n_groups [OF s(1)] by (auto simp: length_Suc_conv)
  moreover from this have "map (pg_freelist g) [0..<7] = replicate 7 []" using s(3) by (intro nth_equalityI) (simp_all del: upt_rec_numeral)
  ultimately show ?thesis using s(1,2) by (simp del: upt_rec_numeral)
qed

theorem page_free_count_exact_witness: "page_free_count example_held = 127"
proof -
  have "(\<Sum>g \<leftarrow> pagegroup_list example_held. pg_endaddr g - pg_baseaddr g) = 524288" by (simp add: example_held_def example_eval)
  then show ?thesis using page_free_count_exact [OF example_held_run example_held_whole] by simp
qed


section \<open>Leftover pages\<close>

text \<open>
  The bits of a new group are all clear, also that of a small block that stands alone at the
  end of the group because the number of pages is odd.  Taking this page and giving it back
  sets and clears the bit, so that it is joined with a buddy past the end of the group.
\<close>

lemma small_blocks_other: "order \<notin> set os \<Longrightarrow> snd (small_blocks os npages e fl) order = fl order"
  by (induction os arbitrary: e fl) (auto simp: Let_def)

lemma small_blocks_below:
  "(\<And>order. set (fl order) \<subseteq> {..<m}) \<Longrightarrow> e \<le> m \<Longrightarrow> 0 < m \<Longrightarrow>
   fst (small_blocks os npages e fl) \<le> m \<and> set (snd (small_blocks os npages e fl) order) \<subseteq> {..<m}"
proof (induction os arbitrary: e fl)
  case (Cons p os)
  have "e - block_size p \<le> m" "e - block_size p < m" using Cons.prems(2,3) block_size_pos [of p] by linarith+
  moreover from this have "set ((fl(p := [])) q) \<subseteq> {..<m}" "set ((fl(p := [e - block_size p])) q) \<subseteq> {..<m}" for q
    using Cons.prems(1) by (cases "q = p"; simp)+
  ultimately show ?case using Cons.IH [OF _ Cons.prems(2,3), of "fl(p := [])"] Cons.IH [OF _ _ Cons.prems(3), of "fl(p := [e - block_size p])" "e - block_size p"]
    by (simp add: Let_def del: fun_upd_apply)
qed simp

lemma big_blocks_below: "set (big_blocks current e as) \<subseteq> set as \<union> {..<e}"
proof (induction current e as rule: big_blocks.induct)
  case (1 current e as)
  then show ?case by (subst big_blocks.simps) auto
qed

lemma create_odd:
  assumes c: "pagegroup_create start e = Some g" and odd: "odd ((pg_endaddr g - pg_baseaddr g) div PAGE_BYTES)"
  shows "pg_freelist g 0 = [pg_endaddr g - PAGE_BYTES]" "pg_map g = (\<lambda>_ _. False)" "\<forall>order. pg_endaddr g \<notin> set (pg_freelist g order)"
    "pg_baseaddr g + PAGE_BYTES \<le> pg_endaddr g" "PAGE_BYTES dvd pg_endaddr g" "pg_baseaddr g = start"
proof -
  define e1 where "e1 = e - SIZEOF_PAGEGROUP - bitmap_bytes ((e - start) div PAGE_BYTES)"
  define e' where "e' = e1 - e1 mod PAGE_BYTES"
  obtain e'' fl where sm: "small_blocks [0..<PAGE_NSIZES - 1] ((e' - start) div PAGE_BYTES) e' (\<lambda>_. []) = (e'', fl)" by (rule prod.exhaust)
  have create: "Some g = pagegroup_create start e" using c by simp
  have le: "start \<le> e'" and g: "g = \<lparr>pg_freelist = fl(7 := big_blocks start e'' []), pg_map = (\<lambda>_ _. False), pg_baseaddr = start, pg_endaddr = e'\<rparr>"
    using create unfolding pagegroup_create_def Let_def e1_def [symmetric] e'_def [symmetric] sm by (simp_all split: if_splits)
  have o: "odd ((e' - start) div PAGE_BYTES)" using odd by (simp add: g)
  then have "0 < (e' - start) div PAGE_BYTES" by (cases "(e' - start) div PAGE_BYTES") auto
  then have size: "start + PAGE_BYTES \<le> e'" by (simp add: div_greater_zero_iff)
  have "[0..<PAGE_NSIZES - 1] = 0 # [Suc 0..<7]" by (simp add: upt_conv_Cons del: upt_rec_numeral)
  then have "small_blocks [Suc 0..<7] ((e' - start) div PAGE_BYTES) (e' - PAGE_BYTES) ((\<lambda>_. [])(0 := [e' - PAGE_BYTES])) = (e'', fl)"
    using sm o by (simp add: Let_def block_size_def odd_iff_mod_2_eq_one del: upt_rec_numeral)
  then have fl: "fl 0 = [e' - PAGE_BYTES]"
    using small_blocks_other [of 0 "[Suc 0..<7]" "(e' - start) div PAGE_BYTES" "e' - PAGE_BYTES" "(\<lambda>_. [])(0 := [e' - PAGE_BYTES])"] by simp
  have b: "e'' \<le> e'" "set (fl order) \<subseteq> {..<e'}" for order
    using small_blocks_below [of "\<lambda>_. []" e' e' "[0..<PAGE_NSIZES - 1]" "(e' - start) div PAGE_BYTES" order] size unfolding sm by simp_all
  show "pg_freelist g 0 = [pg_endaddr g - PAGE_BYTES]" "pg_map g = (\<lambda>_ _. False)" "pg_baseaddr g + PAGE_BYTES \<le> pg_endaddr g" "pg_baseaddr g = start"
    using fl size by (simp_all add: g)
  show "PAGE_BYTES dvd pg_endaddr g" by (simp add: g e'_def)
  show "\<forall>order. pg_endaddr g \<notin> set (pg_freelist g order)" using b big_blocks_below [of start e'' "[]"] by (auto simp: g)
qed


lemma create_odd_index:
  assumes c: "pagegroup_create start e = Some g" and odd: "odd ((pg_endaddr g - pg_baseaddr g) div PAGE_BYTES)" and al: "PAGE_BYTES dvd start"
    and r: "same_range g h"
  shows "\<exists>i. calculate_index h 1 (pg_endaddr g - PAGE_BYTES) = Some i" "buddy_of h 0 (pg_endaddr g - PAGE_BYTES) = pg_endaddr g"
proof -
  note o = create_odd [OF c odd]
  obtain m where m: "pg_endaddr g = PAGE_BYTES * m" using o(5) by blast
  obtain b where b: "pg_baseaddr g = PAGE_BYTES * b" using al o(6) by blast
  have bm: "b + 1 \<le> m" "odd (m - b)" using o(4) odd unfolding m b by (simp_all flip: diff_mult_distrib2)
  have a: "pg_endaddr g - PAGE_BYTES = PAGE_BYTES * (m - 1)" unfolding m by (simp add: diff_mult_distrib2)
  have d: "PAGE_BYTES * (m - 1) - PAGE_BYTES * b = PAGE_BYTES * (m - 1 - b)" by (simp add: diff_mult_distrib2)
  have e: "even (m - 1 - b)" using bm by presburger
  have h: "pg_baseaddr h = PAGE_BYTES * b" "pg_endaddr h = PAGE_BYTES * m" using r m b by (simp_all add: same_range_def)
  show "\<exists>i. calculate_index h 1 (pg_endaddr g - PAGE_BYTES) = Some i" unfolding a calculate_index_def h d using bm e by auto
  show "buddy_of h 0 (pg_endaddr g - PAGE_BYTES) = pg_endaddr g" unfolding a buddy_of_def h d using bm e m by (auto simp: block_size_def)
qed

text \<open>
  C34. When a group comes out with an odd number of pages, \<^verbatim>\<open>page_alloc\<close> first hands out its
  last page, and freeing that page takes a block out of a list that is in none: memory past the
  end of the group is overwritten.
\<close>

theorem leftover_page_free:
  assumes s: "page_add_range start e page_init = Some s" and g: "pagegroup_list s = [g]"
    and odd: "odd ((pg_endaddr g - pg_baseaddr g) div PAGE_BYTES)"
  shows "\<exists>s'. page_alloc slabs s = Some (Some (pg_endaddr g - PAGE_BYTES), s') \<and> page_free (pg_endaddr g - PAGE_BYTES) s' = None"
proof -
  let ?a = "pg_endaddr g - PAGE_BYTES"
  have c: "pagegroup_create (start - start mod PAGE_BYTES) (e - e mod PAGE_BYTES) = Some g"
    using s g by (auto simp: page_add_range_def Let_def page_init_def bind_eq_Some_conv split: if_splits)
  have al: "PAGE_BYTES dvd start - start mod PAGE_BYTES" by simp
  note o = create_odd [OF c odd] and idx = create_odd_index [OF c odd al]
  let ?h = "set_list 0 [] g"
  obtain i where i: "calculate_index ?h 1 ?a = Some i" using idx(1) [of ?h] by (auto simp: same_range_def set_list_def)
  let ?k = "bit_flip 1 i ?h"
  have t: "take_free 0 g = Some (?a, ?k)" using o(1) i by (simp add: take_free_def)
  let ?s = "set_group 0 ?k (s\<lparr>page_freecount := page_freecount s - 2 ^ 0\<rparr>)"
  have "group_with 0 s = Some 0" using g o(1) by (simp add: group_with_def)
  then have alloc: "page_alloc slabs s = Some (Some ?a, ?s)" using g t by (simp add: page_alloc_def page_alloc_order_def)
  let ?j = "bit_flip 1 i (insert_free 0 ?a ?k)"
  have r: "same_range g ?j" "same_range g (insert_free 0 ?a ?k)" by simp_all
  have ij: "calculate_index ?j 1 ?a = Some i" "calculate_index (insert_free 0 ?a ?k) 1 ?a = Some i"
    using i unfolding same_range_cong(5) [OF r(1)] same_range_cong(5) [OF r(2)] by (simp_all add: same_range_cong(5) [of g ?h])
  have "bit_check 1 i ?j = False" by (simp add: bit_check_def o(2))
  moreover have "unlink_free ?a ?j = Some (set_list 0 [] ?j)" by (simp add: unlink_free_def upt_conv_Cons del: upt_rec_numeral)
  moreover have "unlink_free (pg_endaddr g) (set_list 0 [] ?j) = None" using o(3) by (auto simp: unlink_free_def find_None_iff split: option.splits)
  ultimately have "page_join ?j 0 ?a = None" using ij(1) idx(2) [OF r(1)] by (subst page_join.simps) (simp add: Let_def)
  moreover have "pagegroup_from_address ?a ?s = Some 0"
    using o(4) g by (simp add: pagegroup_from_address_def set_group_def Let_def bit_flip_def set_list_def)
  ultimately have "page_free ?a ?s = None" using ij(2) g by (simp add: page_free_def page_free_order_def set_group_def Let_def)
  then show ?thesis using alloc by blast
qed

theorem leftover_page_free_witness:
  "(do { s \<leftarrow> page_add_range 0 8192 page_init; (a, s) \<leftarrow> page_alloc [] s; Some (a, page_free 0 s) }) = Some (Some 0, None)"
proof -
  have "bitmap_bytes 2 = 1" by code_simp
  moreover have "[0..<7] = [0, 1, 2, 3, 4, 5, 6 :: nat]" by code_simp
  then have "small_blocks [0..<7] (Suc 0) 4096 (\<lambda>_. []) = (0, (\<lambda>_. [])(0 := [0]))" by (simp add: block_size_def fun_eq_iff del: upt_rec_numeral)
  moreover have "big_blocks 0 0 [] = []" by (simp add: big_blocks.simps)
  ultimately have s: "page_add_range 0 8192 page_init = Some \<lparr>pagegroup_list = [\<lparr>pg_freelist = (\<lambda>_. [])(0 := [0], 7 := []), pg_map = (\<lambda>_ _. False),
      pg_baseaddr = 0, pg_endaddr = 4096\<rparr>], page_freecount = 1\<rparr>"
    by (simp add: page_add_range_def page_init_def pagegroup_create_def del: upt_rec_numeral)
  show ?thesis using leftover_page_free [OF s, of _ "[]"] unfolding s by auto
qed

end
