(* ===== verification/Pframe.thy ===== *)
theory Pframe
imports Page
begin

text \<open>
  Page frames and memory objects: \<^verbatim>\<open>mm/pframe.c\<close>, \<^verbatim>\<open>mm/mmobj.h\<close>,
  \<^verbatim>\<open>vm/anon.c\<close> and \<^verbatim>\<open>vm/shadow.c\<close>.  Frame structures and memory objects are
  named by numbers that are never used twice, so that touching one that has been freed is
  \<^const>\<open>None\<close>; the contents of pages are kept by the address that the page allocator of
  \<^verbatim>\<open>mm/page.c\<close> gave out.  One thread runs at a time and no operation of anonymous and
  shadow objects blocks while a frame is marked busy; a call that goes to sleep on a busy frame
  does not return and is \<^const>\<open>None\<close> as well.  The wait queues of frames and the
  flushing of the TLB are left out.
\<close>

section \<open>State\<close>

abbreviation (input) PF_HASH_SIZE :: nat where "PF_HASH_SIZE \<equiv> 17"

type_synonym page = "nat \<Rightarrow> 8 word"

record pframe =
  pf_obj :: "nat option"
  pf_pagenum :: "32 word"
  pf_addr :: nat
  pf_busy :: bool
  pf_dirty :: bool
  pf_pincount :: int

datatype mmobj_ops = Anon_ops | Shadow_ops

text \<open>An area that has an object at the bottom of its chain, with the page directory of its process.\<close>

record objarea =
  oa_start :: "32 word"
  oa_end :: "32 word"
  oa_off :: "32 word"
  oa_pagedir :: "nat option"

text \<open>The union \<^verbatim>\<open>mmo_un\<close>: reading the member that was not stored is undefined.\<close>

datatype mmo_union = Vmas "objarea list" | Bottom_obj "nat option"

record mmobj =
  mmo_ops :: mmobj_ops
  mmo_refcount :: int
  mmo_nrespages :: int
  mmo_respages :: "nat list"
  mmo_un :: mmo_union
  mmo_shadowed :: "nat option"

text \<open>
  \<^verbatim>\<open>slab_results\<close> holds the outcomes of the coming slab allocations, in their order,
  \<^verbatim>\<open>slab_spare\<close> the blocks that the slab allocator would give back,
  \<^verbatim>\<open>pt_unmaps\<close> the calls of \<^verbatim>\<open>pt_unmap\<close>.
\<close>

record vmem =
  kpages :: pages
  slab_results :: "nat \<Rightarrow> bool"
  slab_spare :: "(nat \<times> 32 word) list"
  pframes :: "nat \<Rightarrow> pframe option"
  next_frame :: nat
  objs :: "nat \<Rightarrow> mmobj option"
  next_obj :: nat
  page_mem :: "nat \<Rightarrow> page"
  pframe_hash :: "nat \<Rightarrow> nat list"
  alloc_list :: "nat list"
  pinned_list :: "nat list"
  nallocated :: int
  npinned :: int
  nfreepages_min :: "32 word"
  nfreepages_target :: "32 word"
  pt_unmaps :: "(nat \<times> 32 word) list"

definition slab_result :: "vmem \<Rightarrow> bool \<times> vmem" where
  "slab_result s = (slab_results s 0, s\<lparr>slab_results := (\<lambda>i. slab_results s (Suc i))\<rparr>)"

text \<open>
  The page allocator fills a page that it hands out, or takes back, with a pattern
  (\<^verbatim>\<open>MM_POISON\<close>); the links that it keeps in the pages on its free lists are not part
  of the modelled memory.
\<close>

abbreviation (input) MM_POISON_ALLOC :: "8 word" where "MM_POISON_ALLOC \<equiv> 0xBB"
abbreviation (input) MM_POISON_FREE :: "8 word" where "MM_POISON_FREE \<equiv> 0xDD"

definition poison :: "8 word \<Rightarrow> nat \<Rightarrow> vmem \<Rightarrow> vmem" where
  "poison c addr s = s\<lparr>page_mem := (page_mem s)(addr := (\<lambda>_. c))\<rparr>"

definition mod_frame :: "nat \<Rightarrow> (pframe \<Rightarrow> pframe) \<Rightarrow> vmem \<Rightarrow> vmem option" where
  "mod_frame f g s = do { pf \<leftarrow> pframes s f; Some (s\<lparr>pframes := (pframes s)(f \<mapsto> g pf)\<rparr>) }"

definition mod_obj :: "nat \<Rightarrow> (mmobj \<Rightarrow> mmobj) \<Rightarrow> vmem \<Rightarrow> vmem option" where
  "mod_obj b g s = do { ob \<leftarrow> objs s b; Some (s\<lparr>objs := (objs s)(b \<mapsto> g ob)\<rparr>) }"

definition set_busy :: "bool \<Rightarrow> nat \<Rightarrow> vmem \<Rightarrow> vmem option" where
  "set_busy v f s = mod_frame f (\<lambda>pf. pf\<lparr>pf_busy := v\<rparr>) s"

definition set_dirty :: "bool \<Rightarrow> nat \<Rightarrow> vmem \<Rightarrow> vmem option" where
  "set_dirty v f s = mod_frame f (\<lambda>pf. pf\<lparr>pf_dirty := v\<rparr>) s"

section \<open>Memory objects\<close>

definition mmobj_init :: "mmobj_ops \<Rightarrow> mmobj" where
  "mmobj_init ops = \<lparr>mmo_ops = ops, mmo_refcount = 0, mmo_nrespages = 0, mmo_respages = [], mmo_un = Vmas [], mmo_shadowed = None\<rparr>"

definition mmobj_bottom_vmas :: "nat \<Rightarrow> vmem \<Rightarrow> objarea list option" where
  "mmobj_bottom_vmas b s = do {
     ob \<leftarrow> objs s b;
     bottom \<leftarrow> (if mmo_shadowed ob = None then Some b else (case mmo_un ob of Bottom_obj c \<Rightarrow> c | Vmas _ \<Rightarrow> None));
     bo \<leftarrow> objs s bottom;
     case mmo_un bo of Vmas vs \<Rightarrow> Some vs | Bottom_obj _ \<Rightarrow> None
   }"

definition new_obj :: "mmobj \<Rightarrow> vmem \<Rightarrow> nat \<times> vmem" where
  "new_obj ob s = (next_obj s, s\<lparr>objs := (objs s)(next_obj s \<mapsto> ob), next_obj := next_obj s + 1\<rparr>)"

definition anon_create :: "vmem \<Rightarrow> nat option \<times> vmem" where
  "anon_create s =
     (let (ok, s) = slab_result s in
      if ok then let (b, s) = new_obj ((mmobj_init Anon_ops)\<lparr>mmo_refcount := 1\<rparr>) s in (Some b, s)
      else (None, s))"

definition shadow_create :: "vmem \<Rightarrow> nat option \<times> vmem" where
  "shadow_create s =
     (let (ok, s) = slab_result s in
      if ok then let (b, s) = new_obj ((mmobj_init Shadow_ops)\<lparr>mmo_refcount := 1, mmo_un := Bottom_obj None\<rparr>) s in (Some b, s)
      else (None, s))"

definition anon_ref :: "nat \<Rightarrow> vmem \<Rightarrow> vmem option" where
  "anon_ref b s = do {
     ob \<leftarrow> objs s b;
     KASSERT (0 < mmo_refcount ob \<and> mmo_ops ob = Anon_ops);
     mod_obj b (\<lambda>ob. ob\<lparr>mmo_refcount := mmo_refcount ob + 1\<rparr>) s
   }"

definition shadow_ref :: "nat \<Rightarrow> vmem \<Rightarrow> vmem option" where
  "shadow_ref b s = do {
     ob \<leftarrow> objs s b;
     KASSERT (0 < mmo_refcount ob \<and> mmo_ops ob = Shadow_ops);
     mod_obj b (\<lambda>ob. ob\<lparr>mmo_refcount := mmo_refcount ob + 1\<rparr>) s
   }"

definition mmo_ref :: "nat \<Rightarrow> vmem \<Rightarrow> vmem option" where
  "mmo_ref b s = do { ob \<leftarrow> objs s b; case mmo_ops ob of Anon_ops \<Rightarrow> anon_ref b s | Shadow_ops \<Rightarrow> shadow_ref b s }"

section \<open>Resident pages\<close>

definition hash_page :: "nat \<Rightarrow> 32 word \<Rightarrow> nat" where
  "hash_page b pagenum = unat (of_nat b + pagenum) mod PF_HASH_SIZE"

fun scan_chain :: "nat \<Rightarrow> 32 word \<Rightarrow> nat list \<Rightarrow> vmem \<Rightarrow> nat option option" where
  "scan_chain b pagenum [] s = Some None"
| "scan_chain b pagenum (f # fs) s = do {
     pf \<leftarrow> pframes s f;
     if pf_obj pf = Some b \<and> pf_pagenum pf = pagenum then Some (Some f) else scan_chain b pagenum fs s
   }"

definition pframe_get_resident :: "nat \<Rightarrow> 32 word \<Rightarrow> vmem \<Rightarrow> (nat option \<times> vmem) option" where
  "pframe_get_resident b pagenum s = do {
     r \<leftarrow> scan_chain b pagenum (pframe_hash s (hash_page b pagenum)) s;
     case r of
       None \<Rightarrow> Some (None, s)
     | Some f \<Rightarrow> do {
         pf \<leftarrow> pframes s f;
         if pf_pincount pf = 0 then Some (Some f, s\<lparr>alloc_list := remove1 f (alloc_list s) @ [f]\<rparr>)
         else Some (Some f, s)
       }
   }"

definition pframe_alloc :: "nat \<Rightarrow> 32 word \<Rightarrow> vmem \<Rightarrow> (nat option \<times> vmem) option" where
  "pframe_alloc b pagenum s =
     (let (ok, s) = slab_result s in
      if \<not> ok then Some (None, s)
      else do {
        (a, ps) \<leftarrow> page_alloc (slab_spare s) (kpages s);
        let s = s\<lparr>kpages := ps\<rparr>;
        case a of
          None \<Rightarrow> Some (None, s\<lparr>slab_spare := []\<rparr>)
        | Some addr \<Rightarrow> do {
            let s = poison MM_POISON_ALLOC addr s;
            let f = next_frame s;
            let s = s\<lparr>next_frame := f + 1, nallocated := nallocated s + 1, alloc_list := alloc_list s @ [f],
                pframes := (pframes s)(f \<mapsto> \<lparr>pf_obj = Some b, pf_pagenum = pagenum, pf_addr = addr, pf_busy = False,
                  pf_dirty = False, pf_pincount = 0\<rparr>),
                pframe_hash := (pframe_hash s)(hash_page b pagenum := f # pframe_hash s (hash_page b pagenum))\<rparr>;
            s \<leftarrow> mmo_ref b s;
            s \<leftarrow> mod_obj b (\<lambda>ob. ob\<lparr>mmo_nrespages := mmo_nrespages ob + 1, mmo_respages := f # mmo_respages ob\<rparr>) s;
            Some (Some f, s)
          }
      })"

definition pframe_pin :: "nat \<Rightarrow> vmem \<Rightarrow> vmem option" where
  "pframe_pin f s = do {
     pf \<leftarrow> pframes s f;
     KASSERT (pf_obj pf \<noteq> None);
     KASSERT (0 \<le> pf_pincount pf);
     let s = (if pf_pincount pf = 0
       then s\<lparr>alloc_list := remove1 f (alloc_list s), nallocated := nallocated s - 1, pinned_list := pinned_list s @ [f]\<rparr> else s);
     mod_frame f (\<lambda>pf. pf\<lparr>pf_pincount := pf_pincount pf + 1\<rparr>) (s\<lparr>npinned := npinned s + 1\<rparr>)
   }"

definition pframe_unpin :: "nat \<Rightarrow> vmem \<Rightarrow> vmem option" where
  "pframe_unpin f s = do {
     pf \<leftarrow> pframes s f;
     KASSERT (pf_obj pf \<noteq> None);
     KASSERT (0 < pf_pincount pf);
     s \<leftarrow> mod_frame f (\<lambda>pf. pf\<lparr>pf_pincount := pf_pincount pf - 1\<rparr>) (s\<lparr>npinned := npinned s - 1\<rparr>);
     Some (if pf_pincount pf - 1 = 0
       then s\<lparr>pinned_list := remove1 f (pinned_list s), alloc_list := alloc_list s @ [f], nallocated := nallocated s + 1\<rparr> else s)
   }"

text \<open>\<^verbatim>\<open>while (pframe_is_pinned(pf)) pframe_unpin(pf);\<close>\<close>

fun unpin_times :: "nat \<Rightarrow> nat \<Rightarrow> vmem \<Rightarrow> vmem option" where
  "unpin_times 0 f s = Some s"
| "unpin_times (Suc n) f s = do { s \<leftarrow> pframe_unpin f s; unpin_times n f s }"

definition unpin_all :: "nat \<Rightarrow> vmem \<Rightarrow> vmem option" where
  "unpin_all f s = do { pf \<leftarrow> pframes s f; KASSERT (0 \<le> pf_pincount pf); unpin_times (nat (pf_pincount pf)) f s }"


section \<open>Finding and filling pages\<close>

definition pageoutd_needed :: "vmem \<Rightarrow> bool" where
  "pageoutd_needed s \<longleftrightarrow> page_free_count (kpages s) \<le> nfreepages_min s \<and> alloc_list s \<noteq> []"

definition pageoutd_target_met :: "vmem \<Rightarrow> bool" where
  "pageoutd_target_met s \<longleftrightarrow> nfreepages_target s \<le> page_free_count (kpages s)"

definition anon_lookuppage :: "nat \<Rightarrow> 32 word \<Rightarrow> bool \<Rightarrow> vmem \<Rightarrow> (int \<times> nat option \<times> vmem) option" where
  "anon_lookuppage b pagenum forwrite s = do {
     (r, s) \<leftarrow> pframe_get_resident b pagenum s;
     case r of
       None \<Rightarrow> Some (0, None, s)
     | Some f \<Rightarrow> do { pf \<leftarrow> pframes s f; Some (0, (if pf_busy pf then None else Some f), s) }
   }"

definition anon_fillpage :: "nat \<Rightarrow> nat \<Rightarrow> vmem \<Rightarrow> (int \<times> vmem) option" where
  "anon_fillpage b f s = do {
     pf \<leftarrow> pframes s f;
     KASSERT (pf_busy pf);
     KASSERT (pf_pincount pf = 0);
     c \<leftarrow> pf_obj pf;
     (r, s) \<leftarrow> pframe_get_resident c (pf_pagenum pf) s;
     case r of
       None \<Rightarrow> Some (- EFAULT, s)
     | Some g \<Rightarrow> do {
         let s = s\<lparr>page_mem := (page_mem s)(pf_addr pf := (\<lambda>_. 0))\<rparr>;
         pg \<leftarrow> pframes s g;
         s \<leftarrow> (if pf_pincount pg = 0 then pframe_pin g s else Some s);
         Some (0, s)
       }
   }"

text \<open>
  The walk along the chain of shadowed objects to the first that has the page resident; it
  also gives the last object passed.  On a chain that is a cycle it does not end.
\<close>

partial_function (option) chain_walk :: "nat option \<Rightarrow> nat option \<Rightarrow> 32 word \<Rightarrow> vmem \<Rightarrow> (nat option \<times> nat option \<times> vmem) option" where
  "chain_walk cur temp pagenum s =
     (case cur of
        None \<Rightarrow> Some (None, temp, s)
      | Some b \<Rightarrow> do {
          r \<leftarrow> pframe_get_resident b pagenum s;
          ob \<leftarrow> objs (snd r) b;
          if fst r \<noteq> None then Some (fst r, temp, snd r) else chain_walk (mmo_shadowed ob) (Some b) pagenum (snd r)
        })"

definition shadow_lookuppage :: "nat \<Rightarrow> 32 word \<Rightarrow> bool \<Rightarrow> vmem \<Rightarrow> (int \<times> nat option \<times> vmem) option" where
  "shadow_lookuppage b pagenum forwrite s = do {
     ob \<leftarrow> objs s b;
     if forwrite then Some (- 1, None, s)
     else do {
       (r, _, s) \<leftarrow> chain_walk (Some b) None pagenum s;
       Some (if r = None then - 1 else 1, r, s)
     }
   }"

definition pframe_lookup :: "nat \<Rightarrow> 32 word \<Rightarrow> bool \<Rightarrow> vmem \<Rightarrow> (int \<times> nat option \<times> vmem) option" where
  "pframe_lookup b pagenum forwrite s = do {
     ob \<leftarrow> objs s b;
     case mmo_ops ob of
       Anon_ops \<Rightarrow> anon_lookuppage b pagenum forwrite s
     | Shadow_ops \<Rightarrow> shadow_lookuppage b pagenum forwrite s
   }"

type_synonym getter = "nat \<Rightarrow> 32 word \<Rightarrow> vmem \<Rightarrow> (int \<times> nat option \<times> vmem) option"

text \<open>The recursive call of \<^verbatim>\<open>pframe_get\<close> is the first argument.\<close>

definition fill_source :: "getter \<Rightarrow> nat option \<Rightarrow> nat option \<Rightarrow> 32 word \<Rightarrow> vmem \<Rightarrow> (nat option \<times> vmem) option" where
  "fill_source get r temp n u = (case r of Some g \<Rightarrow> Some (r, u) | None \<Rightarrow> do { d \<leftarrow> temp; (_, src, s) \<leftarrow> get d n u; Some (src, s) })"

definition shadow_fillpage :: "getter \<Rightarrow> nat \<Rightarrow> nat \<Rightarrow> vmem \<Rightarrow> (int \<times> vmem) option" where
  "shadow_fillpage get b f s = do {
     pf \<leftarrow> pframes s f;
     KASSERT (pf_busy pf);
     KASSERT (pf_pincount pf = 0);
     ob \<leftarrow> objs s b;
     (src, temp, s) \<leftarrow> chain_walk (mmo_shadowed ob) None (pf_pagenum pf) s;
     (src, s) \<leftarrow> fill_source get src temp (pf_pagenum pf) s;
     g \<leftarrow> src;
     pg \<leftarrow> pframes s g;
     Some (0, s\<lparr>page_mem := (page_mem s)(pf_addr pf := page_mem s (pf_addr pg))\<rparr>)
   }"

definition pframe_fill :: "getter \<Rightarrow> nat \<Rightarrow> vmem \<Rightarrow> (int \<times> vmem) option" where
  "pframe_fill get f s = do {
     s \<leftarrow> set_busy True f s;
     pf \<leftarrow> pframes s f;
     b \<leftarrow> pf_obj pf;
     ob \<leftarrow> objs s b;
     (ret, s) \<leftarrow> (case mmo_ops ob of Anon_ops \<Rightarrow> anon_fillpage b f s | Shadow_ops \<Rightarrow> shadow_fillpage get b f s);
     s \<leftarrow> set_busy False f s;
     Some (ret, s)
   }"

text \<open>
  When memory is short the caller of \<^verbatim>\<open>pframe_get\<close> runs the endless loop of the page-out
  daemon itself, and never returns.
\<close>

fun get_depth :: "nat \<Rightarrow> getter" where
  "get_depth 0 b pagenum s = None"
| "get_depth (Suc n) b pagenum s = do {
     (r, s) \<leftarrow> pframe_get_resident b pagenum s;
     case r of
       Some f \<Rightarrow> do { pf \<leftarrow> pframes s f; KASSERT (\<not> pf_busy pf); Some (0, Some f, s) }
     | None \<Rightarrow> do {
         KASSERT (\<not> pageoutd_needed s);
         (r, s) \<leftarrow> pframe_alloc b pagenum s;
         case r of
           None \<Rightarrow> Some (- 1, None, s)
         | Some f \<Rightarrow> do { (_, s) \<leftarrow> pframe_fill (get_depth n) f s; Some (0, Some f, s) }
       }
   }"

text \<open>
  The fill of a shadow object calls \<^verbatim>\<open>pframe_get\<close> only on the last object of its chain,
  which shadows nothing; the nesting is never deeper than two.
\<close>

definition pframe_get :: getter where
  "pframe_get = get_depth 2"

section \<open>Dirtying, cleaning and freeing\<close>

definition anon_dirtypage :: "nat \<Rightarrow> nat \<Rightarrow> vmem \<Rightarrow> (int \<times> vmem) option" where
  "anon_dirtypage b f s = do { s \<leftarrow> set_dirty True f s; Some (0, s) }"

definition shadow_dirtypage :: "nat \<Rightarrow> nat \<Rightarrow> vmem \<Rightarrow> (int \<times> vmem) option" where
  "shadow_dirtypage b f s = do {
     pf \<leftarrow> pframes s f;
     if pf_dirty pf then Some (- 1, s) else do { s \<leftarrow> set_dirty True f s; Some (0, s) }
   }"

definition pframe_dirty :: "nat \<Rightarrow> vmem \<Rightarrow> (int \<times> vmem) option" where
  "pframe_dirty f s = do {
     pf \<leftarrow> pframes s f;
     KASSERT (\<not> pf_busy pf);
     s \<leftarrow> set_busy True f s;
     b \<leftarrow> pf_obj pf;
     ob \<leftarrow> objs s b;
     (ret, s) \<leftarrow> (case mmo_ops ob of Anon_ops \<Rightarrow> anon_dirtypage b f s | Shadow_ops \<Rightarrow> shadow_dirtypage b f s);
     s \<leftarrow> (if ret = 0 then set_dirty True f s else Some s);
     s \<leftarrow> set_busy False f s;
     Some (ret, s)
   }"

definition pframe_remove_from_pts :: "nat \<Rightarrow> vmem \<Rightarrow> vmem option" where
  "pframe_remove_from_pts f s = do {
     pf \<leftarrow> pframes s f;
     b \<leftarrow> pf_obj pf;
     vs \<leftarrow> mmobj_bottom_vmas b s;
     let hit = filter (\<lambda>v. oa_off v \<le> pf_pagenum pf \<and> pf_pagenum pf < oa_off v + (oa_end v - oa_start v)) vs;
     Some (s\<lparr>pt_unmaps := pt_unmaps s @ List.map_filter (\<lambda>v. map_option (\<lambda>pd. (pd, push_bit 12 (oa_start v + pf_pagenum pf - oa_off v))) (oa_pagedir v)) hit\<rparr>)
   }"

text \<open>
  Dropping a reference, which may free pages in turn, is the first argument of what follows.
  \<^verbatim>\<open>pframe_free\<close> gives the frame structure back before it takes it off the list of the
  object's pages, reading \<^verbatim>\<open>pf_olink\<close> in it; \<^verbatim>\<open>slab_obj_free\<close> leaves the
  structure as it is, so that the model may do both at once.
\<close>

type_synonym putter = "nat \<Rightarrow> vmem \<Rightarrow> vmem option"

definition pframe_free :: "putter \<Rightarrow> nat \<Rightarrow> vmem \<Rightarrow> vmem option" where
  "pframe_free put f s = do {
     pf \<leftarrow> pframes s f;
     KASSERT (pf_pincount pf = 0);
     KASSERT (pf_obj pf \<noteq> None);
     KASSERT (\<not> pf_busy pf);
     b \<leftarrow> pf_obj pf;
     s \<leftarrow> pframe_remove_from_pts f s;
     let h = hash_page b (pf_pagenum pf);
     ps \<leftarrow> page_free (pf_addr pf) (kpages s);
     let s = s\<lparr>pframe_hash := (pframe_hash s)(h := remove1 f (pframe_hash s h)), nallocated := nallocated s - 1,
         alloc_list := remove1 f (alloc_list s), kpages := ps, pframes := (pframes s)(f := None)\<rparr>;
     let s = poison MM_POISON_FREE (pf_addr pf) s;
     s \<leftarrow> mod_obj b (\<lambda>ob. ob\<lparr>mmo_nrespages := mmo_nrespages ob - 1, mmo_respages := remove1 f (mmo_respages ob)\<rparr>) s;
     put b s
   }"

definition anon_cleanpage :: "nat \<Rightarrow> nat \<Rightarrow> vmem \<Rightarrow> (int \<times> vmem) option" where
  "anon_cleanpage b f s = do {
     pf \<leftarrow> pframes s f;
     c \<leftarrow> pf_obj pf;
     (r, s) \<leftarrow> pframe_get_resident c (pf_pagenum pf) s;
     case r of
       None \<Rightarrow> Some (- EFAULT, s)
     | Some g \<Rightarrow> do {
         pg \<leftarrow> pframes s g;
         Some (0, s\<lparr>page_mem := (page_mem s)(pf_addr pg := page_mem s (pf_addr pf))\<rparr>)
       }
   }"

definition shadow_cleanpage :: "putter \<Rightarrow> nat \<Rightarrow> nat \<Rightarrow> vmem \<Rightarrow> (int \<times> vmem) option" where
  "shadow_cleanpage put b f s = do {
     pf \<leftarrow> pframes s f;
     (_, r, s) \<leftarrow> shadow_lookuppage b (pf_pagenum pf) False s;
     case r of
       None \<Rightarrow> Some (- 1, s)
     | Some g \<Rightarrow> do {
         s \<leftarrow> set_busy False g s;
         s \<leftarrow> unpin_all g s;
         pg \<leftarrow> pframes s g;
         let s = s\<lparr>page_mem := (page_mem s)(pf_addr pg := page_mem s (pf_addr pf))\<rparr>;
         s \<leftarrow> pframe_free put f s;
         Some (0, s)
       }
   }"

definition pframe_clean :: "putter \<Rightarrow> nat \<Rightarrow> vmem \<Rightarrow> (int \<times> vmem) option" where
  "pframe_clean put f s = do {
     pf \<leftarrow> pframes s f;
     KASSERT (pf_dirty pf);
     KASSERT (pf_pincount pf = 0);
     s \<leftarrow> set_dirty False f s;
     s \<leftarrow> pframe_remove_from_pts f s;
     s \<leftarrow> set_busy True f s;
     b \<leftarrow> pf_obj pf;
     ob \<leftarrow> objs s b;
     (ret, s) \<leftarrow> (case mmo_ops ob of Anon_ops \<Rightarrow> anon_cleanpage b f s | Shadow_ops \<Rightarrow> shadow_cleanpage put b f s);
     s \<leftarrow> (if ret < 0 then set_dirty True f s else Some s);
     s \<leftarrow> set_busy False f s;
     Some (ret, s)
   }"


section \<open>Dropping references\<close>

fun each_page :: "(nat \<Rightarrow> vmem \<Rightarrow> vmem option) \<Rightarrow> nat list \<Rightarrow> vmem \<Rightarrow> vmem option" where
  "each_page body [] s = Some s"
| "each_page body (f # fs) s = do { s \<leftarrow> body f s; each_page body fs s }"

definition release_page :: "putter \<Rightarrow> nat \<Rightarrow> vmem \<Rightarrow> vmem option" where
  "release_page put f s = do {
     s \<leftarrow> unpin_all f s;
     pf \<leftarrow> pframes s f;
     KASSERT (\<not> pf_busy pf);
     if pf_dirty pf then do { (_, s) \<leftarrow> pframe_clean put f s; Some s } else Some s
   }"

definition anon_put :: "putter \<Rightarrow> nat \<Rightarrow> vmem \<Rightarrow> vmem option" where
  "anon_put put b s = do {
     ob \<leftarrow> objs s b;
     KASSERT (0 < mmo_refcount ob \<and> mmo_ops ob = Anon_ops);
     s \<leftarrow> (if mmo_refcount ob - mmo_nrespages ob = 1 then each_page (release_page put) (mmo_respages ob) s else Some s);
     s \<leftarrow> mod_obj b (\<lambda>ob. ob\<lparr>mmo_refcount := mmo_refcount ob - 1\<rparr>) s;
     ob \<leftarrow> objs s b;
     Some (if mmo_refcount ob = 0 \<and> mmo_nrespages ob = 0 then s\<lparr>objs := (objs s)(b := None)\<rparr> else s)
   }"

definition shadow_put :: "putter \<Rightarrow> nat \<Rightarrow> vmem \<Rightarrow> vmem option" where
  "shadow_put put b s = do {
     ob \<leftarrow> objs s b;
     KASSERT (0 < mmo_refcount ob \<and> mmo_ops ob = Shadow_ops);
     s \<leftarrow> mod_obj b (\<lambda>ob. ob\<lparr>mmo_refcount := mmo_refcount ob - 1\<rparr>) s;
     if mmo_refcount ob - 1 = mmo_nrespages ob \<and> mmo_respages ob \<noteq> [] then do {
       s \<leftarrow> each_page (release_page put) (mmo_respages ob) s;
       KASSERT (objs s b \<noteq> None);
       Some (s\<lparr>objs := (objs s)(b := None)\<rparr>)
     } else Some s
   }"

text \<open>
  The nesting of puts: a put that frees a page puts the object of the page, which is the same
  object, with one reference less.
\<close>

fun put_depth :: "nat \<Rightarrow> putter" where
  "put_depth 0 b s = None"
| "put_depth (Suc n) b s = do {
     ob \<leftarrow> objs s b;
     case mmo_ops ob of Anon_ops \<Rightarrow> anon_put (put_depth n) b s | Shadow_ops \<Rightarrow> shadow_put (put_depth n) b s
   }"

definition mmo_put :: putter where
  "mmo_put b s = do { ob \<leftarrow> objs s b; put_depth (nat (mmo_refcount ob) + 1) b s }"

definition pframe_migrate :: "nat \<Rightarrow> nat \<Rightarrow> vmem \<Rightarrow> vmem option" where
  "pframe_migrate f dest s = do {
     pf \<leftarrow> pframes s f;
     KASSERT (\<not> pf_busy pf);
     (r, s) \<leftarrow> pframe_get_resident dest (pf_pagenum pf) s;
     if r \<noteq> None then do {
       s \<leftarrow> pframe_unpin f s;
       (_, s) \<leftarrow> pframe_clean mmo_put f s;
       pframe_free mmo_put f s
     } else do {
       src \<leftarrow> pf_obj pf;
       s \<leftarrow> mod_frame f (\<lambda>pf. pf\<lparr>pf_obj := Some dest\<rparr>) s;
       let h = hash_page src (pf_pagenum pf);
       let s = s\<lparr>pframe_hash := (pframe_hash s)(h := remove1 f (pframe_hash s h))\<rparr>;
       s \<leftarrow> mod_obj src (\<lambda>ob. ob\<lparr>mmo_nrespages := mmo_nrespages ob - 1, mmo_respages := remove1 f (mmo_respages ob)\<rparr>) s;
       s \<leftarrow> mmo_put src s;
       let h = hash_page dest (pf_pagenum pf);
       let s = s\<lparr>pframe_hash := (pframe_hash s)(h := f # pframe_hash s h)\<rparr>;
       s \<leftarrow> mod_obj dest (\<lambda>ob. ob\<lparr>mmo_nrespages := mmo_nrespages ob + 1, mmo_respages := f # mmo_respages ob\<rparr>) s;
       mmo_ref dest s
     }
   }"

section \<open>Starting up, syncing and paging out\<close>

text \<open>
  What the slab allocator is going to do (\<^verbatim>\<open>slabs\<close>, \<^verbatim>\<open>spare\<close>) and what memory
  holds at the start are arguments.
\<close>

definition pframe_init :: "(nat \<Rightarrow> bool) \<Rightarrow> (nat \<times> 32 word) list \<Rightarrow> (nat \<Rightarrow> page) \<Rightarrow> pages \<Rightarrow> vmem" where
  "pframe_init slabs spare mem ps = \<lparr>kpages = ps, slab_results = slabs, slab_spare = spare, pframes = Map.empty, next_frame = 0, objs = Map.empty, next_obj = 0,
     page_mem = mem, pframe_hash = (\<lambda>_. []), alloc_list = [], pinned_list = [], nallocated = 0, npinned = 0,
     nfreepages_min = 0, nfreepages_target = drop_bit 1 (page_free_count ps), pt_unmaps = []\<rparr>"

text \<open>
  \<^verbatim>\<open>pframe_clean_all\<close> starts over after every page it cleans; a page whose cleaning
  fails is dirty again, and the loop need not end.
\<close>

definition first_dirty :: "vmem \<Rightarrow> nat option" where
  "first_dirty s = find (\<lambda>f. case pframes s f of None \<Rightarrow> True | Some pf \<Rightarrow> pf_pincount pf \<noteq> 0 \<or> pf_obj pf = None \<or> pf_busy pf \<or> pf_dirty pf) (alloc_list s)"

partial_function (option) pframe_clean_all :: "vmem \<Rightarrow> vmem option" where
  "pframe_clean_all s =
     (case first_dirty s of
        None \<Rightarrow> Some s
      | Some f \<Rightarrow> do {
          pf \<leftarrow> pframes s f;
          if pf_pincount pf \<noteq> 0 \<or> pf_obj pf = None \<or> pf_busy pf then None
          else do { r \<leftarrow> pframe_clean mmo_put f s; pframe_clean_all (snd r) }
        })"

text \<open>One waking of the page-out daemon, up to its falling asleep.\<close>

partial_function (option) pageoutd_pass :: "vmem \<Rightarrow> vmem option" where
  "pageoutd_pass s =
     (if \<not> pageoutd_target_met s \<and> alloc_list s \<noteq> [] then do {
        pf \<leftarrow> pframes s (hd (alloc_list s));
        if pf_busy pf then None
        else if pf_dirty pf then do { r \<leftarrow> pframe_clean mmo_put (hd (alloc_list s)) s; pageoutd_pass (snd r) }
        else do { s' \<leftarrow> pframe_free mmo_put (hd (alloc_list s)) s; pageoutd_pass s' }
      } else Some s)"

fun free_each :: "nat list \<Rightarrow> vmem \<Rightarrow> vmem option" where
  "free_each [] s = Some s"
| "free_each (f # fs) s = do {
     pf \<leftarrow> pframes s f;
     KASSERT (\<not> pf_dirty pf);
     KASSERT (\<not> pf_busy pf);
     KASSERT (pf_pincount pf = 0);
     s \<leftarrow> pframe_free mmo_put f s;
     free_each fs s
   }"

text \<open>\<^verbatim>\<open>pframe_shutdown\<close> after the page-out daemon has been waited for.\<close>

definition pframe_shutdown :: "vmem \<Rightarrow> vmem option" where
  "pframe_shutdown s = do {
     KASSERT (npinned s = 0);
     s \<leftarrow> pframe_clean_all s;
     free_each (alloc_list s) s
   }"

end
