(* ===== verification/PframeInv.thy ===== *)
theory PframeInv
imports Pframe PageProps
begin

text \<open>
  The invariant of the page frames: the frames of an object are exactly those on its list, the
  hash table finds every resident page, no page is resident twice, the frames are on the list
  that their pin count says, and every frame has a page of its own from the page allocator.
\<close>

section \<open>The invariant\<close>

definition is_page :: "vmem \<Rightarrow> nat \<Rightarrow> 32 word \<Rightarrow> nat \<Rightarrow> bool" where
  "is_page s b n f \<longleftrightarrow> (\<exists>pf. pframes s f = Some pf \<and> pf_obj pf = Some b \<and> pf_pagenum pf = n)"

definition frame_blocks :: "(nat \<Rightarrow> pframe option) \<Rightarrow> block set" where
  "frame_blocks fr = {(0, pf_addr pf) | f pf. fr f = Some pf}"

text \<open>The pages of the frames are held, and apart from what others hold.\<close>

definition mem_ok :: "(nat \<Rightarrow> pframe option) \<Rightarrow> (nat \<times> 32 word) list \<Rightarrow> pages \<Rightarrow> bool" where
  "mem_ok fr spare ps \<longleftrightarrow> (\<exists>B. pages_ok (frame_blocks fr \<union> B) ps \<and> frame_blocks fr \<inter> B = {} \<and> slabs_ok spare B)
     \<and> (\<forall>f g pf pg. fr f = Some pf \<longrightarrow> fr g = Some pg \<longrightarrow> pf_addr pf = pf_addr pg \<longrightarrow> f = g)"

text \<open>The frames in \<^verbatim>\<open>X\<close> are being filled and may be busy.\<close>

definition frames_ok :: "nat set \<Rightarrow> (nat \<Rightarrow> pframe option) \<Rightarrow> (nat \<Rightarrow> mmobj option) \<Rightarrow> nat \<Rightarrow> bool" where
  "frames_ok X fr ob nf \<longleftrightarrow> finite (dom fr)
     \<and> (\<forall>f pf. fr f = Some pf \<longrightarrow> f < nf \<and> 0 \<le> pf_pincount pf \<and> (f \<in> X \<or> \<not> pf_busy pf) \<and> (\<exists>b. pf_obj pf = Some b \<and> ob b \<noteq> None))
     \<and> (\<forall>f g pf pg. fr f = Some pf \<longrightarrow> fr g = Some pg \<longrightarrow> pf_obj pf = pf_obj pg \<longrightarrow> pf_pagenum pf = pf_pagenum pg \<longrightarrow> f = g)"

definition hash_ok :: "(nat \<Rightarrow> pframe option) \<Rightarrow> (nat \<Rightarrow> nat list) \<Rightarrow> bool" where
  "hash_ok fr h \<longleftrightarrow> (\<forall>i. distinct (h i) \<and> set (h i) = {f. \<exists>pf b. fr f = Some pf \<and> pf_obj pf = Some b \<and> hash_page b (pf_pagenum pf) = i})"

definition obj_ok :: "(nat \<Rightarrow> pframe option) \<Rightarrow> nat \<Rightarrow> nat \<Rightarrow> mmobj \<Rightarrow> bool" where
  "obj_ok fr no b x \<longleftrightarrow> b < no \<and> distinct (mmo_respages x) \<and> set (mmo_respages x) = {f. \<exists>pf. fr f = Some pf \<and> pf_obj pf = Some b}
     \<and> mmo_nrespages x = int (length (mmo_respages x)) \<and> int (length (mmo_respages x)) \<le> mmo_refcount x
     \<and> (mmo_ops x = Anon_ops \<longrightarrow> 0 < mmo_refcount x \<and> mmo_shadowed x = None \<and> (\<exists>vs. mmo_un x = Vmas vs)) \<and> (\<forall>c. mmo_shadowed x = Some c \<longrightarrow> c < b)
     \<and> (mmo_ops x = Shadow_ops \<longrightarrow> mmo_respages x \<noteq> [] \<longrightarrow> int (length (mmo_respages x)) < mmo_refcount x)"

definition objs_ok :: "(nat \<Rightarrow> pframe option) \<Rightarrow> (nat \<Rightarrow> mmobj option) \<Rightarrow> nat \<Rightarrow> bool" where
  "objs_ok fr ob no \<longleftrightarrow> (\<forall>b x. ob b = Some x \<longrightarrow> obj_ok fr no b x)"

definition lists_ok :: "(nat \<Rightarrow> pframe option) \<Rightarrow> nat list \<Rightarrow> nat list \<Rightarrow> int \<Rightarrow> int \<Rightarrow> bool" where
  "lists_ok fr al pl na np \<longleftrightarrow> distinct al \<and> distinct pl
     \<and> set al = {f. \<exists>pf. fr f = Some pf \<and> pf_pincount pf = 0} \<and> set pl = {f. \<exists>pf. fr f = Some pf \<and> pf_pincount pf \<noteq> 0}
     \<and> na = int (length al) \<and> np = (\<Sum>f \<in> dom fr. pf_pincount (the (fr f)))"

definition vm_inv :: "nat set \<Rightarrow> vmem \<Rightarrow> bool" where
  "vm_inv X s \<longleftrightarrow> mem_ok (pframes s) (slab_spare s) (kpages s) \<and> frames_ok X (pframes s) (objs s) (next_frame s)
     \<and> hash_ok (pframes s) (pframe_hash s) \<and> objs_ok (pframes s) (objs s) (next_obj s)
     \<and> lists_ok (pframes s) (alloc_list s) (pinned_list s) (nallocated s) (npinned s) \<and> nfreepages_min s = 0"

lemma vm_invD:
  assumes "vm_inv X s"
  shows "mem_ok (pframes s) (slab_spare s) (kpages s)" "frames_ok X (pframes s) (objs s) (next_frame s)" "hash_ok (pframes s) (pframe_hash s)"
    "objs_ok (pframes s) (objs s) (next_obj s)" "lists_ok (pframes s) (alloc_list s) (pinned_list s) (nallocated s) (npinned s)"
    "nfreepages_min s = 0"
  using assms by (simp_all add: vm_inv_def)

lemma frames_okD:
  assumes "frames_ok X fr ob nf" and "fr f = Some pf"
  shows "f < nf" "0 \<le> pf_pincount pf" "f \<notin> X \<Longrightarrow> \<not> pf_busy pf" "\<exists>b. pf_obj pf = Some b \<and> ob b \<noteq> None"
  using assms unfolding frames_ok_def by blast+

lemma frames_ok_unique: "frames_ok X fr ob nf \<Longrightarrow> fr f = Some pf \<Longrightarrow> fr g = Some pg \<Longrightarrow> pf_obj pf = pf_obj pg \<Longrightarrow> pf_pagenum pf = pf_pagenum pg \<Longrightarrow> f = g"
  unfolding frames_ok_def by blast

lemma is_page_unique: "vm_inv X s \<Longrightarrow> is_page s b n f \<Longrightarrow> is_page s b n g \<Longrightarrow> f = g"
  unfolding is_page_def by (metis frames_ok_unique vm_invD(2))

lemma objs_okD:
  assumes "objs_ok fr ob no" and "ob b = Some x"
  shows "b < no" "distinct (mmo_respages x)" "set (mmo_respages x) = {f. \<exists>pf. fr f = Some pf \<and> pf_obj pf = Some b}"
    "mmo_nrespages x = int (length (mmo_respages x))" "mmo_nrespages x \<le> mmo_refcount x"
    "mmo_ops x = Anon_ops \<Longrightarrow> mmo_shadowed x = None" "mmo_ops x = Anon_ops \<Longrightarrow> \<exists>vs. mmo_un x = Vmas vs"
    "mmo_shadowed x = Some c \<Longrightarrow> c < b" "mmo_ops x = Anon_ops \<Longrightarrow> 0 < mmo_refcount x"
    "mmo_ops x = Shadow_ops \<Longrightarrow> mmo_respages x \<noteq> [] \<Longrightarrow> mmo_nrespages x < mmo_refcount x"
proof -
  have "obj_ok fr no b x" using assms by (simp add: objs_ok_def)
  then show "b < no" "distinct (mmo_respages x)" "set (mmo_respages x) = {f. \<exists>pf. fr f = Some pf \<and> pf_obj pf = Some b}"
    "mmo_nrespages x = int (length (mmo_respages x))" "mmo_nrespages x \<le> mmo_refcount x"
    "mmo_ops x = Anon_ops \<Longrightarrow> mmo_shadowed x = None" "mmo_ops x = Anon_ops \<Longrightarrow> \<exists>vs. mmo_un x = Vmas vs"
    "mmo_shadowed x = Some c \<Longrightarrow> c < b" "mmo_ops x = Anon_ops \<Longrightarrow> 0 < mmo_refcount x"
    "mmo_ops x = Shadow_ops \<Longrightarrow> mmo_respages x \<noteq> [] \<Longrightarrow> mmo_nrespages x < mmo_refcount x"
    by (simp_all add: obj_ok_def)
qed

section \<open>Looking pages up\<close>

lemma scan_chain_ok:
  assumes "\<And>f. f \<in> set fs \<Longrightarrow> pframes s f \<noteq> None"
  shows "scan_chain b n fs s = Some (find (is_page s b n) fs)"
  using assms
proof (induction fs)
  case (Cons f fs)
  then obtain pf where "pframes s f = Some pf" by auto
  then show ?case using Cons by (simp add: is_page_def)
qed simp

lemma in_bucket:
  assumes "vm_inv X s"
  shows "is_page s b n f \<Longrightarrow> f \<in> set (pframe_hash s (hash_page b n))" "f \<in> set (pframe_hash s i) \<Longrightarrow> pframes s f \<noteq> None"
  using vm_invD(3) [OF assms] unfolding hash_ok_def is_page_def by auto

lemma scan_bucket:
  assumes inv: "vm_inv X s"
  shows "scan_chain b n (pframe_hash s (hash_page b n)) s = Some (find (is_page s b n) (pframe_hash s (hash_page b n)))"
  by (rule scan_chain_ok) (use in_bucket(2) [OF inv] in blast)

lemma lists_ok_back:
  assumes "lists_ok fr al pl na np" and "fr f = Some pf" and "pf_pincount pf = 0"
  shows "lists_ok fr (remove1 f al @ [f]) pl na np"
proof -
  have al: "f \<in> set al" "distinct al" using assms by (auto simp: lists_ok_def)
  then have "length al = Suc (length (remove1 f al))" using length_remove1_in [of f al] by simp
  then show ?thesis using assms(1) al by (auto simp: lists_ok_def)
qed

text \<open>What a lookup changes: only the order of the list of allocated frames.\<close>

definition reordered :: "vmem \<Rightarrow> vmem \<Rightarrow> bool" where
  "reordered s t \<longleftrightarrow> (\<exists>al. t = s\<lparr>alloc_list := al\<rparr> \<and> set al = set (alloc_list s))"

lemma reordered_refl [simp]: "reordered s s"
  unfolding reordered_def by (intro exI [of _ "alloc_list s"]) simp

lemma reordered_trans: "reordered s t \<Longrightarrow> reordered t u \<Longrightarrow> reordered s u"
  unfolding reordered_def by auto

lemma reorderedD:
  assumes "reordered s t"
  shows "pframes t = pframes s" "objs t = objs s" "page_mem t = page_mem s" "kpages t = kpages s" "slab_results t = slab_results s"
    "nfreepages_min t = nfreepages_min s" "is_page t = is_page s" "alloc_list t = [] \<longleftrightarrow> alloc_list s = []" "next_frame t = next_frame s"
    "nfreepages_target t = nfreepages_target s"
  using assms by (auto simp: reordered_def is_page_def fun_eq_iff)

lemma pframe_get_resident_ok:
  assumes inv: "vm_inv X s"
  shows "(\<exists>f s'. pframe_get_resident b n s = Some (Some f, s') \<and> is_page s b n f \<and> vm_inv X s' \<and> reordered s s')
    \<or> (pframe_get_resident b n s = Some (None, s) \<and> (\<forall>f. \<not> is_page s b n f))"
proof (cases "find (is_page s b n) (pframe_hash s (hash_page b n))")
  case None
  then have "\<not> is_page s b n f" for f using in_bucket(1) [OF inv] by (auto simp: find_None_iff)
  then show ?thesis using None by (simp add: pframe_get_resident_def scan_bucket [OF inv])
next
  case (Some f)
  then have p: "is_page s b n f" by (auto simp: find_Some_iff)
  then obtain pf where pf: "pframes s f = Some pf" by (auto simp: is_page_def)
  show ?thesis
  proof (cases "pf_pincount pf = 0")
    case True
    have "f \<in> set (alloc_list s)" "distinct (alloc_list s)" using vm_invD(5) [OF inv] pf True by (auto simp: lists_ok_def)
    then have "reordered s (s\<lparr>alloc_list := remove1 f (alloc_list s) @ [f]\<rparr>)"
      unfolding reordered_def by (intro exI [of _ "remove1 f (alloc_list s) @ [f]"]) auto
    moreover have "vm_inv X (s\<lparr>alloc_list := remove1 f (alloc_list s) @ [f]\<rparr>)"
      using inv lists_ok_back [OF vm_invD(5) [OF inv] pf True] by (simp add: vm_inv_def)
    ultimately show ?thesis using Some pf p True by (auto simp: pframe_get_resident_def scan_bucket [OF inv])
  next
    case False then show ?thesis using Some pf p inv by (auto simp: pframe_get_resident_def scan_bucket [OF inv])
  qed
qed


section \<open>Changing a frame\<close>

text \<open>Most of the invariant depends only on which page a frame holds, and where.\<close>

definition shape :: "pframe \<Rightarrow> nat option \<times> 32 word \<times> nat" where
  "shape pf = (pf_obj pf, pf_pagenum pf, pf_addr pf)"

lemma shape_cong:
  assumes "\<And>f. map_option shape (fr' f) = map_option shape (fr f)"
  shows "mem_ok fr' = mem_ok fr" "hash_ok fr' = hash_ok fr" "objs_ok fr' = objs_ok fr" "dom fr' = dom fr"
proof -
  have ex: "(\<exists>pf. fr' f = Some pf \<and> P (shape pf)) \<longleftrightarrow> (\<exists>pf. fr f = Some pf \<and> P (shape pf))" for f P
    using assms [of f] by (cases "fr f"; cases "fr' f") auto
  have o: "(\<exists>pf. fr' f = Some pf \<and> pf_obj pf = Some b) \<longleftrightarrow> (\<exists>pf. fr f = Some pf \<and> pf_obj pf = Some b)" for f b
    using ex [of f "\<lambda>x. fst x = Some b"] by (simp add: shape_def)
  have h: "(\<exists>pf b. fr' f = Some pf \<and> pf_obj pf = Some b \<and> hash_page b (pf_pagenum pf) = i) \<longleftrightarrow>
      (\<exists>pf b. fr f = Some pf \<and> pf_obj pf = Some b \<and> hash_page b (pf_pagenum pf) = i)" for f i
    using ex [of f "\<lambda>x. \<exists>b. fst x = Some b \<and> hash_page b (fst (snd x)) = i"] by (simp add: shape_def)
  have a: "(\<exists>pf. fr' f = Some pf \<and> pf_addr pf = x) \<longleftrightarrow> (\<exists>pf. fr f = Some pf \<and> pf_addr pf = x)" for f x
    using ex [of f "\<lambda>y. snd (snd y) = x"] by (simp add: shape_def)
  show "dom fr' = dom fr" using ex [of _ "\<lambda>_. True"] by (auto simp: dom_def)
  show "hash_ok fr' = hash_ok fr" unfolding hash_ok_def h by simp
  show "objs_ok fr' = objs_ok fr" unfolding objs_ok_def obj_ok_def o by simp
  have "frame_blocks fr = {(0, x) | x. \<exists>f pf. fr f = Some pf \<and> pf_addr pf = x}" for fr by (auto simp: frame_blocks_def)
  then have blocks: "frame_blocks fr' = frame_blocks fr" by (simp only: a)
  have "(\<forall>f g pf pg. fr f = Some pf \<longrightarrow> fr g = Some pg \<longrightarrow> pf_addr pf = pf_addr pg \<longrightarrow> f = g) \<longleftrightarrow>
      (\<forall>f g x. (\<exists>pf. fr f = Some pf \<and> pf_addr pf = x) \<longrightarrow> (\<exists>pg. fr g = Some pg \<and> pf_addr pg = x) \<longrightarrow> f = g)" for fr :: "nat \<Rightarrow> pframe option" by metis
  then show "mem_ok fr' = mem_ok fr" unfolding mem_ok_def fun_eq_iff blocks using a by simp
qed

text \<open>Only the frame \<^verbatim>\<open>f\<close> and the lists of frames differ.\<close>

definition frame_upd :: "nat \<Rightarrow> pframe \<Rightarrow> vmem \<Rightarrow> vmem \<Rightarrow> bool" where
  "frame_upd f pf s t \<longleftrightarrow> pframes t = (pframes s)(f \<mapsto> pf) \<and> objs t = objs s \<and> kpages t = kpages s \<and> slab_spare t = slab_spare s
     \<and> slab_results t = slab_results s \<and> next_frame t = next_frame s \<and> next_obj t = next_obj s \<and> pframe_hash t = pframe_hash s
     \<and> page_mem t = page_mem s \<and> nfreepages_min t = nfreepages_min s \<and> nfreepages_target t = nfreepages_target s"

lemma vm_inv_frame:
  assumes inv: "vm_inv X s" and pf: "pframes s f = Some pf" and sh: "shape pf' = shape pf" and X: "X - {f} \<subseteq> Y" and busy: "f \<in> Y \<or> \<not> pf_busy pf'"
    and pin: "0 \<le> pf_pincount pf'" and u: "frame_upd f pf' s t" and l: "lists_ok (pframes t) (alloc_list t) (pinned_list t) (nallocated t) (npinned t)"
  shows "vm_inv Y t"
proof -
  let ?fr = "(pframes s)(f \<mapsto> pf')"
  have "map_option shape (?fr g) = map_option shape (pframes s g)" for g using pf sh by simp
  note cong = shape_cong [OF this]
  have "frames_ok Y ?fr (objs s) (next_frame s)"
    using vm_invD(2) [OF inv] pf sh X busy pin unfolding frames_ok_def cong(4)
    by (auto simp: shape_def split: if_splits)
  then show ?thesis using inv u l by (simp add: vm_inv_def frame_upd_def cong)
qed

lemma sum_update:
  assumes "finite (dom fr)" and "fr f = Some pf"
  shows "(\<Sum>g \<in> dom (fr(f \<mapsto> pf')). pf_pincount (the ((fr(f \<mapsto> pf')) g))) = (\<Sum>g \<in> dom fr. pf_pincount (the (fr g))) - pf_pincount pf + pf_pincount pf'"
proof -
  have d: "dom (fr(f \<mapsto> pf')) = dom fr" "f \<in> dom fr" using assms(2) by auto
  have "(\<Sum>g \<in> dom fr - {f}. pf_pincount (the ((fr(f \<mapsto> pf')) g))) = (\<Sum>g \<in> dom fr - {f}. pf_pincount (the (fr g)))" by (rule sum.cong) auto
  then show ?thesis unfolding d(1) using sum.remove [OF assms(1) d(2), of "\<lambda>g. pf_pincount (the ((fr(f \<mapsto> pf')) g))"]
      sum.remove [OF assms(1) d(2), of "\<lambda>g. pf_pincount (the (fr g))"] assms(2) by simp
qed

lemma lists_ok_same:
  assumes l: "lists_ok fr al pl na np" and "finite (dom fr)" and "fr f = Some pf" and "pf_pincount pf' = 0 \<longleftrightarrow> pf_pincount pf = 0"
    and "np' = np - pf_pincount pf + pf_pincount pf'"
  shows "lists_ok (fr(f \<mapsto> pf')) al pl na np'"
proof -
  have "{g. \<exists>q. (fr(f \<mapsto> pf')) g = Some q \<and> pf_pincount q = 0} = set al" "{g. \<exists>q. (fr(f \<mapsto> pf')) g = Some q \<and> pf_pincount q \<noteq> 0} = set pl"
    using assms(1,3,4) unfolding lists_ok_def by auto
  then show ?thesis using assms sum_update [OF assms(2,3)] unfolding lists_ok_def by simp
qed

lemma vm_inv_mark:
  assumes inv: "vm_inv X s" and pf: "pframes s f = Some pf" and sh: "shape pf' = shape pf" and X: "X - {f} \<subseteq> Y" and busy: "f \<in> Y \<or> \<not> pf_busy pf'"
    and pin: "pf_pincount pf' = pf_pincount pf"
  shows "vm_inv Y (s\<lparr>pframes := (pframes s)(f \<mapsto> pf')\<rparr>)"
proof -
  let ?t = "s\<lparr>pframes := (pframes s)(f \<mapsto> pf')\<rparr>"
  have "finite (dom (pframes s))" using vm_invD(2) [OF inv] by (simp add: frames_ok_def)
  from lists_ok_same [OF vm_invD(5) [OF inv] this pf, of pf' "npinned s"] pin
  have "lists_ok (pframes ?t) (alloc_list ?t) (pinned_list ?t) (nallocated ?t) (npinned ?t)" by simp
  from vm_inv_frame [OF inv pf sh X busy _ _ this] pin frames_okD(2) [OF vm_invD(2) [OF inv] pf] show ?thesis by (simp add: frame_upd_def)
qed

lemma set_busy_ok:
  assumes inv: "vm_inv X s" and pf: "pframes s f = Some pf"
  shows "\<exists>s'. set_busy v f s = Some s' \<and> vm_inv (if v then insert f X else X - {f}) s' \<and> frame_upd f (pf\<lparr>pf_busy := v\<rparr>) s s' \<and> alloc_list s' = alloc_list s"
proof -
  have "X - {f} \<subseteq> (if v then insert f X else X - {f})" "f \<in> (if v then insert f X else X - {f}) \<or> \<not> pf_busy (pf\<lparr>pf_busy := v\<rparr>)" by auto
  from vm_inv_mark [OF inv pf _ this] show ?thesis using pf by (simp add: set_busy_def mod_frame_def shape_def frame_upd_def)
qed

lemma set_dirty_ok:
  assumes inv: "vm_inv X s" and pf: "pframes s f = Some pf"
  shows "\<exists>s'. set_dirty v f s = Some s' \<and> vm_inv X s' \<and> frame_upd f (pf\<lparr>pf_dirty := v\<rparr>) s s' \<and> alloc_list s' = alloc_list s"
  using vm_inv_mark [OF inv pf, of "pf\<lparr>pf_dirty := v\<rparr>" X] pf frames_okD(3) [OF vm_invD(2) [OF inv] pf]
  by (auto simp: set_dirty_def mod_frame_def shape_def frame_upd_def)

lemma pin_case:
  assumes inv: "vm_inv X s" and pf: "pframes s f = Some pf" and c: "0 \<le> c" and u: "frame_upd f (pf\<lparr>pf_pincount := c\<rparr>) s t"
    and l: "lists_ok (pframes t) (alloc_list t) (pinned_list t) (nallocated t) (npinned t)"
  shows "vm_inv X t"
proof (rule vm_inv_frame [OF inv pf _ _ _ _ u l])
  show "f \<in> X \<or> \<not> pf_busy (pf\<lparr>pf_pincount := c\<rparr>)" using frames_okD(3) [OF vm_invD(2) [OF inv] pf] by auto
qed (use c in \<open>auto simp: shape_def\<close>)

lemma pframe_pin_ok:
  assumes inv: "vm_inv X s" and pf: "pframes s f = Some pf"
  shows "\<exists>s'. pframe_pin f s = Some s' \<and> vm_inv X s' \<and> frame_upd f (pf\<lparr>pf_pincount := pf_pincount pf + 1\<rparr>) s s' \<and> npinned s' = npinned s + 1"
proof -
  note fr = vm_invD(2) [OF inv] and l = vm_invD(5) [OF inv]
  let ?pf = "pf\<lparr>pf_pincount := pf_pincount pf + 1\<rparr>"
  have fin: "finite (dom (pframes s))" using fr by (simp add: frames_ok_def)
  note p = frames_okD(2,4) [OF fr pf]
  define t where "t = (if pf_pincount pf = 0
       then s\<lparr>alloc_list := remove1 f (alloc_list s), nallocated := nallocated s - 1, pinned_list := pinned_list s @ [f]\<rparr> else s)
       \<lparr>npinned := npinned s + 1, pframes := (pframes s)(f \<mapsto> ?pf)\<rparr>"
  have t: "frame_upd f ?pf s t" "npinned t = npinned s + 1" by (simp_all add: t_def frame_upd_def)
  have run: "pframe_pin f s = Some t" using pf p by (auto simp: pframe_pin_def mod_frame_def t_def Let_def)
  have "lists_ok (pframes t) (alloc_list t) (pinned_list t) (nallocated t) (npinned t)"
  proof (cases "pf_pincount pf = 0")
    case True
    have f: "f \<in> set (alloc_list s)" "f \<notin> set (pinned_list s)" using l pf True by (auto simp: lists_ok_def)
    show ?thesis using l f pf True sum_update [OF fin pf, of ?pf] unfolding lists_ok_def by (auto simp: t_def length_remove1_int)
  next
    case False
    show ?thesis using lists_ok_same [OF l fin pf, of ?pf "npinned s + 1"] False p(1) by (simp add: t_def)
  qed
  then have "vm_inv X t" using pin_case [OF inv pf _ t(1)] p(1) by simp
  then show ?thesis using run t by blast
qed

lemma pframe_unpin_ok:
  assumes inv: "vm_inv X s" and pf: "pframes s f = Some pf" and pos: "0 < pf_pincount pf"
  shows "\<exists>s'. pframe_unpin f s = Some s' \<and> vm_inv X s' \<and> frame_upd f (pf\<lparr>pf_pincount := pf_pincount pf - 1\<rparr>) s s' \<and> npinned s' = npinned s - 1"
proof -
  note fr = vm_invD(2) [OF inv] and l = vm_invD(5) [OF inv]
  let ?pf = "pf\<lparr>pf_pincount := pf_pincount pf - 1\<rparr>"
  have fin: "finite (dom (pframes s))" using fr by (simp add: frames_ok_def)
  define t where "t = (if pf_pincount pf - 1 = 0
       then s\<lparr>npinned := npinned s - 1, pframes := (pframes s)(f \<mapsto> ?pf), pinned_list := remove1 f (pinned_list s), alloc_list := alloc_list s @ [f], nallocated := nallocated s + 1\<rparr>
       else s\<lparr>npinned := npinned s - 1, pframes := (pframes s)(f \<mapsto> ?pf)\<rparr>)"
  have t: "frame_upd f ?pf s t" "npinned t = npinned s - 1" by (simp_all add: t_def frame_upd_def)
  have run: "pframe_unpin f s = Some t" using pf pos frames_okD(4) [OF fr pf] by (auto simp: pframe_unpin_def mod_frame_def t_def)
  have "lists_ok (pframes t) (alloc_list t) (pinned_list t) (nallocated t) (npinned t)"
  proof (cases "pf_pincount pf = 1")
    case True
    have f: "f \<notin> set (alloc_list s)" "f \<in> set (pinned_list s)" using l pf True by (auto simp: lists_ok_def)
    show ?thesis using l f pf True sum_update [OF fin pf, of ?pf] unfolding lists_ok_def by (auto simp: t_def)
  next
    case False
    show ?thesis using lists_ok_same [OF l fin pf, of ?pf "npinned s - 1"] False pos by (simp add: t_def)
  qed
  then have "vm_inv X t" using pin_case [OF inv pf _ t(1)] pos by simp
  then show ?thesis using run t by blast
qed


section \<open>Allocating and freeing frames\<close>

lemma split_search_count: "split_search order ps s = Some (r, s') \<Longrightarrow> page_freecount s' = page_freecount s"
  by (induction ps) (auto simp: bind_eq_Some_conv set_group_def split: option.splits)

lemma page_split_count: "page_split slabs order s = Some (Some i, s') \<Longrightarrow> page_freecount s' = page_freecount s"
  unfolding page_split_def bind_eq_Some_conv by (auto dest!: split_search_count simp: bind_eq_Some_conv simp del: upt_rec_numeral split: option.splits)

lemma page_alloc_count: "page_alloc slabs s = Some (Some a, s') \<Longrightarrow> page_free_count s' = page_free_count s - 1"
proof (cases "group_with 0 s")
  case None
  assume "page_alloc slabs s = Some (Some a, s')"
  then obtain i t g where "page_split slabs 0 s = Some (Some i, t)" "s' = set_group i g (t\<lparr>page_freecount := page_freecount t - 2 ^ 0\<rparr>)"
    using None by (auto simp: page_alloc_def page_alloc_order_def bind_eq_Some_conv split: option.splits)
  then show ?thesis using page_split_count [of slabs 0 s i t] by (simp add: set_group_def page_free_count_def)
qed (auto simp: page_alloc_def page_alloc_order_def bind_eq_Some_conv set_group_def page_free_count_def)

lemma no_free_page:
  assumes "pages_ok A ps" and "\<forall>p < PAGE_NSIZES. (0::nat) \<le> p \<longrightarrow> (\<forall>g \<in> set (pagegroup_list ps). pg_freelist g p = [])"
  shows "page_free_count ps = 0"
proof -
  have "fpages g = 0" if "g \<in> set (pagegroup_list ps)" for g using assms(2) that by (simp add: fpages_def)
  then have "sum_list (map fpages (pagegroup_list ps)) = 0" by (simp add: sum_list_eq_0_iff)
  then have "page_freecount ps = of_nat 0" using pages_okD(5) [OF assms(1)] by metis
  then show ?thesis by (simp add: page_free_count_def)
qed

lemma frame_blocks_upd: "fr f = None \<Longrightarrow> frame_blocks (fr(f \<mapsto> pf)) = insert (0, pf_addr pf) (frame_blocks fr)"
proof -
  assume f: "fr f = None"
  have im: "frame_blocks fr = (\<lambda>g. (0, pf_addr (the (fr g)))) ` dom fr" for fr by (force simp: frame_blocks_def image_def)
  have "(\<lambda>g. (0 :: nat, pf_addr (the ((fr(f \<mapsto> pf)) g)))) ` dom fr = (\<lambda>g. (0, pf_addr (the (fr g)))) ` dom fr" using f by (intro image_cong) auto
  then show ?thesis unfolding im by simp
qed

lemma slabs_ok_mono: "slabs_ok spare B \<Longrightarrow> B \<subseteq> A \<Longrightarrow> slabs_ok spare A"
  unfolding slabs_ok_def by blast

lemma mem_ok_alloc:
  assumes m: "mem_ok fr spare ps"
  obtains a ps' where "page_alloc spare ps = Some (Some a, ps')" and "\<And>f pf. fr f = Some pf \<Longrightarrow> pf_addr pf \<noteq> a"
    and "\<And>f pf. fr f = None \<Longrightarrow> pf_addr pf = a \<Longrightarrow> mem_ok (fr(f \<mapsto> pf)) spare ps'" and "page_free_count ps' = page_free_count ps - 1"
  | ps' where "page_alloc spare ps = Some (None, ps')" and "mem_ok fr [] ps'" and "page_free_count ps = 0"
proof -
  obtain B where ok: "pages_ok (frame_blocks fr \<union> B) ps" and dis: "frame_blocks fr \<inter> B = {}" and sl: "slabs_ok spare B"
    and inj: "\<And>f g pf pg. fr f = Some pf \<Longrightarrow> fr g = Some pg \<Longrightarrow> pf_addr pf = pf_addr pg \<Longrightarrow> f = g"
    using m unfolding mem_ok_def by blast
  obtain r ps' where run: "page_alloc_order spare 0 ps = Some (r, ps')" and post: "alloc_post spare 0 (frame_blocks fr \<union> B) ps r ps'"
    using page_alloc_order_ok [OF ok _ slabs_ok_mono [OF sl], of 0] by auto
  have alloc: "page_alloc spare ps = Some (r, ps')" using run by (simp add: page_alloc_def)
  show thesis
  proof (cases r)
    case (Some a)
    then have ok': "pages_ok (insert (0, a) (frame_blocks fr \<union> B)) ps'" and new: "(0, a) \<notin> frame_blocks fr \<union> B"
      using kp.got_page [OF ok slabs_ok_mono [OF sl]] alloc by auto
    have na: "pf_addr pf \<noteq> a" if "fr f = Some pf" for f pf using new that by (auto simp: frame_blocks_def)
    have mem: "mem_ok (fr(f \<mapsto> pf)) spare ps'" if f: "fr f = None" "pf_addr pf = a" for f pf
    proof -
      have "frame_blocks (fr(f \<mapsto> pf)) \<union> B = insert (0, a) (frame_blocks fr \<union> B)" "frame_blocks (fr(f \<mapsto> pf)) \<inter> B = {}"
        using f new dis by (auto simp: frame_blocks_upd)
      moreover have "g = h" if "(fr(f \<mapsto> pf)) g = Some pg" "(fr(f \<mapsto> pf)) h = Some ph" "pf_addr pg = pf_addr ph" for g h pg ph
        using that inj na f(2) by (auto split: if_splits)
      ultimately show ?thesis using ok' sl unfolding mem_ok_def by metis
    qed
    note run = alloc [unfolded Some]
    show thesis by (rule that(1) [OF run na mem page_alloc_count [OF run]])
  next
    case None
    then have ok': "pages_ok (frame_blocks fr \<union> B - block_of ` set spare) ps'" and "page_free_count ps = 0"
      using post no_free_page [OF ok] by (simp_all add: alloc_post_def)
    moreover have "frame_blocks fr \<union> B - block_of ` set spare = frame_blocks fr \<union> (B - block_of ` set spare)"
      using dis sl unfolding slabs_ok_def by blast
    moreover have "frame_blocks fr \<inter> (B - block_of ` set spare) = {}" using dis by blast
    ultimately have "mem_ok fr [] ps'" using inj slabs_ok_Nil unfolding mem_ok_def by metis
    then show thesis using that(2) [OF alloc [unfolded None]] \<open>page_free_count ps = 0\<close> by simp
  qed
qed

lemma hash_ok_add:
  assumes h: "hash_ok fr h" and f: "fr f = None" and "pf_obj pf = Some b"
  shows "hash_ok (fr(f \<mapsto> pf)) (h(hash_page b (pf_pagenum pf) := f # h (hash_page b (pf_pagenum pf))))"
proof -
  have "f \<notin> set (h i)" for i using h f by (auto simp: hash_ok_def)
  then show ?thesis using h assms(2,3) unfolding hash_ok_def by auto
qed

lemma lists_ok_add:
  assumes l: "lists_ok fr al pl na np" and fin: "finite (dom fr)" and f: "fr f = None" and "pf_pincount pf = 0"
  shows "lists_ok (fr(f \<mapsto> pf)) (al @ [f]) pl (na + 1) np"
proof -
  have "(\<Sum>g \<in> dom (fr(f \<mapsto> pf)). pf_pincount (the ((fr(f \<mapsto> pf)) g))) = (\<Sum>g \<in> dom fr. pf_pincount (the (fr g)))"
  proof -
    have "f \<notin> dom fr" using f by auto
    moreover from this have "(\<Sum>g \<in> dom fr. pf_pincount (the ((fr(f \<mapsto> pf)) g))) = (\<Sum>g \<in> dom fr. pf_pincount (the (fr g)))" by (intro sum.cong) auto
    ultimately show ?thesis using fin assms(4) by simp
  qed
  moreover have "f \<notin> set al" "f \<notin> set pl" using l f by (auto simp: lists_ok_def)
  ultimately show ?thesis using l f assms(4) unfolding lists_ok_def by auto
qed

lemma objs_ok_add:
  assumes o: "objs_ok fr ob no" and x: "ob b = Some x" and ref: "0 < mmo_refcount x" and f: "fr f = None" and pf: "pf_obj pf = Some b"
  shows "objs_ok (fr(f \<mapsto> pf)) (ob(b \<mapsto> x\<lparr>mmo_refcount := mmo_refcount x + 1, mmo_nrespages := mmo_nrespages x + 1, mmo_respages := f # mmo_respages x\<rparr>)) no"
proof -
  have new: "f \<notin> set (mmo_respages x)" using objs_okD(3) [OF o x] f by auto
  have "obj_ok (fr(f \<mapsto> pf)) no c y" if "c \<noteq> b" "ob c = Some y" for c y
  proof -
    have "{g. \<exists>q. (fr(f \<mapsto> pf)) g = Some q \<and> pf_obj q = Some c} = {g. \<exists>q. fr g = Some q \<and> pf_obj q = Some c}" using f pf that(1) by auto
    moreover have "obj_ok fr no c y" using o that(2) by (simp add: objs_ok_def)
    ultimately show ?thesis by (simp add: obj_ok_def del: fun_upd_apply)
  qed
  moreover have "{g. \<exists>q. (fr(f \<mapsto> pf)) g = Some q \<and> pf_obj q = Some b} = insert f (set (mmo_respages x))"
    using objs_okD(3) [OF o x] f pf by auto
  then have "obj_ok (fr(f \<mapsto> pf)) no b (x\<lparr>mmo_refcount := mmo_refcount x + 1, mmo_nrespages := mmo_nrespages x + 1, mmo_respages := f # mmo_respages x\<rparr>)"
    using objs_okD(1,2,4-10) [OF o x] ref new unfolding obj_ok_def by (cases "mmo_ops x"; cases "mmo_respages x = []") simp_all
  ultimately show ?thesis unfolding objs_ok_def by simp
qed


definition new_frame :: "nat \<Rightarrow> 32 word \<Rightarrow> nat \<Rightarrow> pframe" where
  "new_frame b n a = \<lparr>pf_obj = Some b, pf_pagenum = n, pf_addr = a, pf_busy = False, pf_dirty = False, pf_pincount = 0\<rparr>"

lemma new_frame_simps [simp]:
  "pf_obj (new_frame b n a) = Some b" "pf_pagenum (new_frame b n a) = n" "pf_addr (new_frame b n a) = a" "pf_busy (new_frame b n a) = False"
  "pf_pincount (new_frame b n a) = 0"
  by (simp_all add: new_frame_def)

text \<open>What a successful \<^verbatim>\<open>pframe_alloc\<close> changes.\<close>

definition frame_added :: "nat \<Rightarrow> 32 word \<Rightarrow> nat \<Rightarrow> vmem \<Rightarrow> vmem \<Rightarrow> bool" where
  "frame_added b n a s t \<longleftrightarrow> pframes t = (pframes s)(next_frame s \<mapsto> new_frame b n a)
     \<and> (\<exists>x r. objs s b = Some x \<and> objs t = (objs s)(b \<mapsto> x\<lparr>mmo_refcount := mmo_refcount x + 1, mmo_nrespages := mmo_nrespages x + 1, mmo_respages := r\<rparr>))
     \<and> page_mem t = (page_mem s)(a := (\<lambda>_. MM_POISON_ALLOC)) \<and> page_free_count (kpages t) = page_free_count (kpages s) - 1
     \<and> slab_results t = (\<lambda>i. slab_results s (Suc i)) \<and> next_frame t = Suc (next_frame s) \<and> (\<forall>f pf. pframes s f = Some pf \<longrightarrow> pf_addr pf \<noteq> a)"

lemma next_frame_free: "vm_inv X s \<Longrightarrow> pframes s (next_frame s) = None"
  using frames_okD(1) [OF vm_invD(2)] by (cases "pframes s (next_frame s)") auto

lemma frames_ok_add:
  assumes fr: "frames_ok X fr ob nf" and x: "ob b \<noteq> None" and new: "\<And>f pf. fr f = Some pf \<Longrightarrow> pf_obj pf = Some b \<Longrightarrow> pf_pagenum pf \<noteq> n"
  shows "frames_ok X (fr(nf \<mapsto> new_frame b n a)) (ob(b \<mapsto> x')) (nf + 1)"
  using fr x new unfolding frames_ok_def by (auto split: if_splits) (metis less_SucI)+

lemma pframe_alloc_ok:
  assumes inv: "vm_inv X s" and x: "objs s b = Some x" and ref: "0 < mmo_refcount x" and new: "\<And>f. \<not> is_page s b n f"
  shows "(\<exists>s'. pframe_alloc b n s = Some (None, s') \<and> vm_inv X s' \<and> pframes s' = pframes s \<and> objs s' = objs s \<and> page_mem s' = page_mem s
      \<and> (\<not> slab_results s 0 \<or> page_free_count (kpages s) = 0))
    \<or> (\<exists>s' a. pframe_alloc b n s = Some (Some (next_frame s), s') \<and> vm_inv X s' \<and> frame_added b n a s s')"
proof -
  obtain ok t where sr: "slab_result s = (ok, t)" by fastforce
  then have t: "t = s\<lparr>slab_results := (\<lambda>i. slab_results s (Suc i))\<rparr>" "ok = slab_results s 0" by (auto simp: slab_result_def)
  have it: "vm_inv X t" using inv by (simp add: vm_inv_def t)
  have nf: "pframes t (next_frame t) = None" by (rule next_frame_free [OF it])
  have no: "fr f = Some pf \<Longrightarrow> pf_obj pf = Some b \<Longrightarrow> pf_pagenum pf \<noteq> n" if "fr = pframes t" for fr f pf using new [of f] that by (auto simp: is_page_def t)
  note inv5 = vm_invD [OF it]
  show ?thesis
  proof (cases ok)
    case False then show ?thesis using sr it t by (auto simp: pframe_alloc_def)
  next
    case True
    from inv5(1) show ?thesis
    proof (cases rule: mem_ok_alloc)
      case (1 a ps')
      let ?f = "next_frame t" and ?pf = "new_frame b n a" and ?h = "hash_page b n"
      let ?x = "x\<lparr>mmo_refcount := mmo_refcount x + 1, mmo_nrespages := mmo_nrespages x + 1, mmo_respages := ?f # mmo_respages x\<rparr>"
      define u where "u = t\<lparr>kpages := ps', next_frame := ?f + 1, nallocated := nallocated t + 1, alloc_list := alloc_list t @ [?f],
          pframes := (pframes t)(?f \<mapsto> ?pf), pframe_hash := (pframe_hash t)(?h := ?f # pframe_hash t ?h), objs := (objs t)(b \<mapsto> ?x),
          page_mem := (page_mem t)(a := (\<lambda>_. MM_POISON_ALLOC))\<rparr>"
      have xt: "objs t b = Some x" using x by (simp add: t)
      have run: "pframe_alloc b n s = Some (Some ?f, u)"
        using sr True 1(1) xt ref
        by (cases "mmo_ops x") (simp_all add: pframe_alloc_def Let_def mmo_ref_def anon_ref_def shadow_ref_def mod_obj_def u_def new_frame_def poison_def)
      have fin: "finite (dom (pframes t))" using inv5(2) by (simp add: frames_ok_def)
      have "vm_inv X u" unfolding vm_inv_def
        using 1(3) [OF nf, of ?pf] frames_ok_add [OF inv5(2) _ no, where a = a and x' = "?x"] hash_ok_add [OF inv5(3) nf, of ?pf b] objs_ok_add [OF inv5(4) xt ref nf, of ?pf]
          lists_ok_add [OF inv5(5) fin nf, of ?pf] inv5(6) xt by (simp add: u_def)
      moreover have "frame_added b n a s u" unfolding frame_added_def using 1(2,4) x by (auto simp: u_def t)
      ultimately show ?thesis using run by (auto simp: t)
    next
      case (2 ps')
      have "vm_inv X (t\<lparr>kpages := ps', slab_spare := []\<rparr>)" using it 2(2) by (simp add: vm_inv_def)
      then show ?thesis using sr True 2(1,3) by (auto simp: pframe_alloc_def t)
    qed
  qed
qed


section \<open>What an object shows\<close>

text \<open>
  The contents of a page as seen through an object: the page itself when it is resident, what
  the shadowed object shows when it is not, and zeros at the bottom.
\<close>

inductive sees :: "vmem \<Rightarrow> nat \<Rightarrow> 32 word \<Rightarrow> page \<Rightarrow> bool" for s where
  here: "is_page s b n f \<Longrightarrow> pframes s f = Some pf \<Longrightarrow> sees s b n (page_mem s (pf_addr pf))"
| below: "(\<And>f. \<not> is_page s b n f) \<Longrightarrow> objs s b = Some x \<Longrightarrow> mmo_ops x = Shadow_ops \<Longrightarrow> mmo_shadowed x = Some c \<Longrightarrow> sees s c n p \<Longrightarrow> sees s b n p"
| bottom: "(\<And>f. \<not> is_page s b n f) \<Longrightarrow> objs s b = Some x \<Longrightarrow> mmo_ops x = Anon_ops \<Longrightarrow> sees s b n (\<lambda>_. 0)"

lemma sees_functional:
  assumes "sees s b n p" and "vm_inv X s" and "sees s b n q"
  shows "p = q"
  using assms
proof (induction arbitrary: q rule: sees.induct)
  case (here b n f pf)
  from here.prems(2) show ?case
  proof (cases rule: sees.cases)
    case (here g pg) then show ?thesis using is_page_unique [OF assms(2) here(2) \<open>is_page s b n f\<close>] \<open>pframes s f = Some pf\<close> by simp
  qed (use here.hyps in blast)+
next
  case (below b n x c p)
  from below.prems(2) show ?case
  proof (cases rule: sees.cases)
    case (below y d) then show ?thesis using below.IH [OF assms(2)] \<open>objs s b = Some x\<close> \<open>mmo_shadowed x = Some c\<close> by simp
  qed (use below.hyps in auto)
next
  case (bottom b n x)
  from bottom.prems(2) show ?case by (cases rule: sees.cases) (use bottom.hyps in auto)
qed

text \<open>A later state that keeps all frames and what is in them, and the objects but for their counts.\<close>

definition skeleton :: "mmobj \<Rightarrow> mmobj_ops \<times> nat option \<times> mmo_union" where
  "skeleton x = (mmo_ops x, mmo_shadowed x, mmo_un x)"

definition extends :: "vmem \<Rightarrow> vmem \<Rightarrow> bool" where
  "extends s t \<longleftrightarrow> (\<forall>f pf. pframes s f = Some pf \<longrightarrow> pframes t f = Some pf \<and> page_mem t (pf_addr pf) = page_mem s (pf_addr pf))
     \<and> (\<forall>c. map_option skeleton (objs t c) = map_option skeleton (objs s c))"

definition new_ok :: "vmem \<Rightarrow> vmem \<Rightarrow> bool" where
  "new_ok s t \<longleftrightarrow> (\<forall>g pg c. pframes t g = Some pg \<longrightarrow> pframes s g = None \<longrightarrow> pf_obj pg = Some c \<longrightarrow> sees s c (pf_pagenum pg) (page_mem t (pf_addr pg)))"

lemma extends_refl [simp]: "extends s s"
  by (simp add: extends_def)

lemma extends_trans: "extends s t \<Longrightarrow> extends t u \<Longrightarrow> extends s u"
  unfolding extends_def by metis

lemma extends_page: "extends s t \<Longrightarrow> is_page s b n f \<Longrightarrow> is_page t b n f"
  unfolding extends_def is_page_def by metis

lemma extends_obj:
  assumes "extends s t" and "objs s b = Some x"
  obtains y where "objs t b = Some y" and "mmo_ops y = mmo_ops x" and "mmo_shadowed y = mmo_shadowed x" and "mmo_un y = mmo_un x"
proof -
  have "map_option skeleton (objs t b) = Some (skeleton x)" using assms by (simp add: extends_def)
  then show thesis using that by (cases "objs t b") (auto simp: skeleton_def)
qed

lemma reordered_extends: "reordered s t \<Longrightarrow> extends s t"
  by (simp add: extends_def reorderedD)

text \<open>Adding pages that hold what their object shows anyway is not seen.\<close>

lemma new_ok_page:
  assumes inv: "vm_inv X s" and e: "extends s t" and new: "new_ok s t" and no: "\<And>f. \<not> is_page s b n f" and "sees s b n p" and g: "is_page t b n g"
  shows "sees t b n p"
proof -
  obtain pg where pg: "pframes t g = Some pg" "pf_obj pg = Some b" "pf_pagenum pg = n" using g by (auto simp: is_page_def)
  have "pframes s g = None"
  proof (rule ccontr)
    assume "pframes s g \<noteq> None"
    then have "pframes s g = Some pg" using e pg(1) by (auto simp: extends_def)
    then show False using no [of g] pg by (auto simp: is_page_def)
  qed
  then have "sees s b n (page_mem t (pf_addr pg))" using new pg by (auto simp: new_ok_def)
  then have "p = page_mem t (pf_addr pg)" using sees_functional [OF assms(5) inv] by simp
  then show ?thesis using sees.here [OF g pg(1)] by simp
qed

lemma new_ok_sees:
  assumes "sees s b n p" and "vm_inv X s" and "vm_inv Y t" and e: "extends s t" and new: "new_ok s t"
  shows "sees t b n p"
  using assms(1)
proof (induction rule: sees.induct)
  case (here b n f pf)
  then have "pframes t f = Some pf" "page_mem t (pf_addr pf) = page_mem s (pf_addr pf)" using e by (auto simp: extends_def)
  then show ?case using sees.here [OF extends_page [OF e here(1)], of pf] by simp
next
  case (below b n x c p)
  obtain y where y: "objs t b = Some y" "mmo_ops y = Shadow_ops" "mmo_shadowed y = Some c" using extends_obj [OF e below(2)] below(3,4) by metis
  show ?case
  proof (cases "\<exists>g. is_page t b n g")
    case True
    then show ?thesis using new_ok_page [OF assms(2) e new below(1) sees.below [OF below(1-5)]] by blast
  next
    case False then show ?thesis using sees.below [OF _ y below.IH] by blast
  qed
next
  case (bottom b n x)
  obtain y where y: "objs t b = Some y" "mmo_ops y = Anon_ops" using extends_obj [OF e bottom(2)] bottom(3) by metis
  show ?case
  proof (cases "\<exists>g. is_page t b n g")
    case True
    then show ?thesis using new_ok_page [OF assms(2) e new bottom(1) sees.bottom [OF bottom]] by blast
  next
    case False then show ?thesis using sees.bottom [OF _ y] by blast
  qed
qed


section \<open>Getting a page\<close>

text \<open>Only the lists and marks of frames differ between states with the same pages and objects.\<close>

lemma reordered_sees: "reordered s t \<Longrightarrow> vm_inv X s \<Longrightarrow> vm_inv Y t \<Longrightarrow> sees s b n p \<Longrightarrow> sees t b n p"
  by (rule new_ok_sees [OF _ _ _ reordered_extends]) (auto simp: new_ok_def reorderedD)

text \<open>
  Walking the chain ends at a page that holds what is seen, or at an anonymous object that does
  not have the page.
\<close>

inductive walk_post :: "vmem \<Rightarrow> nat \<Rightarrow> 32 word \<Rightarrow> page \<Rightarrow> nat option \<Rightarrow> nat option \<Rightarrow> bool" for s b n where
  page_found: "c \<le> b \<Longrightarrow> is_page s c n g \<Longrightarrow> pframes s g = Some pg \<Longrightarrow> walk_post s b n (page_mem s (pf_addr pg)) (Some g) temp"
| page_absent: "c \<le> b \<Longrightarrow> objs s c = Some x \<Longrightarrow> mmo_ops x = Anon_ops \<Longrightarrow> (\<And>f. \<not> is_page s c n f) \<Longrightarrow> walk_post s b n (\<lambda>_. 0) None (Some c)"

lemma walk_post_mono: "walk_post s c n p r temp \<Longrightarrow> c \<le> b \<Longrightarrow> walk_post s b n p r temp"
  by (induction rule: walk_post.induct) (blast intro: walk_post.intros order_trans)+

lemma chain_walk_ok:
  assumes "sees s b n p" and "vm_inv X s" and "reordered s u" and "vm_inv X u"
  shows "\<exists>r temp t. chain_walk (Some b) prev n u = Some (r, temp, t) \<and> vm_inv X t \<and> reordered s t \<and> walk_post s b n p r temp"
  using assms
proof (induction arbitrary: u prev rule: sees.induct)
  case (here b n f pf)
  have pu: "is_page u b n f" using here(1) reorderedD(7) [OF here(4)] by simp
  with pframe_get_resident_ok [OF here(5), of b n] obtain g t where g: "pframe_get_resident b n u = Some (Some g, t)" "is_page u b n g" "vm_inv X t" "reordered u t" by blast
  have gf: "g = f" by (rule is_page_unique [OF here(5) g(2) pu])
  have "pf_obj pf = Some b" using here(1,2) by (auto simp: is_page_def)
  then obtain x where "objs s b = Some x" using frames_okD(4) [OF vm_invD(2) [OF here(3)] here(2)] by auto
  then have "objs t b = Some x" using reorderedD(2) [OF here(4)] reorderedD(2) [OF g(4)] by simp
  then have "chain_walk (Some b) prev n u = Some (Some f, prev, t)" using g(1) gf by (subst chain_walk.simps) simp
  moreover have "walk_post s b n (page_mem s (pf_addr pf)) (Some f) prev" using page_found [OF order_refl here(1,2)] .
  ultimately show ?case using g(3) reordered_trans [OF here(4) g(4)] by blast
next
  case (below b n x c p)
  have no: "\<not> is_page u b n f" for f using below(1) reorderedD(7) [OF below(8)] by simp
  then have r: "pframe_get_resident b n u = Some (None, u)" using pframe_get_resident_ok [OF below(9), of b n] by blast
  have "objs u b = Some x" using below(2) reorderedD(2) [OF below(8)] by simp
  then have walk: "chain_walk (Some b) prev n u = chain_walk (Some c) (Some b) n u" using r below(4) by (subst chain_walk.simps) simp
  have "c < b" using objs_okD(8) [OF vm_invD(4) [OF below(7)] below(2) below(4)] .
  then show ?case using below(6) [OF below(7-9), of "Some b"] walk_post_mono [of s c n p _ _ b] unfolding walk by (meson less_imp_le_nat)
next
  case (bottom b n x)
  have no: "\<not> is_page u b n f" for f using bottom(1) reorderedD(7) [OF bottom(5)] by simp
  then have r: "pframe_get_resident b n u = Some (None, u)" using pframe_get_resident_ok [OF bottom(6), of b n] by blast
  have o: "objs u b = Some x" using bottom(2) reorderedD(2) [OF bottom(5)] by simp
  have "mmo_shadowed x = None" using objs_okD(6) [OF vm_invD(4) [OF bottom(4)] bottom(2,3)] .
  moreover have "chain_walk None (Some b) n u = Some (None, Some b, u)" by (subst chain_walk.simps) simp
  ultimately have "chain_walk (Some b) prev n u = Some (None, Some b, u)" using r o by (subst chain_walk.simps) simp
  moreover have "walk_post s b n (\<lambda>_. 0) None (Some b)" using page_absent [OF order_refl bottom(2,3,1)] .
  ultimately show ?case using bottom(5,6) by blast
qed


lemma vm_inv_mem [simp]: "vm_inv X (s\<lparr>page_mem := m\<rparr>) = vm_inv X s"
  by (simp add: vm_inv_def)

text \<open>What no operation on pages changes but allocation.\<close>

definition same_memory :: "vmem \<Rightarrow> vmem \<Rightarrow> bool" where
  "same_memory s t \<longleftrightarrow> objs t = objs s \<and> kpages t = kpages s \<and> slab_results t = slab_results s"

lemma anon_fillpage_ok:
  assumes inv: "vm_inv X s" and pf: "pframes s f = Some pf" and "pf_busy pf" and "pf_pincount pf = 0"
  shows "\<exists>s'. anon_fillpage b f s = Some (0, s') \<and> vm_inv X s' \<and> pframes s' = (pframes s)(f \<mapsto> pf\<lparr>pf_pincount := 1\<rparr>)
    \<and> page_mem s' = (page_mem s)(pf_addr pf := (\<lambda>_. 0)) \<and> same_memory s s'"
proof -
  obtain c where c: "pf_obj pf = Some c" using frames_okD(4) [OF vm_invD(2) [OF inv] pf] by blast
  have p: "is_page s c (pf_pagenum pf) f" using pf c by (auto simp: is_page_def)
  with pframe_get_resident_ok [OF inv, of c "pf_pagenum pf"] obtain g t where
    g: "pframe_get_resident c (pf_pagenum pf) s = Some (Some g, t)" "is_page s c (pf_pagenum pf) g" "vm_inv X t" "reordered s t" by blast
  have gf: "g = f" by (rule is_page_unique [OF inv g(2) p])
  let ?t = "t\<lparr>page_mem := (page_mem t)(pf_addr pf := (\<lambda>_. 0))\<rparr>"
  have "vm_inv X ?t" "pframes ?t f = Some pf" using g(3) pf reorderedD(1) [OF g(4)] by simp_all
  from pframe_pin_ok [OF this] obtain u where u: "pframe_pin f ?t = Some u" "vm_inv X u" "frame_upd f (pf\<lparr>pf_pincount := 1\<rparr>) ?t u" using assms(4) by auto
  have "anon_fillpage b f s = Some (0, u)" using pf assms(3,4) c g(1) gf u(1) reorderedD(1) [OF g(4)] by (simp add: anon_fillpage_def Let_def)
  then show ?thesis using u(2,3) reorderedD [OF g(4)] by (intro exI [of _ u]) (simp add: frame_upd_def same_memory_def)
qed

lemma fill_anon_ok:
  assumes inv: "vm_inv X s" and f: "f \<notin> X" and pf: "pframes s f = Some pf" and pin: "pf_pincount pf = 0" and b: "pf_obj pf = Some b"
    and x: "objs s b = Some x" and an: "mmo_ops x = Anon_ops"
  shows "\<exists>s'. pframe_fill get f s = Some (0, s') \<and> vm_inv X s' \<and> pframes s' = (pframes s)(f \<mapsto> pf\<lparr>pf_pincount := 1, pf_busy := False\<rparr>)
    \<and> page_mem s' = (page_mem s)(pf_addr pf := (\<lambda>_. 0)) \<and> same_memory s s'"
proof -
  let ?p1 = "pf\<lparr>pf_busy := True\<rparr>" and ?p2 = "pf\<lparr>pf_busy := True, pf_pincount := 1\<rparr>"
  obtain s1 where s1: "set_busy True f s = Some s1" "vm_inv (insert f X) s1" "frame_upd f ?p1 s s1" using set_busy_ok [OF inv pf, of True] by auto
  have p1: "pframes s1 f = Some ?p1" using s1(3) by (simp add: frame_upd_def)
  obtain s2 where s2: "anon_fillpage b f s1 = Some (0, s2)" "vm_inv (insert f X) s2" "pframes s2 = (pframes s1)(f \<mapsto> ?p2)"
    "page_mem s2 = (page_mem s1)(pf_addr pf := (\<lambda>_. 0))" "same_memory s1 s2" using anon_fillpage_ok [OF s1(2) p1, of b] pin by auto
  have p2: "pframes s2 f = Some ?p2" by (simp add: s2(3))
  obtain s3 where s3: "set_busy False f s2 = Some s3" "vm_inv (insert f X - {f}) s3" "frame_upd f (?p2\<lparr>pf_busy := False\<rparr>) s2 s3"
    using set_busy_ok [OF s2(2) p2, of False] by auto
  have "pframe_fill get f s = Some (0, s3)" using s1(1,3) p1 b x an s2(1) s3(1) by (simp add: pframe_fill_def frame_upd_def)
  moreover have "vm_inv X s3" using s3(2) f by simp
  ultimately show ?thesis using s1(3) s2(3-5) s3(3) by (intro exI [of _ s3]) (simp add: frame_upd_def same_memory_def)
qed

text \<open>The result of getting a page: it is resident and holds what its object showed, and nothing that was seen has changed.\<close>

definition get_post :: "nat set \<Rightarrow> vmem \<Rightarrow> nat \<Rightarrow> 32 word \<Rightarrow> nat \<Rightarrow> vmem \<Rightarrow> bool" where
  "get_post X s b n f t \<longleftrightarrow> vm_inv X t \<and> extends s t \<and> new_ok s t
     \<and> (\<exists>pf. pframes t f = Some pf \<and> pf_obj pf = Some b \<and> pf_pagenum pf = n \<and> sees s b n (page_mem t (pf_addr pf)))"

text \<open>Memory for the next \<^verbatim>\<open>k\<close> frames: their pages are free, and their slab allocations succeed.\<close>

definition plenty :: "nat \<Rightarrow> vmem \<Rightarrow> bool" where
  "plenty k s \<longleftrightarrow> (\<forall>i < k. slab_results s i) \<and> k \<le> unat (page_free_count (kpages s))"

lemma plenty_not_needed: "plenty (Suc k) s \<Longrightarrow> vm_inv X s \<Longrightarrow> \<not> pageoutd_needed s"
  by (auto simp: plenty_def pageoutd_needed_def dest: vm_invD(6))

lemma get_resident_post:
  assumes inv: "vm_inv X s" and p: "is_page s b n f" and X: "f \<notin> X"
  shows "\<exists>t. get_depth (Suc k) b n s = Some (0, Some f, t) \<and> get_post X s b n f t \<and> reordered s t"
proof -
  from pframe_get_resident_ok [OF inv, of b n] p obtain g t where g: "pframe_get_resident b n s = Some (Some g, t)" "is_page s b n g" "vm_inv X t" "reordered s t" by blast
  have gf: "g = f" by (rule is_page_unique [OF inv g(2) p])
  obtain pf where pf: "pframes s f = Some pf" "pf_obj pf = Some b" "pf_pagenum pf = n" using p by (auto simp: is_page_def)
  have "\<not> pf_busy pf" by (rule frames_okD(3) [OF vm_invD(2) [OF inv] pf(1) X])
  then have "get_depth (Suc k) b n s = Some (0, Some f, t)" using g(1) gf pf(1) reorderedD(1) [OF g(4)] by simp
  moreover have "get_post X s b n f t" using g(3) reordered_extends [OF g(4)] reorderedD [OF g(4)] pf sees.here [OF p pf(1)]
    by (auto simp: get_post_def new_ok_def)
  ultimately show ?thesis using g(4) by blast
qed

text \<open>The allocation that precedes a fill.\<close>

lemma get_alloc:
  assumes inv: "vm_inv X s" and x: "objs s b = Some x" and ref: "0 < mmo_refcount x" and no: "\<And>f. \<not> is_page s b n f" and pl: "plenty (Suc j) s"
  obtains t a where "get_depth (Suc k) b n s = do { (_, u) \<leftarrow> pframe_fill (get_depth k) (next_frame s) t; Some (0, Some (next_frame s), u) }"
    and "vm_inv X t" and "frame_added b n a s t" and "plenty j t"
proof -
  have r: "pframe_get_resident b n s = Some (None, s)" using pframe_get_resident_ok [OF inv, of b n] no by blast
  have "slab_results s 0" "page_free_count (kpages s) \<noteq> 0" using pl by (auto simp: plenty_def)
  with pframe_alloc_ok [OF inv x ref no] obtain t a where t: "pframe_alloc b n s = Some (Some (next_frame s), t)" "vm_inv X t" "frame_added b n a s t" by blast
  have run: "get_depth (Suc k) b n s = do { (_, u) \<leftarrow> pframe_fill (get_depth k) (next_frame s) t; Some (0, Some (next_frame s), u) }"
    using r t(1) plenty_not_needed [OF pl inv] by simp
  have "unat (page_free_count (kpages s) - 1) = unat (page_free_count (kpages s)) - 1" using \<open>page_free_count (kpages s) \<noteq> 0\<close> by (metis unat_minus_one)
  then have "plenty j t" using t(3) pl by (auto simp: plenty_def frame_added_def)
  then show thesis using that run t(2,3) by blast
qed


lemma frame_added_extends: "frame_added b n a s t \<Longrightarrow> vm_inv X s \<Longrightarrow> extends s t"
  unfolding frame_added_def extends_def by (auto simp: skeleton_def dest: next_frame_free)

lemma plenty_busy [simp]: "plenty k (s\<lparr>pframes := fr\<rparr>) = plenty k s"
  by (simp add: plenty_def)

text \<open>Storing into the page of a frame that was not there before, and changing that frame, keeps all that was.\<close>

lemma extends_fill:
  assumes e: "extends s t" and new: "pframes s f = None" and apart: "\<And>g pg. pframes s g = Some pg \<Longrightarrow> pf_addr pg \<noteq> a"
    and fr: "pframes u = (pframes t)(f \<mapsto> pf)" and ob: "objs u = objs t" and mem: "page_mem u = (page_mem t)(a := p)"
  shows "extends s u"
  unfolding extends_def
proof (intro conjI allI impI)
  fix g pg assume g: "pframes s g = Some pg"
  then have "g \<noteq> f" "pf_addr pg \<noteq> a" using new apart by auto
  then show "pframes u g = Some pg" "page_mem u (pf_addr pg) = page_mem s (pf_addr pg)" using e g by (auto simp: extends_def fr mem)
qed (use e in \<open>simp add: extends_def ob\<close>)

lemma get_anon_ok:
  assumes inv: "vm_inv X s" and x: "objs s b = Some x" and an: "mmo_ops x = Anon_ops" and ref: "0 < mmo_refcount x" and pl: "plenty (Suc j) s"
    and X: "\<And>f. is_page s b n f \<Longrightarrow> f \<notin> X" "next_frame s \<notin> X"
  shows "\<exists>f t. get_depth (Suc k) b n s = Some (0, Some f, t) \<and> get_post X s b n f t
    \<and> (\<forall>g pg. pframes t g = Some pg \<longrightarrow> pframes s g = None \<longrightarrow> g = f)"
proof (cases "\<exists>f. is_page s b n f")
  case True
  then obtain f where f: "is_page s b n f" by blast
  then have old: "pframes s f \<noteq> None" by (auto simp: is_page_def)
  from get_resident_post [OF inv f X(1) [OF f], of k] obtain t where t: "get_depth (Suc k) b n s = Some (0, Some f, t)" "get_post X s b n f t" "reordered s t" by blast
  then show ?thesis using reorderedD(1) [OF t(3)] by auto
next
  case False
  then have no: "\<And>f. \<not> is_page s b n f" by blast
  let ?f = "next_frame s"
  obtain t a where t: "get_depth (Suc k) b n s = do { (_, u) \<leftarrow> pframe_fill (get_depth k) ?f t; Some (0, Some ?f, u) }"
    "vm_inv X t" "frame_added b n a s t" by (rule get_alloc [OF inv x ref no pl])
  have pf: "pframes t ?f = Some (new_frame b n a)" using t(3) by (simp add: frame_added_def)
  obtain y where y: "objs t b = Some y" "mmo_ops y = Anon_ops" using extends_obj [OF frame_added_extends [OF t(3) inv] x] an by metis
  obtain u where u: "pframe_fill (get_depth k) ?f t = Some (0, u)" "vm_inv X u" "pframes u = (pframes t)(?f \<mapsto> (new_frame b n a)\<lparr>pf_pincount := 1, pf_busy := False\<rparr>)"
    "page_mem u = (page_mem t)(a := (\<lambda>_. 0))" "same_memory t u"
    using fill_anon_ok [OF t(2) X(2) pf _ _ y, of "get_depth k"] by auto
  have e: "extends s u"
    by (rule extends_fill [OF frame_added_extends [OF t(3) inv] next_frame_free [OF inv] _ u(3) _ u(4)]) (use t(3) u(5) in \<open>auto simp: frame_added_def same_memory_def\<close>)
  have z: "sees s b n (\<lambda>_. 0)" by (rule sees.bottom [OF no x an])
  have "new_ok s u" using z t(3) unfolding new_ok_def by (auto simp: u(3,4) frame_added_def split: if_splits)
  then have "get_post X s b n ?f u" using u(2) e z unfolding get_post_def by (auto simp: u(3,4))
  then show ?thesis using t(1,3) u(1,3) by (auto simp: frame_added_def)
qed


lemma sees_lower:
  assumes "sees s c n p" and "vm_inv X s" and e: "extends s t" and "\<And>d g. d \<le> c \<Longrightarrow> is_page t d n g \<Longrightarrow> is_page s d n g"
  shows "sees t c n p"
  using assms(1,4)
proof (induction rule: sees.induct)
  case (here b n f pf)
  then have "pframes t f = Some pf" "page_mem t (pf_addr pf) = page_mem s (pf_addr pf)" using e by (auto simp: extends_def)
  then show ?case using sees.here [OF extends_page [OF e here(1)], of pf] by simp
next
  case (below b n x c p)
  obtain y where y: "objs t b = Some y" "mmo_ops y = Shadow_ops" "mmo_shadowed y = Some c" using extends_obj [OF e below(2)] below(3,4) by metis
  have cb: "c < b" using objs_okD(8) [OF vm_invD(4) [OF assms(2)] below(2,4)] .
  have "sees t c n p" by (rule below.IH) (use cb below.prems in auto)
  moreover have "\<not> is_page t b n f" for f using below(1) below.prems [of b f] by blast
  ultimately show ?case using sees.below [OF _ y] by blast
next
  case (bottom b n x)
  obtain y where y: "objs t b = Some y" "mmo_ops y = Anon_ops" using extends_obj [OF e bottom(2)] bottom(3) by metis
  have "\<not> is_page t b n f" for f using bottom(1) bottom.prems [of b f] by blast
  then show ?case using sees.bottom [OF _ y] by blast
qed

text \<open>
  Filling a shadow page: the source is found in the chain or got from its bottom, where a page
  of zeros may become resident.
\<close>

definition only_zeros :: "vmem \<Rightarrow> 32 word \<Rightarrow> vmem \<Rightarrow> bool" where
  "only_zeros s n t \<longleftrightarrow> (\<forall>h ph. pframes t h = Some ph \<longrightarrow> pframes s h = None \<longrightarrow> pf_pagenum ph = n \<and> page_mem t (pf_addr ph) = (\<lambda>_. 0)
     \<and> (\<exists>d x. pf_obj ph = Some d \<and> objs s d = Some x \<and> mmo_ops x = Anon_ops \<and> (\<forall>f. \<not> is_page s d n f)))"

lemma fill_source_ok:
  assumes inv: "vm_inv X s" and sees: "sees s c n p" and pl: "plenty 1 s" and X: "next_frame s \<notin> X"
  shows "\<exists>r temp u g pg t. chain_walk (Some c) None n s = Some (r, temp, u) \<and> fill_source (get_depth (Suc k)) r temp n u = Some (Some g, t)
    \<and> vm_inv X t \<and> extends s t \<and> pframes t g = Some pg \<and> page_mem t (pf_addr pg) = p \<and> only_zeros s n t"
proof -
  obtain r temp u where w: "chain_walk (Some c) None n s = Some (r, temp, u)" "vm_inv X u" "reordered s u" "walk_post s c n p r temp"
    using chain_walk_ok [OF sees inv reordered_refl inv, of None] by blast
  note ro = reorderedD [OF w(3)] and eu = reordered_extends [OF w(3)]
  from w(4) show ?thesis
  proof (cases rule: walk_post.cases)
    case (page_found d g pg)
    have "pframes u g = Some pg" "page_mem u (pf_addr pg) = p" "only_zeros s n u" using page_found ro by (simp_all add: only_zeros_def)
    moreover have "fill_source (get_depth (Suc k)) r temp n u = Some (Some g, u)" using page_found(2) by (simp add: fill_source_def)
    ultimately show ?thesis using w(1,2) eu by blast
  next
    case (page_absent d x)
    have xu: "objs u d = Some x" using page_absent(5) ro by simp
    have ref: "0 < mmo_refcount x" by (rule objs_okD(9) [OF vm_invD(4) [OF inv] page_absent(5,6)])
    have plu: "plenty (Suc 0) u" using pl ro by (simp add: plenty_def)
    have no: "\<not> is_page u d n f" for f using page_absent(7) ro by simp
    obtain g t where g: "get_depth (Suc k) d n u = Some (0, Some g, t)" "get_post X u d n g t" "\<forall>h ph. pframes t h = Some ph \<longrightarrow> pframes u h = None \<longrightarrow> h = g"
      using get_anon_ok [OF w(2) xu page_absent(6) ref plu, of n k] no X ro by metis
    then obtain pg where pg: "vm_inv X t" "extends u t" "pframes t g = Some pg" "pf_obj pg = Some d" "pf_pagenum pg = n" "sees u d n (page_mem t (pf_addr pg))"
      by (auto simp: get_post_def)
    have z: "page_mem t (pf_addr pg) = (\<lambda>_. 0)" by (rule sees_functional [OF pg(6) w(2) sees.bottom [OF no xu page_absent(6)]])
    have "fill_source (get_depth (Suc k)) r temp n u = Some (Some g, t)" using page_absent(2,3) g(1) by (simp add: fill_source_def del: get_depth.simps)
    moreover have "only_zeros s n t" unfolding only_zeros_def using g(3) ro(1) pg(3-5) z page_absent(5-7) by auto
    ultimately show ?thesis using w(1) pg(1,3) extends_trans [OF eu pg(2)] page_absent(1) z by blast
  qed
qed

lemma fill_shadow_ok:
  assumes inv: "vm_inv {} t" and pf: "pframes t f = Some pf" and pin: "pf_pincount pf = 0" and busy: "\<not> pf_busy pf" and b: "pf_obj pf = Some b"
    and y: "objs t b = Some y" "mmo_ops y = Shadow_ops" "mmo_shadowed y = Some c" and pl: "plenty 1 t"
    and sees: "sees (t\<lparr>pframes := (pframes t)(f \<mapsto> pf\<lparr>pf_busy := True\<rparr>)\<rparr>) c (pf_pagenum pf) p"
  shows "\<exists>t' u. pframe_fill (get_depth (Suc k)) f t = Some (0, u) \<and> vm_inv {} u \<and> extends (t\<lparr>pframes := (pframes t)(f \<mapsto> pf\<lparr>pf_busy := True\<rparr>)\<rparr>) t'
    \<and> only_zeros (t\<lparr>pframes := (pframes t)(f \<mapsto> pf\<lparr>pf_busy := True\<rparr>)\<rparr>) (pf_pagenum pf) t' \<and> pframes u = (pframes t')(f \<mapsto> pf) \<and> objs u = objs t' \<and> page_mem u = (page_mem t')(pf_addr pf := p)"
proof -
  let ?s = "t\<lparr>pframes := (pframes t)(f \<mapsto> pf\<lparr>pf_busy := True\<rparr>)\<rparr>" and ?n = "pf_pagenum pf"
  have s: "set_busy True f t = Some ?s" using pf by (simp add: set_busy_def mod_frame_def)
  then have ifs: "vm_inv {f} ?s" using set_busy_ok [OF inv pf, of True] by auto
  have nf: "next_frame ?s \<notin> {f}" using frames_okD(1) [OF vm_invD(2) [OF inv] pf] by simp
  obtain r temp u g pg s2 where w: "chain_walk (Some c) None ?n ?s = Some (r, temp, u)" "fill_source (get_depth (Suc k)) r temp ?n u = Some (Some g, s2)"
      "vm_inv {f} s2" "extends ?s s2" "pframes s2 g = Some pg" "page_mem s2 (pf_addr pg) = p" "only_zeros ?s ?n s2"
    using fill_source_ok [OF ifs sees _ nf, of k] pl by auto
  let ?s3 = "s2\<lparr>page_mem := (page_mem s2)(pf_addr pf := p)\<rparr>"
  have "pframes ?s f = Some (pf\<lparr>pf_busy := True\<rparr>)" by simp
  then have f2: "pframes ?s3 f = Some (pf\<lparr>pf_busy := True\<rparr>)" using w(4) unfolding extends_def by simp
  have fill: "shadow_fillpage (get_depth (Suc k)) b f ?s = Some (0, ?s3)"
    using pin y w(1,2,5,6) by (simp add: shadow_fillpage_def del: get_depth.simps)
  have "vm_inv {f} ?s3" using w(3) by simp
  from set_busy_ok [OF this f2, of False] obtain s4 where s4: "set_busy False f ?s3 = Some s4" "vm_inv {} s4" "frame_upd f (pf\<lparr>pf_busy := False\<rparr>) ?s3 s4" by auto
  have "pframe_fill (get_depth (Suc k)) f t = Some (0, s4)" using s b y fill s4(1) by (simp add: pframe_fill_def del: get_depth.simps)
  moreover have "pf\<lparr>pf_busy := False\<rparr> = pf" using busy by simp
  ultimately show ?thesis using s4(2,3) w(4,7) by (intro exI [of _ s2] exI [of _ s4]) (simp add: frame_upd_def)
qed


lemma new_ok_shadow:
  assumes e: "extends s s1" and fr1: "\<And>h. pframes s1 h = None \<longleftrightarrow> pframes s h = None \<and> h \<noteq> f" and z: "only_zeros s1 n t"
    and u: "pframes u = (pframes t)(f \<mapsto> pf)" "page_mem u = (page_mem t)(pf_addr pf := p)" "vm_inv X u"
    and pf: "pf_obj pf = Some b" "pf_pagenum pf = n" and sb: "sees s b n p"
  shows "new_ok s u"
  unfolding new_ok_def
proof (intro allI impI)
  fix h ph d assume h: "pframes u h = Some ph" "pframes s h = None" "pf_obj ph = Some d"
  show "sees s d (pf_pagenum ph) (page_mem u (pf_addr ph))"
  proof (cases "h = f")
    case True then show ?thesis using h u pf sb by simp
  next
    case False
    then have h2: "pframes t h = Some ph" "pframes s1 h = None" using h u(1) fr1 by simp_all
    then obtain y where y: "pf_pagenum ph = n" "page_mem t (pf_addr ph) = (\<lambda>_. 0)" "objs s1 d = Some y" "mmo_ops y = Anon_ops" "\<And>f. \<not> is_page s1 d n f"
      using z h(3) unfolding only_zeros_def by (metis option.inject)
    have "map_option skeleton (objs s d) = Some (skeleton y)" using e y(3) unfolding extends_def by (metis option.simps(9))
    then obtain y' where y': "objs s d = Some y'" "mmo_ops y' = Anon_ops" using y(4) by (auto simp: skeleton_def)
    have nos: "\<not> is_page s d n g" for g using y(5) extends_page [OF e] by blast
    have "pf_addr ph \<noteq> pf_addr pf" using vm_invD(1) [OF u(3)] h(1) u(1) False unfolding mem_ok_def by (metis fun_upd_same)
    then show ?thesis using sees.bottom [OF nos y'] y(1,2) u(2) by simp
  qed
qed

lemma get_shadow_ok:
  assumes inv: "vm_inv {} s" and x: "objs s b = Some x" and sh: "mmo_ops x = Shadow_ops" "mmo_shadowed x = Some c" and ref: "0 < mmo_refcount x"
    and no: "\<And>f. \<not> is_page s b n f" and sees: "sees s c n p" and pl: "plenty 2 s"
  shows "\<exists>f t. get_depth (Suc (Suc k)) b n s = Some (0, Some f, t) \<and> get_post {} s b n f t"
proof -
  let ?f = "next_frame s"
  have cb: "c < b" by (rule objs_okD(8) [OF vm_invD(4) [OF inv] x sh(2)])
  have sb: "sees s b n p" by (rule sees.below [OF no x sh sees])
  have pl2: "plenty (Suc 1) s" using pl by (simp add: numeral_2_eq_2)
  obtain t a where t: "get_depth (Suc (Suc k)) b n s = do { (_, u) \<leftarrow> pframe_fill (get_depth (Suc k)) ?f t; Some (0, Some ?f, u) }"
    "vm_inv {} t" "frame_added b n a s t" "plenty 1 t" by (rule get_alloc [OF inv x ref no pl2])
  let ?pf = "new_frame b n a"
  let ?s1 = "t\<lparr>pframes := (pframes t)(?f \<mapsto> ?pf\<lparr>pf_busy := True\<rparr>)\<rparr>"
  have fr: "pframes t = (pframes s)(?f \<mapsto> ?pf)" and apart: "\<And>g pg. pframes s g = Some pg \<Longrightarrow> pf_addr pg \<noteq> a" using t(3) by (auto simp: frame_added_def)
  have e1: "extends s ?s1" by (rule extends_fill [OF frame_added_extends [OF t(3) inv] next_frame_free [OF inv], where a = a and p = "page_mem t a"]) (use apart in auto)
  have lower: "is_page s d n g" if "d \<le> c" "is_page ?s1 d n g" for d g
    using that cb by (cases "g = ?f") (auto simp: is_page_def fr)
  have c1: "sees ?s1 c n p" by (rule sees_lower [OF sees inv e1 lower])
  have pf: "pframes t ?f = Some ?pf" by (simp add: fr)
  obtain y where y: "objs t b = Some y" "mmo_ops y = Shadow_ops" "mmo_shadowed y = Some c" using extends_obj [OF frame_added_extends [OF t(3) inv] x] sh by metis
  obtain t' u where u: "pframe_fill (get_depth (Suc k)) ?f t = Some (0, u)" "vm_inv {} u" "extends ?s1 t'" "only_zeros ?s1 n t'"
      "pframes u = (pframes t')(?f \<mapsto> ?pf)" "objs u = objs t'" "page_mem u = (page_mem t')(a := p)"
    using fill_shadow_ok [OF t(2) pf _ _ _ y t(4), of p k] c1 by auto
  have eu: "extends s u" by (rule extends_fill [OF extends_trans [OF e1 u(3)] next_frame_free [OF inv] _ u(5,6,7)]) (use apart in auto)
  have "new_ok s u" by (rule new_ok_shadow [OF e1 _ u(4,5) _ u(2) _ _ sb]) (use fr u(7) next_frame_free [OF inv] in auto)
  then have "get_post {} s b n ?f u" using u(2,5,7) eu sb by (auto simp: get_post_def)
  then show ?thesis using t(1) u(1) by (auto simp del: get_depth.simps)
qed

lemma pframe_get_depth: "pframe_get = get_depth (Suc (Suc 0))"
  by (simp only: pframe_get_def numeral_2_eq_2)

lemma pframe_get_ok:
  assumes inv: "vm_inv {} s" and x: "objs s b = Some x" and ref: "0 < mmo_refcount x" and sees: "sees s b n p" and pl: "plenty 2 s"
  shows "\<exists>f t. pframe_get b n s = Some (0, Some f, t) \<and> get_post {} s b n f t"
proof (cases "\<exists>f. is_page s b n f")
  case True then show ?thesis unfolding pframe_get_depth using get_resident_post [OF inv, of b n _ "Suc 0"] by blast
next
  case False
  then have no: "\<And>f. \<not> is_page s b n f" by blast
  have pl1: "plenty (Suc 0) s" using pl by (simp add: plenty_def)
  from sees have "\<exists>f t. get_depth (Suc (Suc 0)) b n s = Some (0, Some f, t) \<and> get_post {} s b n f t"
  proof (cases rule: sees.cases)
    case (here f pf) then show ?thesis using no by blast
  next
    case (below y c)
    then have "y = x" using x by simp
    then show ?thesis using get_shadow_ok [OF inv x _ _ ref no _ pl] below(3,4,5) by blast
  next
    case (bottom y)
    then have "mmo_ops x = Anon_ops" using x by simp
    then show ?thesis using get_anon_ok [OF inv x _ ref pl1, of n "Suc 0"] by blast
  qed
  then show ?thesis unfolding pframe_get_depth .
qed

section \<open>Getting a page, with whatever memory there is\<close>

text \<open>
  When memory is short a get may fail or never return; if it does return, successful or not, the
  invariant holds.
\<close>

lemma pframe_alloc_inv:
  assumes inv: "vm_inv X s" and no: "\<And>f. \<not> is_page s b n f" and run: "pframe_alloc b n s = Some (r, t)"
  shows "vm_inv X t \<and> (r = None \<or> (\<exists>a. r = Some (next_frame s) \<and> frame_added b n a s t))"
proof (cases "\<exists>x. objs s b = Some x \<and> 0 < mmo_refcount x")
  case True then show ?thesis using pframe_alloc_ok [OF inv _ _ no] run by auto
next
  case False
  let ?u = "s\<lparr>slab_results := (\<lambda>i. slab_results s (Suc i))\<rparr>"
  have u: "vm_inv X ?u" using inv by (simp add: vm_inv_def)
  have "mmo_ref b v = None" if "objs v = objs s" for v
    using False that by (cases "objs s b") (auto simp: mmo_ref_def anon_ref_def shadow_ref_def split: mmobj_ops.splits)
  then have ref: "mmo_ref b (v\<lparr>objs := objs s\<rparr>) = None" for v by simp
  show ?thesis
  proof (cases "slab_results s 0")
    case False then show ?thesis using run u by (auto simp: pframe_alloc_def slab_result_def)
  next
    case True
    from vm_invD(1) [OF inv] show ?thesis
    proof (cases rule: mem_ok_alloc)
      case (1 a ps')
      then show ?thesis using run True \<open>\<And>v. objs v = objs s \<Longrightarrow> mmo_ref b v = None\<close>
        by (simp add: pframe_alloc_def slab_result_def Let_def poison_def)
    next
      case (2 ps')
      have "vm_inv X (?u\<lparr>kpages := ps', slab_spare := []\<rparr>)" using u 2(2) by (simp add: vm_inv_def)
      then show ?thesis using run True 2(1) by (auto simp: pframe_alloc_def slab_result_def)
    qed
  qed
qed

lemma resident_inv:
  assumes "pframe_get_resident b n s = Some (r, t)" and "vm_inv X s"
  shows "vm_inv X t \<and> reordered s t \<and> (r = None \<longrightarrow> t = s \<and> (\<forall>f. \<not> is_page s b n f))"
  using pframe_get_resident_ok [OF assms(2), of b n] assms by auto

lemma chain_walk_inv:
  assumes "chain_walk cur temp n s = Some res" and "vm_inv X s"
  shows "vm_inv X (snd (snd res)) \<and> reordered s (snd (snd res))"
proof -
  have "vm_inv X s \<longrightarrow> vm_inv X (snd (snd res)) \<and> reordered s (snd (snd res))"
    by (rule chain_walk.raw_induct [where P = "\<lambda>cur temp n s res. vm_inv X s \<longrightarrow> vm_inv X (snd (snd res)) \<and> reordered s (snd (snd res))", OF _ assms(1)])
      (auto simp: bind_eq_Some_conv split: option.splits if_splits dest!: resident_inv intro: reordered_trans)
  then show ?thesis using assms(2) by blast
qed

definition get_keeps :: "getter \<Rightarrow> bool" where
  "get_keeps get \<longleftrightarrow> (\<forall>X b n s ret r t. vm_inv X s \<longrightarrow> (\<forall>f \<in> X. f < next_frame s) \<longrightarrow> get b n s = Some (ret, r, t) \<longrightarrow> vm_inv X t)"

lemma shadow_fill_inv:
  assumes get: "get_keeps get" and inv: "vm_inv X s" and X: "\<forall>f \<in> X. f < next_frame s" and run: "shadow_fillpage get b f s = Some (ret, t)"
  shows "vm_inv X t"
proof -
  obtain c n src temp u r v a p where w: "chain_walk c None n s = Some (src, temp, u)"
    "fill_source get src temp n u = Some (r, v)" "t = v\<lparr>page_mem := (page_mem v)(a := p)\<rparr>"
    using run by (auto simp: shadow_fillpage_def bind_eq_Some_conv)
  have u: "vm_inv X u" "reordered s u" using chain_walk_inv [OF w(1) inv] by simp_all
  have "vm_inv X v"
  proof (cases src)
    case None
    then obtain d c where "get d n u = Some (c, r, v)" using w(2) by (auto simp: fill_source_def bind_eq_Some_conv)
    then show ?thesis using get u X reorderedD(9) [OF u(2)] unfolding get_keeps_def by metis
  qed (use w(2) u in \<open>simp add: fill_source_def\<close>)
  then show ?thesis by (simp add: w(3))
qed

lemma pframe_fill_inv:
  assumes get: "get_keeps get" and inv: "vm_inv X s" and X: "\<forall>g \<in> X. g < next_frame s" "f \<notin> X" "f < next_frame s"
    and run: "pframe_fill get f s = Some (ret, t)"
  shows "vm_inv X t"
proof -
  obtain pf where pf: "pframes s f = Some pf" using run by (auto simp: pframe_fill_def set_busy_def mod_frame_def bind_eq_Some_conv)
  obtain s1 where s1: "set_busy True f s = Some s1" "vm_inv (insert f X) s1" "frame_upd f (pf\<lparr>pf_busy := True\<rparr>) s s1" using set_busy_ok [OF inv pf, of True] by auto
  obtain b ops s2 where r: "(case ops of Anon_ops \<Rightarrow> anon_fillpage b f s1 | Shadow_ops \<Rightarrow> shadow_fillpage get b f s1) = Some (ret, s2)"
    "set_busy False f s2 = Some t" using run s1(1) by (auto simp: pframe_fill_def bind_eq_Some_conv)
  have X1: "\<forall>g \<in> insert f X. g < next_frame s1" using X s1(3) by (simp add: frame_upd_def)
  have "vm_inv (insert f X) s2"
  proof (cases ops)
    case Anon_ops
    then obtain p1 where "pframes s1 f = Some p1" "pf_busy p1" "pf_pincount p1 = 0" using r(1) by (auto simp: anon_fillpage_def bind_eq_Some_conv)
    then show ?thesis using anon_fillpage_ok [OF s1(2), of f p1 b] r(1) Anon_ops by auto
  next
    case Shadow_ops then show ?thesis using shadow_fill_inv [OF get s1(2) X1] r(1) by simp
  qed
  moreover obtain p2 where "pframes s2 f = Some p2" using r(2) by (auto simp: set_busy_def mod_frame_def bind_eq_Some_conv)
  ultimately show ?thesis using set_busy_ok [of "insert f X" s2 f p2 False] r(2) X(2) by auto
qed

lemma get_depth_keeps: "get_keeps (get_depth k)"
proof (induction k)
  case 0 then show ?case by (simp add: get_keeps_def)
next
  case (Suc k)
  show ?case unfolding get_keeps_def
  proof (intro allI impI)
    fix X b n s ret r t assume inv: "vm_inv X s" and X: "\<forall>f \<in> X. f < next_frame s" and run: "get_depth (Suc k) b n s = Some (ret, r, t)"
    obtain f u where f: "pframe_get_resident b n s = Some (f, u)" using run by (auto simp: bind_eq_Some_conv)
    note i = resident_inv [OF f inv]
    show "vm_inv X t"
    proof (cases f)
      case (Some g) then show ?thesis using run f i by (auto simp: bind_eq_Some_conv)
    next
      case None
      then have us: "u = s" "\<And>f. \<not> is_page s b n f" using i by blast+
      obtain h v where h: "pframe_alloc b n s = Some (h, v)" using run f None us(1) by (auto simp: bind_eq_Some_conv)
      note a = pframe_alloc_inv [OF inv us(2) h]
      show ?thesis
      proof (cases h)
        case None then show ?thesis using run f \<open>f = None\<close> us(1) h a by (auto simp: bind_eq_Some_conv)
      next
        case (Some g)
        then have g: "g = next_frame s" "next_frame v = Suc (next_frame s)" using a by (auto simp: frame_added_def)
        obtain c where "pframe_fill (get_depth k) g v = Some (c, t)" using run f \<open>f = None\<close> us(1) h Some by (auto simp: bind_eq_Some_conv)
        moreover have "\<forall>x \<in> X. x < next_frame v" "g \<notin> X" "g < next_frame v" using X g by auto
        ultimately show ?thesis using pframe_fill_inv [OF Suc, of X v g c t] a by blast
      qed
    qed
  qed
qed

lemma pframe_get_inv: "vm_inv {} s \<Longrightarrow> pframe_get b n s = Some (ret, r, t) \<Longrightarrow> vm_inv {} t"
  using get_depth_keeps [of 2] unfolding get_keeps_def pframe_get_def by blast

end
