(* ===== verification/PframeProps.thy ===== *)
theory PframeProps
imports PframeInv
begin

text \<open>
  Dropping references, cleaning, freeing and paging out keep the invariant; the states that
  callers of the page frame code can bring about without dropping the last reference to a shadow
  object that has pages, and what holds in them; and what goes wrong when that reference is dropped.
\<close>

section \<open>Releasing pages\<close>

text \<open>The same frames hold the same pages, with other marks and pin counts.\<close>

definition same_pages :: "vmem \<Rightarrow> vmem \<Rightarrow> bool" where
  "same_pages s t \<longleftrightarrow> (\<forall>f. map_option shape (pframes t f) = map_option shape (pframes s f)) \<and> objs t = objs s \<and> page_mem t = page_mem s"

lemma same_pages_refl [simp]: "same_pages s s"
  by (simp add: same_pages_def)

lemma same_pages_trans: "same_pages s t \<Longrightarrow> same_pages t u \<Longrightarrow> same_pages s u"
  by (simp add: same_pages_def)

lemma same_pages_frame:
  assumes "same_pages s t" and "pframes s f = Some pf"
  obtains q where "pframes t f = Some q" and "pf_obj q = pf_obj pf" and "pf_pagenum q = pf_pagenum pf" and "pf_addr q = pf_addr pf"
proof -
  have "map_option shape (pframes t f) = Some (shape pf)" using assms by (simp add: same_pages_def)
  then show thesis using that by (auto simp: shape_def)
qed

lemma frame_upd_same_pages: "frame_upd f pf' s t \<Longrightarrow> pframes s f = Some pf \<Longrightarrow> shape pf' = shape pf \<Longrightarrow> same_pages s t"
  by (simp add: frame_upd_def same_pages_def)

lemma reordered_same_pages: "reordered s t \<Longrightarrow> same_pages s t"
  by (simp add: same_pages_def reorderedD)

text \<open>Frames are not dirty unless they were.\<close>

definition no_dirtier :: "vmem \<Rightarrow> vmem \<Rightarrow> bool" where
  "no_dirtier s t \<longleftrightarrow> (\<forall>f q. pframes t f = Some q \<longrightarrow> pf_dirty q \<longrightarrow> (\<exists>p. pframes s f = Some p \<and> pf_dirty p))"

lemma no_dirtier_refl [simp]: "no_dirtier s s"
  by (simp add: no_dirtier_def)

lemma no_dirtier_trans: "no_dirtier s t \<Longrightarrow> no_dirtier t u \<Longrightarrow> no_dirtier s u"
  unfolding no_dirtier_def by blast

lemma frame_upd_no_dirtier: "frame_upd f pf' s t \<Longrightarrow> pframes s f = Some pf \<Longrightarrow> (pf_dirty pf' \<Longrightarrow> pf_dirty pf) \<Longrightarrow> no_dirtier s t"
  by (auto simp: frame_upd_def no_dirtier_def)

lemma unpin_times_ok:
  "vm_inv X s \<Longrightarrow> pframes s f = Some pf \<Longrightarrow> pf_pincount pf = int n \<Longrightarrow>
   \<exists>s' q. unpin_times n f s = Some s' \<and> vm_inv X s' \<and> same_pages s s' \<and> no_dirtier s s' \<and> pframes s' f = Some q \<and> pf_pincount q = 0 \<and> pf_busy q = pf_busy pf \<and> pf_dirty q = pf_dirty pf"
proof (induction n arbitrary: s pf)
  case (Suc n)
  obtain t where t: "pframe_unpin f s = Some t" "vm_inv X t" "frame_upd f (pf\<lparr>pf_pincount := pf_pincount pf - 1\<rparr>) s t"
    using pframe_unpin_ok [OF Suc.prems(1,2)] Suc.prems(3) by auto
  let ?q = "pf\<lparr>pf_pincount := pf_pincount pf - 1\<rparr>"
  have q: "pframes t f = Some ?q" using t(3) by (simp add: frame_upd_def)
  have st: "same_pages s t" by (rule frame_upd_same_pages [OF t(3) Suc.prems(2)]) (simp add: shape_def)
  have nd: "no_dirtier s t" by (rule frame_upd_no_dirtier [OF t(3) Suc.prems(2)]) simp
  from Suc.IH [OF t(2) q] Suc.prems(3) show ?case using t(1) same_pages_trans [OF st] no_dirtier_trans [OF nd] by auto
qed auto

lemma unpin_all_ok:
  assumes inv: "vm_inv X s" and pf: "pframes s f = Some pf"
  shows "\<exists>s' q. unpin_all f s = Some s' \<and> vm_inv X s' \<and> same_pages s s' \<and> no_dirtier s s' \<and> pframes s' f = Some q \<and> pf_pincount q = 0 \<and> pf_busy q = pf_busy pf \<and> pf_dirty q = pf_dirty pf"
  using unpin_times_ok [OF inv pf, of "nat (pf_pincount pf)"] frames_okD(2) [OF vm_invD(2) [OF inv] pf] pf by (simp add: unpin_all_def)

lemma vm_inv_unmaps [simp]: "vm_inv X (s\<lparr>pt_unmaps := u\<rparr>) = vm_inv X s"
  by (simp add: vm_inv_def)

lemma remove_from_pts_anon:
  assumes inv: "vm_inv X s" and pf: "pframes s f = Some pf" "pf_obj pf = Some b" and x: "objs s b = Some x" "mmo_ops x = Anon_ops"
  shows "\<exists>u. pframe_remove_from_pts f s = Some (s\<lparr>pt_unmaps := u\<rparr>)"
proof -
  note o = vm_invD(4) [OF inv]
  obtain vs where "mmo_un x = Vmas vs" using objs_okD(7) [OF o x] by blast
  then have "mmobj_bottom_vmas b s = Some vs" using objs_okD(6) [OF o x] x by (simp add: mmobj_bottom_vmas_def)
  then show ?thesis using pf by (auto simp: pframe_remove_from_pts_def Let_def)
qed

lemma clean_anon_ok:
  assumes inv: "vm_inv {} s" and pf: "pframes s f = Some pf" "pf_obj pf = Some b" and x: "objs s b = Some x" "mmo_ops x = Anon_ops"
    and d: "pf_dirty pf" "pf_pincount pf = 0"
  shows "\<exists>s'. pframe_clean put f s = Some (0, s') \<and> vm_inv {} s' \<and> same_pages s s' \<and> pframes s' = (pframes s)(f \<mapsto> pf\<lparr>pf_dirty := False, pf_busy := False\<rparr>)"
proof -
  let ?p1 = "pf\<lparr>pf_dirty := False\<rparr>"
  obtain s1 where s1: "set_dirty False f s = Some s1" "vm_inv {} s1" "frame_upd f ?p1 s s1" using set_dirty_ok [OF inv pf(1), of False] by blast
  have p1: "pframes s1 f = Some ?p1" and x1: "objs s1 b = Some x" using s1(3) x by (simp_all add: frame_upd_def)
  obtain um where um: "pframe_remove_from_pts f s1 = Some (s1\<lparr>pt_unmaps := um\<rparr>)" using remove_from_pts_anon [OF s1(2) p1 _ x1 x(2)] pf(2) by auto
  let ?s2 = "s1\<lparr>pt_unmaps := um\<rparr>" and ?p3 = "?p1\<lparr>pf_busy := True\<rparr>"
  obtain s3 where s3: "set_busy True f ?s2 = Some s3" "vm_inv {f} s3" "frame_upd f ?p3 ?s2 s3" using set_busy_ok [of "{}" ?s2 f ?p1 True] s1(2) p1 by auto
  have p3: "pframes s3 f = Some ?p3" and x3: "objs s3 b = Some x" using s3(3) x1 by (simp_all add: frame_upd_def)
  have "is_page s3 b (pf_pagenum pf) f" using p3 pf(2) by (simp add: is_page_def)
  with pframe_get_resident_ok [OF s3(2), of b "pf_pagenum pf"] obtain g t where
    g: "pframe_get_resident b (pf_pagenum pf) s3 = Some (Some g, t)" "is_page s3 b (pf_pagenum pf) g" "vm_inv {f} t" "reordered s3 t" by blast
  have gf: "g = f" by (rule is_page_unique [OF s3(2) g(2)]) fact
  have pt: "pframes t f = Some ?p3" using p3 reorderedD(1) [OF g(4)] by simp
  have clean: "anon_cleanpage b f s3 = Some (0, t)" using p3 pf(2) g(1) gf pt by (simp add: anon_cleanpage_def)
  obtain s4 where s4: "set_busy False f t = Some s4" "vm_inv {} s4" "frame_upd f (?p3\<lparr>pf_busy := False\<rparr>) t s4" using set_busy_ok [OF g(3) pt, of False] by auto
  have "pframe_clean put f s = Some (0, s4)" using pf d s1(1) um s3(1) x3 x(2) clean s4(1) by (simp add: pframe_clean_def)
  moreover have "same_pages s s4" using frame_upd_same_pages [OF s1(3) pf(1)] frame_upd_same_pages [OF s3(3), of ?p1] p1 reordered_same_pages [OF g(4)] frame_upd_same_pages [OF s4(3) pt]
    by (simp add: shape_def same_pages_def)
  moreover have "pframes s4 = (pframes s)(f \<mapsto> pf\<lparr>pf_dirty := False, pf_busy := False\<rparr>)"
    using s1(3) s3(3) s4(3) reorderedD(1) [OF g(4)] by (simp add: frame_upd_def)
  ultimately show ?thesis using s4(2) by blast
qed

lemma release_anon_ok:
  assumes inv: "vm_inv {} s" and pf: "pframes s f = Some pf" "pf_obj pf = Some b" and x: "objs s b = Some x" "mmo_ops x = Anon_ops"
  shows "\<exists>s'. release_page put f s = Some s' \<and> vm_inv {} s' \<and> same_pages s s' \<and> no_dirtier s s'"
proof -
  obtain t q where t: "unpin_all f s = Some t" "vm_inv {} t" "same_pages s t" "pframes t f = Some q" "pf_pincount q = 0" "no_dirtier s t" using unpin_all_ok [OF inv pf(1)] by blast
  have nb: "\<not> pf_busy q" using frames_okD(3) [OF vm_invD(2) [OF t(2)] t(4)] by simp
  show ?thesis
  proof (cases "pf_dirty q")
    case False then show ?thesis using t nb by (simp add: release_page_def)
  next
    case True
    have "pf_obj q = Some b" "objs t b = Some x" using same_pages_frame [OF t(3) pf(1)] t(3,4) pf(2) x(1) by (auto simp: same_pages_def)
    from clean_anon_ok [OF t(2,4) this x(2) True t(5), of put] obtain u where u: "pframe_clean put f t = Some (0, u)" "vm_inv {} u" "same_pages t u"
      "pframes u = (pframes t)(f \<mapsto> q\<lparr>pf_dirty := False, pf_busy := False\<rparr>)" by blast
    have "no_dirtier t u" by (simp add: no_dirtier_def u(4))
    then show ?thesis using t nb True u same_pages_trans [OF t(3)] no_dirtier_trans [OF t(6)] by (auto simp: release_page_def)
  qed
qed

lemma each_release_anon:
  assumes "vm_inv {} s" and "objs s b = Some x" and "mmo_ops x = Anon_ops" and "\<And>f. f \<in> set fs \<Longrightarrow> \<exists>pf. pframes s f = Some pf \<and> pf_obj pf = Some b"
  shows "\<exists>s'. each_page (release_page put) fs s = Some s' \<and> vm_inv {} s' \<and> same_pages s s' \<and> no_dirtier s s'"
  using assms
proof (induction fs arbitrary: s)
  case (Cons f fs)
  obtain pf where pf: "pframes s f = Some pf" "pf_obj pf = Some b" using Cons.prems(4) [of f] by auto
  obtain t where t: "release_page put f s = Some t" "vm_inv {} t" "same_pages s t" "no_dirtier s t" using release_anon_ok [OF Cons.prems(1) pf Cons.prems(2,3)] by blast
  have "\<exists>q. pframes t g = Some q \<and> pf_obj q = Some b" if "g \<in> set fs" for g
    using Cons.prems(4) [of g] that same_pages_frame [OF t(3)] by (metis list.set_intros(2))
  then obtain u where "each_page (release_page put) fs t = Some u" "vm_inv {} u" "same_pages t u" "no_dirtier t u"
    using Cons.IH [OF t(2) _ Cons.prems(3)] t(3) Cons.prems(2) by (auto simp: same_pages_def)
  then show ?case using t same_pages_trans [OF t(3)] no_dirtier_trans [OF t(4)] by auto
qed auto

section \<open>Freeing frames and dropping references\<close>

lemma mem_ok_free:
  assumes m: "mem_ok fr spare ps" and f: "fr f = Some pf"
  shows "\<exists>ps'. page_free (pf_addr pf) ps = Some ps' \<and> mem_ok (fr(f := None)) spare ps'"
proof -
  obtain B where ok: "pages_ok (frame_blocks fr \<union> B) ps" and dis: "frame_blocks fr \<inter> B = {}" and sl: "slabs_ok spare B"
    and inj: "\<And>f g pf pg. fr f = Some pf \<Longrightarrow> fr g = Some pg \<Longrightarrow> pf_addr pf = pf_addr pg \<Longrightarrow> f = g"
    using m unfolding mem_ok_def by blast
  have mine: "(0, pf_addr pf) \<in> frame_blocks fr" using f by (auto simp: frame_blocks_def)
  have "frame_blocks (fr(f := None)) = frame_blocks fr - {(0, pf_addr pf)}" using inj f by (auto simp: frame_blocks_def split: if_splits) (metis option.inject)+
  moreover from this have "frame_blocks fr \<union> B - {(0, pf_addr pf)} = frame_blocks (fr(f := None)) \<union> B" "frame_blocks (fr(f := None)) \<inter> B = {}" using mine dis by auto
  moreover obtain ps' where "page_free (pf_addr pf) ps = Some ps'" "pages_ok (frame_blocks fr \<union> B - {(0, pf_addr pf)}) ps'"
    using kp.give_law [OF ok, of "pf_addr pf"] mine by auto
  moreover have "g = h" if "(fr(f := None)) g = Some pg" "(fr(f := None)) h = Some ph" "pf_addr pg = pf_addr ph" for g h pg ph
    using that inj by (auto split: if_splits)
  ultimately show ?thesis using sl unfolding mem_ok_def by metis
qed

lemma hash_ok_remove:
  assumes h: "hash_ok fr h" and f: "fr f = Some pf" and pf: "pf_obj pf = Some b"
  shows "hash_ok (fr(f := None)) (h(hash_page b (pf_pagenum pf) := remove1 f (h (hash_page b (pf_pagenum pf)))))"
  using h f pf unfolding hash_ok_def by (auto split: if_splits)

lemma lists_ok_remove:
  assumes l: "lists_ok fr al pl na np" and fin: "finite (dom fr)" and f: "fr f = Some pf" and p: "pf_pincount pf = 0"
  shows "lists_ok (fr(f := None)) (remove1 f al) pl (na - 1) np"
proof -
  have al: "f \<in> set al" "distinct al" using assms by (auto simp: lists_ok_def)
  have "length al = Suc (length (remove1 f al))" using length_remove1_in [OF al(1)] by simp
  moreover have "(\<Sum>g \<in> dom fr. pf_pincount (the (fr g))) = (\<Sum>g \<in> dom fr - {f}. pf_pincount (the ((fr(f := None)) g)))"
  proof -
    have "(\<Sum>g \<in> dom fr. pf_pincount (the (fr g))) = (\<Sum>g \<in> dom fr - {f}. pf_pincount (the (fr g)))"
      using sum.remove [OF fin domI [of fr f pf], of "\<lambda>g. pf_pincount (the (fr g))"] f p by simp
    also have "\<dots> = (\<Sum>g \<in> dom fr - {f}. pf_pincount (the ((fr(f := None)) g)))" by (rule sum.cong) auto
    finally show ?thesis .
  qed
  ultimately show ?thesis using l al f p by (auto simp: lists_ok_def split: if_splits)
qed

lemma objs_ok_remove:
  assumes o: "objs_ok fr ob no" and x: "ob b = Some x" and f: "fr f = Some pf" and pf: "pf_obj pf = Some b"
  shows "objs_ok (fr(f := None)) (ob(b \<mapsto> x\<lparr>mmo_nrespages := mmo_nrespages x - 1, mmo_respages := remove1 f (mmo_respages x)\<rparr>)) no"
  unfolding objs_ok_def
proof (intro allI impI)
  fix c y assume y: "(ob(b \<mapsto> x\<lparr>mmo_nrespages := mmo_nrespages x - 1, mmo_respages := remove1 f (mmo_respages x)\<rparr>)) c = Some y"
  show "obj_ok (fr(f := None)) no c y"
  proof (cases "c = b")
    case True
    have "f \<in> set (mmo_respages x)" using objs_okD(3) [OF o x] f pf by auto
    then have "length (mmo_respages x) = Suc (length (remove1 f (mmo_respages x)))" using length_remove1_in [of f "mmo_respages x"] by simp
    moreover have "obj_ok fr no b x" using o x by (simp add: objs_ok_def)
    ultimately show ?thesis using y True by (auto simp: obj_ok_def split: if_splits)
  next
    case False
    then have "obj_ok fr no c y" using o y by (simp add: objs_ok_def)
    moreover have "{g. \<exists>pg. (fr(f := None)) g = Some pg \<and> pf_obj pg = Some c} = {g. \<exists>pg. fr g = Some pg \<and> pf_obj pg = Some c}" using False f pf by auto
    ultimately show ?thesis by (simp add: obj_ok_def)
  qed
qed

lemma frames_ok_obj: "frames_ok X fr ob nf \<Longrightarrow> frames_ok X fr (ob(b \<mapsto> x)) nf"
  unfolding frames_ok_def
proof (elim conjE, intro conjI allI impI)
  fix f pf assume "\<forall>f pf. fr f = Some pf \<longrightarrow> f < nf \<and> 0 \<le> pf_pincount pf \<and> (f \<in> X \<or> \<not> pf_busy pf) \<and> (\<exists>b. pf_obj pf = Some b \<and> ob b \<noteq> None)"
    and "fr f = Some pf"
  then obtain c where "pf_obj pf = Some c" "ob c \<noteq> None" by blast
  then show "\<exists>c. pf_obj pf = Some c \<and> (ob(b \<mapsto> x)) c \<noteq> None" by (intro exI [of _ c]) simp
qed blast+

lemma frames_ok_remove: "frames_ok X fr ob nf \<Longrightarrow> frames_ok X (fr(f := None)) ob nf"
  unfolding frames_ok_def by (auto split: if_splits)

text \<open>Another count for an object.\<close>

lemma vm_inv_refcount:
  assumes inv: "vm_inv X s" and x: "objs s b = Some x" and r: "mmo_nrespages x \<le> r" "mmo_ops x = Anon_ops \<Longrightarrow> 0 < r"
    "mmo_ops x = Shadow_ops \<Longrightarrow> mmo_respages x \<noteq> [] \<Longrightarrow> mmo_nrespages x < r"
  shows "vm_inv X (s\<lparr>objs := (objs s)(b \<mapsto> x\<lparr>mmo_refcount := r\<rparr>)\<rparr>)"
proof -
  have "obj_ok (pframes s) (next_obj s) b x" using vm_invD(4) [OF inv] x by (simp add: objs_ok_def)
  then have "obj_ok (pframes s) (next_obj s) b (x\<lparr>mmo_refcount := r\<rparr>)" using r by (simp add: obj_ok_def)
  then have "objs_ok (pframes s) ((objs s)(b \<mapsto> x\<lparr>mmo_refcount := r\<rparr>)) (next_obj s)" using vm_invD(4) [OF inv] by (simp add: objs_ok_def)
  moreover have "frames_ok X (pframes s) ((objs s)(b \<mapsto> x\<lparr>mmo_refcount := r\<rparr>)) (next_frame s)" by (rule frames_ok_obj [OF vm_invD(2) [OF inv]])
  ultimately show ?thesis using inv by (simp add: vm_inv_def)
qed

lemma vm_inv_drop:
  assumes inv: "vm_inv X s" and x: "objs s b = Some x" and r: "mmo_nrespages x = 0"
  shows "vm_inv X (s\<lparr>objs := (objs s)(b := None)\<rparr>)"
proof -
  have none: "pf_obj pf \<noteq> Some b" if "pframes s f = Some pf" for f pf
    using that objs_okD(3,4) [OF vm_invD(4) [OF inv] x] r by auto
  have "frames_ok X (pframes s) ((objs s)(b := None)) (next_frame s)" using vm_invD(2) [OF inv] none unfolding frames_ok_def by (auto split: if_splits) metis
  then show ?thesis using inv by (simp add: vm_inv_def objs_ok_def)
qed

lemma anon_put_ok:
  assumes inv: "vm_inv {} s" and x: "objs s b = Some x" "mmo_ops x = Anon_ops" and held: "mmo_nrespages x < mmo_refcount x"
  shows "\<exists>s'. anon_put put b s = Some s' \<and> vm_inv {} s' \<and> (\<forall>f. map_option shape (pframes s' f) = map_option shape (pframes s f)) \<and> page_mem s' = page_mem s \<and> no_dirtier s s'
    \<and> objs s' = (objs s)(b := if mmo_refcount x = 1 then None else Some (x\<lparr>mmo_refcount := mmo_refcount x - 1\<rparr>))"
proof -
  note o = objs_okD [OF vm_invD(4) [OF inv] x(1)]
  let ?run = "if mmo_refcount x - mmo_nrespages x = 1 then each_page (release_page put) (mmo_respages x) s else Some s"
  have "\<exists>t. ?run = Some t \<and> vm_inv {} t \<and> same_pages s t \<and> no_dirtier s t" using each_release_anon [OF inv x, of "mmo_respages x" put] o(3) inv by auto
  then obtain t where t: "?run = Some t" "vm_inv {} t" "same_pages s t" "no_dirtier s t" by blast
  let ?x = "x\<lparr>mmo_refcount := mmo_refcount x - 1\<rparr>"
  let ?t = "t\<lparr>objs := (objs t)(b \<mapsto> ?x)\<rparr>"
  have xt: "objs t b = Some x" using t(3) x(1) by (simp add: same_pages_def)
  have run: "anon_put put b s = Some (if mmo_refcount x - 1 = 0 \<and> mmo_nrespages x = 0 then ?t\<lparr>objs := (objs ?t)(b := None)\<rparr> else ?t)"
    using x o(9) t(1) xt by (auto simp: anon_put_def mod_obj_def)
  show ?thesis
  proof (cases "mmo_refcount x = 1")
    case True
    then have n0: "mmo_nrespages x = 0" using held o(4) by simp
    have "vm_inv {} (t\<lparr>objs := (objs t)(b := None)\<rparr>)" by (rule vm_inv_drop [OF t(2) xt n0])
    then show ?thesis using run True n0 t(3,4) by (simp add: same_pages_def no_dirtier_def)
  next
    case False
    have "vm_inv {} ?t" by (rule vm_inv_refcount [OF t(2) xt]) (use held o(9) x(2) False in auto)
    then show ?thesis using run False t(3,4) by (simp add: same_pages_def no_dirtier_def)
  qed
qed

lemma mmo_put_anon:
  assumes "objs s b = Some x" and "mmo_ops x = Anon_ops" and "0 \<le> mmo_refcount x"
  shows "mmo_put b s = anon_put (put_depth (nat (mmo_refcount x))) b s"
  using assms by (simp add: mmo_put_def)

text \<open>
  A put by somebody who holds a reference, unless it is the last one to a shadow object that has
  pages.
\<close>

definition after_put :: "mmobj \<Rightarrow> mmobj option" where
  "after_put x = (if mmo_ops x = Anon_ops \<and> mmo_refcount x = 1 then None else Some (x\<lparr>mmo_refcount := mmo_refcount x - 1\<rparr>))"

lemma mmo_put_ok:
  assumes inv: "vm_inv {} s" and x: "objs s b = Some x" and held: "mmo_nrespages x < mmo_refcount x"
    and last: "mmo_ops x = Shadow_ops \<Longrightarrow> mmo_respages x \<noteq> [] \<Longrightarrow> mmo_nrespages x + 1 < mmo_refcount x"
  shows "\<exists>s'. mmo_put b s = Some s' \<and> vm_inv {} s' \<and> (\<forall>f. map_option shape (pframes s' f) = map_option shape (pframes s f)) \<and> page_mem s' = page_mem s \<and> no_dirtier s s'
    \<and> objs s' = (objs s)(b := after_put x)"
proof (cases "mmo_ops x")
  case Anon_ops
  have "0 \<le> mmo_refcount x" using objs_okD(9) [OF vm_invD(4) [OF inv] x Anon_ops] by simp
  then show ?thesis using anon_put_ok [OF inv x Anon_ops held, of "put_depth (nat (mmo_refcount x))"] mmo_put_anon [OF x Anon_ops] Anon_ops by (simp add: after_put_def)
next
  case Shadow_ops
  let ?s = "s\<lparr>objs := (objs s)(b \<mapsto> x\<lparr>mmo_refcount := mmo_refcount x - 1\<rparr>)\<rparr>"
  have n: "0 \<le> mmo_nrespages x" "mmo_respages x = [] \<longleftrightarrow> mmo_nrespages x = 0" using objs_okD(4) [OF vm_invD(4) [OF inv] x] by auto
  have "vm_inv {} ?s" by (rule vm_inv_refcount [OF inv x]) (use held last Shadow_ops in auto)
  moreover have "mmo_put b s = Some ?s" using x Shadow_ops held last n by (auto simp: mmo_put_def shadow_put_def mod_obj_def)
  ultimately show ?thesis using Shadow_ops by (simp add: after_put_def no_dirtier_def)
qed

lemma remove_from_ptsE:
  assumes "pframe_remove_from_pts f s = Some s'"
  obtains um where "s' = s\<lparr>pt_unmaps := um\<rparr>"
  using assms by (auto simp: pframe_remove_from_pts_def bind_eq_Some_conv Let_def)

lemma pframe_free_ok:
  assumes inv: "vm_inv {} s" and pf: "pframes s f = Some pf" "pf_pincount pf = 0" "pf_obj pf = Some b" and x: "objs s b = Some x"
    and um: "pframe_remove_from_pts f s = Some (s\<lparr>pt_unmaps := um\<rparr>)"
  shows "\<exists>s'. pframe_free mmo_put f s = Some s' \<and> vm_inv {} s' \<and> (\<forall>g. map_option shape (pframes s' g) = (if g = f then None else map_option shape (pframes s g)))
    \<and> page_mem s' = (page_mem s)(pf_addr pf := (\<lambda>_. MM_POISON_FREE)) \<and> no_dirtier s s'
    \<and> objs s' = (objs s)(b := after_put (x\<lparr>mmo_nrespages := mmo_nrespages x - 1, mmo_respages := remove1 f (mmo_respages x)\<rparr>))"
proof -
  note o = objs_okD [OF vm_invD(4) [OF inv] x(1)]
  have nb: "\<not> pf_busy pf" using frames_okD(3) [OF vm_invD(2) [OF inv] pf(1)] by simp
  obtain ps where ps: "page_free (pf_addr pf) (kpages s) = Some ps" "mem_ok ((pframes s)(f := None)) (slab_spare s) ps" using mem_ok_free [OF vm_invD(1) [OF inv] pf(1)] by blast
  let ?h = "hash_page b (pf_pagenum pf)"
  let ?x = "x\<lparr>mmo_nrespages := mmo_nrespages x - 1, mmo_respages := remove1 f (mmo_respages x)\<rparr>"
  let ?t = "s\<lparr>pt_unmaps := um, pframe_hash := (pframe_hash s)(?h := remove1 f (pframe_hash s ?h)), nallocated := nallocated s - 1,
         alloc_list := remove1 f (alloc_list s), kpages := ps, pframes := (pframes s)(f := None),
         page_mem := (page_mem s)(pf_addr pf := (\<lambda>_. MM_POISON_FREE)), objs := (objs s)(b \<mapsto> ?x)\<rparr>"
  have "frames_ok {} (pframes ?t) (objs ?t) (next_frame ?t)" using frames_ok_remove [OF frames_ok_obj [OF vm_invD(2) [OF inv], of b ?x], of f] by simp
  moreover have "finite (dom (pframes s))" using vm_invD(2) [OF inv] by (simp add: frames_ok_def)
  ultimately have t: "vm_inv {} ?t"
    using ps(2) hash_ok_remove [OF vm_invD(3) [OF inv] pf(1,3)] objs_ok_remove [OF vm_invD(4) [OF inv] x(1) pf(1,3)] lists_ok_remove [OF vm_invD(5) [OF inv] _ pf(1,2)]
      vm_invD(6) [OF inv] by (simp add: vm_inv_def)
  have run: "pframe_free mmo_put f s = mmo_put b ?t" using pf nb um ps(1) x(1) by (simp add: pframe_free_def mod_obj_def Let_def poison_def)
  have mine: "mmo_respages x \<noteq> []" using o(3) pf by auto
  have "mmo_nrespages ?x < mmo_refcount ?x" "mmo_ops ?x = Shadow_ops \<Longrightarrow> mmo_respages ?x \<noteq> [] \<Longrightarrow> mmo_nrespages ?x + 1 < mmo_refcount ?x"
    using o(5,10) mine by auto
  then obtain s' where "mmo_put b ?t = Some s'" "vm_inv {} s'" "\<forall>g. map_option shape (pframes s' g) = map_option shape (pframes ?t g)" "page_mem s' = page_mem ?t"
    "no_dirtier ?t s'" "objs s' = (objs ?t)(b := after_put ?x)" using mmo_put_ok [OF t, of b ?x] by auto
  moreover have "no_dirtier s ?t" by (simp add: no_dirtier_def)
  ultimately show ?thesis using run by (auto intro: no_dirtier_trans split: if_splits)
qed

lemma pframe_free_inv:
  assumes inv: "vm_inv {} s" and run: "pframe_free mmo_put f s = Some t"
  shows "vm_inv {} t \<and> pframes t f = None"
proof -
  obtain pf u where pf: "pframes s f = Some pf" "pf_pincount pf = 0" "pframe_remove_from_pts f s = Some u"
    using run by (auto simp: pframe_free_def bind_eq_Some_conv)
  obtain b x where b: "pf_obj pf = Some b" "objs s b = Some x" using frames_okD(4) [OF vm_invD(2) [OF inv] pf(1)] by auto
  obtain um where "u = s\<lparr>pt_unmaps := um\<rparr>" using remove_from_ptsE [OF pf(3)] .
  with pf(3) have "pframe_remove_from_pts f s = Some (s\<lparr>pt_unmaps := um\<rparr>)" by simp
  from pframe_free_ok [OF inv pf(1,2) b this] run have "vm_inv {} t" "map_option shape (pframes t f) = None" by auto
  then show ?thesis by simp
qed

text \<open>Cleaning a page of a shadow object frees the frame, and then goes on to use it.\<close>

lemma clean_shadow:
  assumes inv: "vm_inv {} s" and pf: "pframes s f = Some pf" "pf_obj pf = Some b" and x: "objs s b = Some x" "mmo_ops x = Shadow_ops"
  shows "pframe_clean mmo_put f s = None"
proof (rule ccontr)
  let ?p1 = "pf\<lparr>pf_dirty := False\<rparr>" and ?p3 = "pf\<lparr>pf_dirty := False, pf_busy := True\<rparr>"
  assume "pframe_clean mmo_put f s \<noteq> None"
  then obtain res where run: "pframe_clean mmo_put f s = Some res" by blast
  obtain s1 where s1: "set_dirty False f s = Some s1" "vm_inv {} s1" "frame_upd f ?p1 s s1" using set_dirty_ok [OF inv pf(1), of False] by blast
  have p1: "pframes s1 f = Some ?p1" using s1(3) by (simp add: frame_upd_def)
  obtain s2 where s2: "pframe_remove_from_pts f s1 = Some s2" using run pf s1(1) by (auto simp: pframe_clean_def bind_eq_Some_conv)
  then obtain um where um: "s2 = s1\<lparr>pt_unmaps := um\<rparr>" by (rule remove_from_ptsE)
  obtain s3 where s3: "set_busy True f s2 = Some s3" "vm_inv {f} s3" "frame_upd f ?p3 s2 s3" using set_busy_ok [of "{}" s2 f ?p1 True] s1(2) p1 um by auto
  have p3: "pframes s3 f = Some ?p3" and x3: "objs s3 b = Some x" using s1(3) s3(3) x um by (simp_all add: frame_upd_def)
  have pg: "is_page s3 b (pf_pagenum pf) f" using p3 pf(2) by (simp add: is_page_def)
  with pframe_get_resident_ok [OF s3(2), of b "pf_pagenum pf"] obtain g t where
    g: "pframe_get_resident b (pf_pagenum pf) s3 = Some (Some g, t)" "is_page s3 b (pf_pagenum pf) g" "vm_inv {f} t" "reordered s3 t" by blast
  have gf: "g = f" by (rule is_page_unique [OF s3(2) g(2) pg])
  note ro = reorderedD [OF g(4)]
  have look: "shadow_lookuppage b (pf_pagenum pf) False s3 = Some (1, Some f, t)" using g(1) gf x3 ro(2) by (simp add: shadow_lookuppage_def chain_walk.simps [of "Some b"])
  have pt: "pframes t f = Some ?p3" using p3 ro(1) by simp
  obtain s4 where s4: "set_busy False f t = Some s4" "vm_inv {} s4" "frame_upd f (?p3\<lparr>pf_busy := False\<rparr>) t s4" using set_busy_ok [OF g(3) pt, of False] by auto
  have d: "pf_pincount pf = 0" using run pf by (auto simp: pframe_clean_def)
  have p4: "pframes s4 f = Some (?p3\<lparr>pf_busy := False\<rparr>)" using s4(3) by (simp add: frame_upd_def)
  have body: "shadow_cleanpage mmo_put b f s3 = do { u \<leftarrow> pframe_free mmo_put f (s4\<lparr>page_mem := (page_mem s4)(pf_addr pf := page_mem s4 (pf_addr pf))\<rparr>); Some (0, u) }"
    using p3 look s4(1) p4 d by (simp add: shadow_cleanpage_def unpin_all_def)
  obtain u where u: "pframe_free mmo_put f s4 = Some u" "set_busy False f u \<noteq> None"
    using run pf s1(1) s2 s3(1) x3 x(2) body by (auto simp: pframe_clean_def bind_eq_Some_conv)
  have "pframes u f = None" using pframe_free_inv [OF s4(2) u(1)] by simp
  then show False using u(2) by (simp add: set_busy_def mod_frame_def)
qed

lemma pframe_clean_inv:
  assumes inv: "vm_inv {} s" and run: "pframe_clean mmo_put f s = Some (ret, t)"
  shows "vm_inv {} t"
proof -
  obtain pf where pf: "pframes s f = Some pf" "pf_dirty pf" "pf_pincount pf = 0" using run by (auto simp: pframe_clean_def bind_eq_Some_conv)
  obtain b x where b: "pf_obj pf = Some b" "objs s b = Some x" using frames_okD(4) [OF vm_invD(2) [OF inv] pf(1)] by auto
  show ?thesis
  proof (cases "mmo_ops x")
    case Anon_ops then show ?thesis using clean_anon_ok [OF inv pf(1) b Anon_ops pf(2,3), of mmo_put] run by auto
  next
    case Shadow_ops then show ?thesis using clean_shadow [OF inv pf(1) b Shadow_ops] run by simp
  qed
qed

lemma clean_all_inv:
  assumes "pframe_clean_all s = Some t" and "vm_inv {} s"
  shows "vm_inv {} t"
proof -
  have "vm_inv {} s \<longrightarrow> vm_inv {} t"
    by (rule pframe_clean_all.raw_induct [where P = "\<lambda>s t. vm_inv {} s \<longrightarrow> vm_inv {} t", OF _ assms(1)])
      (auto simp: bind_eq_Some_conv split: option.splits if_splits dest: pframe_clean_inv)
  then show ?thesis using assms(2) by blast
qed

lemma pageoutd_inv:
  assumes "pageoutd_pass s = Some t" and "vm_inv {} s"
  shows "vm_inv {} t"
proof -
  have "vm_inv {} s \<longrightarrow> vm_inv {} t"
    by (rule pageoutd_pass.raw_induct [where P = "\<lambda>s t. vm_inv {} s \<longrightarrow> vm_inv {} t", OF _ assms(1)])
      (auto simp: bind_eq_Some_conv split: if_splits dest: pframe_clean_inv pframe_free_inv)
  then show ?thesis using assms(2) by blast
qed

section \<open>The other operations\<close>

lemma pframe_dirty_ok:
  assumes inv: "vm_inv {} s" and pf: "pframes s f = Some pf"
  shows "\<exists>r s' q. pframe_dirty f s = Some (r, s') \<and> vm_inv {} s' \<and> same_pages s s' \<and> pframes s' f = Some q \<and> pf_dirty q"
proof -
  obtain b x where b: "pf_obj pf = Some b" and x: "objs s b = Some x" using frames_okD(4) [OF vm_invD(2) [OF inv] pf] by blast
  have nb: "\<not> pf_busy pf" using frames_okD(3) [OF vm_invD(2) [OF inv] pf] by simp
  let ?p1 = "pf\<lparr>pf_busy := True\<rparr>" and ?p2 = "pf\<lparr>pf_busy := True, pf_dirty := True\<rparr>"
  obtain s1 where s1: "set_busy True f s = Some s1" "vm_inv {f} s1" "frame_upd f ?p1 s s1" using set_busy_ok [OF inv pf, of True] by auto
  have p1: "pframes s1 f = Some ?p1" and x1: "objs s1 b = Some x" using s1(3) x by (simp_all add: frame_upd_def)
  have "\<exists>r s2. (case mmo_ops x of Anon_ops \<Rightarrow> anon_dirtypage b f s1 | Shadow_ops \<Rightarrow> shadow_dirtypage b f s1) = Some (r, s2) \<and> vm_inv {f} s2
      \<and> pframes s2 f = Some ?p2 \<and> same_pages s1 s2 \<and> (r = 0 \<or> pf_dirty pf)"
    using set_dirty_ok [OF s1(2) p1, of True] p1 s1(2) frame_upd_same_pages [of f ?p2 s1 _ ?p1]
    by (cases "mmo_ops x"; cases "pf_dirty pf") (auto simp: anon_dirtypage_def shadow_dirtypage_def frame_upd_def shape_def)
  then obtain r s2 where s2: "(case mmo_ops x of Anon_ops \<Rightarrow> anon_dirtypage b f s1 | Shadow_ops \<Rightarrow> shadow_dirtypage b f s1) = Some (r, s2)" "vm_inv {f} s2"
    "pframes s2 f = Some ?p2" "same_pages s1 s2" by blast
  obtain s3 where s3: "set_dirty True f s2 = Some s3" "vm_inv {f} s3" "frame_upd f ?p2 s2 s3" using set_dirty_ok [OF s2(2,3), of True] by auto
  have "\<exists>t. (if r = 0 then set_dirty True f s2 else Some s2) = Some t \<and> vm_inv {f} t \<and> pframes t f = Some ?p2 \<and> same_pages s2 t"
    using s2 s3 frame_upd_same_pages [OF s3(3) s2(3)] by (auto simp: frame_upd_def)
  then obtain t where t: "(if r = 0 then set_dirty True f s2 else Some s2) = Some t" "vm_inv {f} t" "pframes t f = Some ?p2" "same_pages s2 t" by blast
  obtain u where u: "set_busy False f t = Some u" "vm_inv {} u" "frame_upd f (?p2\<lparr>pf_busy := False\<rparr>) t u" using set_busy_ok [OF t(2,3), of False] by auto
  have "same_pages s s1" by (rule frame_upd_same_pages [OF s1(3) pf]) (simp add: shape_def)
  moreover have "same_pages t u" by (rule frame_upd_same_pages [OF u(3) t(3)]) (simp add: shape_def)
  ultimately have "same_pages s u" using s2(4) t(4) by (simp add: same_pages_def)
  moreover have "pframe_dirty f s = Some (r, u)" using pf nb b s1(1) x1 s2(1) t(1) u(1) by (simp add: pframe_dirty_def)
  ultimately show ?thesis using u(2,3) by (auto simp: frame_upd_def)
qed

lemma slab_result_ok: "vm_inv X (snd (slab_result s)) = vm_inv X s"
  by (simp add: slab_result_def vm_inv_def split: list.splits)

lemma new_obj_ok:
  assumes inv: "vm_inv X s" and x: "mmo_respages x = []" "mmo_nrespages x = 0" "mmo_refcount x = 1" "mmo_shadowed x = None"
    "mmo_ops x = Anon_ops \<Longrightarrow> \<exists>vs. mmo_un x = Vmas vs"
  shows "vm_inv X (snd (new_obj x s))"
proof -
  have old: "b < next_obj s" if "objs s b = Some y" for b y using objs_okD(1) [OF vm_invD(4) [OF inv] that] .
  have none: "pf_obj pf \<noteq> Some (next_obj s)" if "pframes s f = Some pf" for f pf
    using frames_okD(4) [OF vm_invD(2) [OF inv] that] old by force
  have "obj_ok (pframes s) (Suc (next_obj s)) (next_obj s) x" using x none by (auto simp: obj_ok_def)
  moreover have "obj_ok (pframes s) (Suc (next_obj s)) b y" if "objs s b = Some y" for b y
    using vm_invD(4) [OF inv] that by (auto simp: objs_ok_def obj_ok_def less_SucI)
  ultimately have "objs_ok (pframes s) ((objs s)(next_obj s \<mapsto> x)) (Suc (next_obj s))" by (simp add: objs_ok_def)
  then show ?thesis using inv frames_ok_obj [OF vm_invD(2) [OF inv]] by (simp add: vm_inv_def new_obj_def)
qed

lemma create_ok:
  assumes "vm_inv X s"
  shows "vm_inv X (snd (anon_create s))" "vm_inv X (snd (shadow_create s))"
proof -
  have t: "vm_inv X (snd (slab_result s))" using assms by (simp add: slab_result_ok)
  from new_obj_ok [OF t, of "(mmobj_init Anon_ops)\<lparr>mmo_refcount := 1\<rparr>"] t show "vm_inv X (snd (anon_create s))"
    by (auto simp: anon_create_def mmobj_init_def split: prod.splits)
  from new_obj_ok [OF t, of "(mmobj_init Shadow_ops)\<lparr>mmo_refcount := 1, mmo_un := Bottom_obj None\<rparr>"] t show "vm_inv X (snd (shadow_create s))"
    by (auto simp: shadow_create_def mmobj_init_def split: prod.splits)
qed

lemma vm_inv_link:
  assumes inv: "vm_inv X s" and x: "objs s b = Some x" "mmo_ops x = Shadow_ops" and c: "c < b"
  shows "vm_inv X (s\<lparr>objs := (objs s)(b \<mapsto> x\<lparr>mmo_shadowed := Some c, mmo_un := u\<rparr>)\<rparr>)"
proof -
  have "obj_ok (pframes s) (next_obj s) b x" using vm_invD(4) [OF inv] x by (simp add: objs_ok_def)
  then have "obj_ok (pframes s) (next_obj s) b (x\<lparr>mmo_shadowed := Some c, mmo_un := u\<rparr>)" using x(2) c by (simp add: obj_ok_def)
  then show ?thesis using inv frames_ok_obj [OF vm_invD(2) [OF inv]] by (simp add: vm_inv_def objs_ok_def)
qed

lemma vm_inv_areas:
  assumes inv: "vm_inv X s" and x: "objs s b = Some x" "mmo_ops x = Anon_ops"
  shows "vm_inv X (s\<lparr>objs := (objs s)(b \<mapsto> x\<lparr>mmo_un := Vmas vs\<rparr>)\<rparr>)"
proof -
  have "obj_ok (pframes s) (next_obj s) b x" using vm_invD(4) [OF inv] x by (simp add: objs_ok_def)
  then have "obj_ok (pframes s) (next_obj s) b (x\<lparr>mmo_un := Vmas vs\<rparr>)" using x(2) by (simp add: obj_ok_def)
  then show ?thesis using inv frames_ok_obj [OF vm_invD(2) [OF inv]] by (simp add: vm_inv_def objs_ok_def)
qed

lemma vm_inv_write [simp]: "vm_inv X (s\<lparr>page_mem := m\<rparr>) = vm_inv X s"
  by (simp add: vm_inv_def)

lemma mmo_ref_ok:
  assumes inv: "vm_inv X s" and run: "mmo_ref b s = Some s'"
  shows "vm_inv X s'"
proof -
  obtain x where x: "objs s b = Some x" using run by (auto simp: mmo_ref_def bind_eq_Some_conv)
  then have "s' = s\<lparr>objs := (objs s)(b \<mapsto> x\<lparr>mmo_refcount := mmo_refcount x + 1\<rparr>)\<rparr>" "0 < mmo_refcount x"
    using run by (auto simp: mmo_ref_def anon_ref_def shadow_ref_def mod_obj_def split: mmobj_ops.splits)
  then show ?thesis using vm_inv_refcount [OF inv x, of "mmo_refcount x + 1"] objs_okD(5) [OF vm_invD(4) [OF inv] x] by simp
qed

lemma pframe_init_ok: "pages_ok A ps \<Longrightarrow> slabs_ok spare A \<Longrightarrow> vm_inv {} (pframe_init slabs spare mem ps)"
  unfolding vm_inv_def mem_ok_def
  by (auto simp: pframe_init_def frames_ok_def hash_ok_def objs_ok_def lists_ok_def frame_blocks_def)

section \<open>The states a caller can bring about\<close>

text \<open>
  From \<^verbatim>\<open>pframe_init\<close> on, over a page allocator whose groups are a whole number of the largest
  blocks and with any outcomes of the slab allocations: objects are made, shadow
  objects put on top of older objects, the areas of an anonymous object change, references are taken and
  dropped by those who hold one; pages are obtained, with enough memory or not, pinned, unpinned, marked
  dirty, cleaned, freed and paged out, and their memory is written.  A call that does not return brings
  about no state.  One put is left out: that of the last reference to a shadow object which has resident
  pages.  \<^verbatim>\<open>pframe_migrate\<close> is left out as well; only the shadow daemon calls it, which is not
  compiled (\<^verbatim>\<open>SHADOWD=0\<close>).
\<close>

inductive vm_run :: "vmem \<Rightarrow> bool" where
  run_start: "page_run A ps \<Longrightarrow> whole_groups ps \<Longrightarrow> slabs_ok spare A \<Longrightarrow> vm_run (pframe_init slabs spare mem ps)"
| run_anon: "vm_run s \<Longrightarrow> anon_create s = (r, s') \<Longrightarrow> vm_run s'"
| run_shadow: "vm_run s \<Longrightarrow> shadow_create s = (r, s') \<Longrightarrow> vm_run s'"
| run_link: "vm_run s \<Longrightarrow> objs s b = Some x \<Longrightarrow> mmo_ops x = Shadow_ops \<Longrightarrow> c < b \<Longrightarrow>
    mod_obj b (\<lambda>x. x\<lparr>mmo_shadowed := Some c, mmo_un := Bottom_obj d\<rparr>) s = Some s' \<Longrightarrow> vm_run s'"
| run_areas: "vm_run s \<Longrightarrow> objs s b = Some x \<Longrightarrow> mmo_ops x = Anon_ops \<Longrightarrow> mod_obj b (\<lambda>x. x\<lparr>mmo_un := Vmas vs\<rparr>) s = Some s' \<Longrightarrow> vm_run s'"
| run_ref: "vm_run s \<Longrightarrow> mmo_ref b s = Some s' \<Longrightarrow> vm_run s'"
| run_put: "vm_run s \<Longrightarrow> objs s b = Some x \<Longrightarrow> mmo_nrespages x < mmo_refcount x \<Longrightarrow>
    \<not> (mmo_ops x = Shadow_ops \<and> mmo_respages x \<noteq> [] \<and> mmo_refcount x = mmo_nrespages x + 1) \<Longrightarrow> mmo_put b s = Some s' \<Longrightarrow> vm_run s'"
| run_get: "vm_run s \<Longrightarrow> pframe_get b n s = Some (ret, r, s') \<Longrightarrow> vm_run s'"
| run_resident: "vm_run s \<Longrightarrow> pframe_get_resident b n s = Some (r, s') \<Longrightarrow> vm_run s'"
| run_pin: "vm_run s \<Longrightarrow> pframe_pin f s = Some s' \<Longrightarrow> vm_run s'"
| run_unpin: "vm_run s \<Longrightarrow> pframe_unpin f s = Some s' \<Longrightarrow> vm_run s'"
| run_dirty: "vm_run s \<Longrightarrow> pframe_dirty f s = Some (ret, s') \<Longrightarrow> vm_run s'"
| run_clean: "vm_run s \<Longrightarrow> pframe_clean mmo_put f s = Some (ret, s') \<Longrightarrow> vm_run s'"
| run_clean_all: "vm_run s \<Longrightarrow> pframe_clean_all s = Some s' \<Longrightarrow> vm_run s'"
| run_pageout: "vm_run s \<Longrightarrow> pageoutd_pass s = Some s' \<Longrightarrow> vm_run s'"
| run_free: "vm_run s \<Longrightarrow> pframe_free mmo_put f s = Some s' \<Longrightarrow> vm_run s'"
| run_write: "vm_run s \<Longrightarrow> pframes s f = Some pf \<Longrightarrow> vm_run (s\<lparr>page_mem := (page_mem s)(pf_addr pf := p)\<rparr>)"

lemma vm_run_inv: "vm_run s \<Longrightarrow> vm_inv {} s"
proof (induction rule: vm_run.induct)
  case (run_start A ps spare slabs mem) then show ?case using pframe_init_ok page_run_ok by blast
next
  case (run_anon s r s') then show ?case using create_ok(1) [of "{}" s] by simp
next
  case (run_shadow s r s') then show ?case using create_ok(2) [of "{}" s] by simp
next
  case (run_link s b x c d s') then show ?case using vm_inv_link [of "{}" s b x c "Bottom_obj d"] by (auto simp: mod_obj_def)
next
  case (run_areas s b x vs s') then show ?case using vm_inv_areas [of "{}" s b x vs] by (auto simp: mod_obj_def)
next
  case (run_put s b x s')
  then have "mmo_ops x = Shadow_ops \<Longrightarrow> mmo_respages x \<noteq> [] \<Longrightarrow> mmo_nrespages x + 1 < mmo_refcount x" by auto
  then show ?case using mmo_put_ok [OF run_put.IH run_put.hyps(2,3)] run_put.hyps(5) by auto
next
  case (run_resident s b n r s') then show ?case using resident_inv by blast
next
  case (run_pin s f s')
  obtain pf where "pframes s f = Some pf" using run_pin.hyps(2) by (auto simp: pframe_pin_def bind_eq_Some_conv)
  then show ?case using pframe_pin_ok [OF run_pin.IH, of f pf] run_pin.hyps(2) by auto
next
  case (run_unpin s f s')
  obtain pf where "pframes s f = Some pf" "0 < pf_pincount pf" using run_unpin.hyps(2) by (auto simp: pframe_unpin_def bind_eq_Some_conv)
  then show ?case using pframe_unpin_ok [OF run_unpin.IH, of f pf] run_unpin.hyps(2) by auto
next
  case (run_dirty s f ret s')
  obtain pf where "pframes s f = Some pf" using run_dirty.hyps(2) by (auto simp: pframe_dirty_def bind_eq_Some_conv)
  then show ?case using pframe_dirty_ok [OF run_dirty.IH, of f pf] run_dirty.hyps(2) by auto
qed (auto intro: mmo_ref_ok pframe_get_inv pframe_clean_inv clean_all_inv pageoutd_inv dest: pframe_free_inv)

text \<open>Objects whose pages may be those of \<^verbatim>\<open>b\<close>: it, and those that shadow it.\<close>

inductive reaches :: "vmem \<Rightarrow> nat \<Rightarrow> nat \<Rightarrow> bool" for s where
  here: "reaches s b b"
| shadows: "objs s c = Some x \<Longrightarrow> mmo_shadowed x = Some d \<Longrightarrow> reaches s d b \<Longrightarrow> reaches s c b"

lemma sees_write:
  assumes "sees t c m q" and inv: "vm_inv {} t" and f: "pframes t f = Some pf" "pf_obj pf = Some b" "pf_pagenum pf = n"
    and u: "pframes u = pframes t" "objs u = objs t" "\<And>a. a \<noteq> pf_addr pf \<Longrightarrow> page_mem u a = page_mem t a" and "\<not> (m = n \<and> reaches t c b)"
  shows "sees u c m q"
  using assms(1,9)
proof (induction rule: sees.induct)
  case (here c m g pg)
  have "g \<noteq> f" using here f reaches.here by (auto simp: is_page_def)
  then have "pf_addr pg \<noteq> pf_addr pf" using vm_invD(1) [OF inv] here(2) f(1) unfolding mem_ok_def by blast
  then have "page_mem u (pf_addr pg) = page_mem t (pf_addr pg)" by (rule u(3))
  moreover have "sees u c m (page_mem u (pf_addr pg))" by (rule sees.here [of _ _ _ g]) (use here(1,2) u(1) in \<open>simp_all add: is_page_def\<close>)
  ultimately show ?case by simp
next
  case (below c m x d p)
  have "\<not> (m = n \<and> reaches t d b)" using below.prems reaches.shadows [OF below.hyps(2,4)] by blast
  then show ?case using below.IH below.hyps u(1,2) by (intro sees.below [of _ c m x d]) (simp_all add: is_page_def)
next
  case (bottom c m x)
  then show ?case using u(1,2) by (intro sees.bottom [of _ c m x]) (simp_all add: is_page_def)
qed

text \<open>
  C35.  Copy on write.  In every state of \<^const>\<open>vm_run\<close>, for an object that has a reference and
  whose chain of shadow objects leads to a resident page or to an anonymous object, and provided that
  two pages are free and the next two slab allocations succeed, \<^verbatim>\<open>pframe_get\<close> returns 0 and
  the frame of the page.  The frame holds what the object showed through its chain, nothing that any
  object shows has changed, and storing into the frame changes that page for this object and for those
  that shadow it only.  Without the memory the call may return -1 or never return.
\<close>

theorem pframe_get_cow:
  assumes run: "vm_run s" and x: "objs s b = Some x" "0 < mmo_refcount x" and p: "sees s b n p" and mem: "plenty 2 s"
  shows "\<exists>f pf t. pframe_get b n s = Some (0, Some f, t) \<and> pframes t f = Some pf \<and> page_mem t (pf_addr pf) = p
    \<and> (\<forall>c m q. sees s c m q \<longrightarrow> sees t c m q)
    \<and> (\<forall>v. sees (t\<lparr>page_mem := (page_mem t)(pf_addr pf := v)\<rparr>) b n v)
    \<and> (\<forall>v c m q. sees s c m q \<longrightarrow> \<not> (m = n \<and> reaches t c b) \<longrightarrow> sees (t\<lparr>page_mem := (page_mem t)(pf_addr pf := v)\<rparr>) c m q)"
proof -
  note inv = vm_run_inv [OF run]
  obtain f t where get: "pframe_get b n s = Some (0, Some f, t)" "get_post {} s b n f t" using pframe_get_ok [OF inv x p mem] by blast
  then obtain pf where f: "pframes t f = Some pf" "pf_obj pf = Some b" "pf_pagenum pf = n" and sp: "sees s b n (page_mem t (pf_addr pf))"
    and t: "vm_inv {} t" "extends s t" "new_ok s t" by (auto simp: get_post_def)
  have same: "sees t c m q" if "sees s c m q" for c m q using new_ok_sees [OF that inv t] .
  have "sees (t\<lparr>page_mem := (page_mem t)(pf_addr pf := v)\<rparr>) b n v" for v
    using sees.here [of "t\<lparr>page_mem := (page_mem t)(pf_addr pf := v)\<rparr>" b n f pf] f by (simp add: is_page_def)
  moreover have "sees (t\<lparr>page_mem := (page_mem t)(pf_addr pf := v)\<rparr>) c m q" if "sees s c m q" "\<not> (m = n \<and> reaches t c b)" for v c m q
    by (rule sees_write [OF same [OF that(1)] t(1) f]) (use that(2) in simp_all)
  ultimately show ?thesis using get(1) f(1) same sees_functional [OF p inv sp] by blast
qed

definition example_vm :: vmem where
  "example_vm = (let (a, s) = anon_create (pframe_init (\<lambda>_. True) [] (\<lambda>_ _. 0) example_pages); (b, t) = shadow_create s
     in the (mod_obj 1 (\<lambda>x. x\<lparr>mmo_shadowed := Some 0, mmo_un := Bottom_obj (Some 0)\<rparr>) t))"

lemma example_vm_run: "vm_run example_vm"
proof -
  obtain a s where s: "anon_create (pframe_init (\<lambda>_. True) [] (\<lambda>_ _. 0) example_pages) = (a, s)" by (meson surj_pair)
  obtain b t where t: "shadow_create s = (b, t)" by (meson surj_pair)
  have "vm_run t" by (rule run_shadow [OF run_anon [OF run_start [OF example_pages_run example_whole slabs_ok_Nil] s] t])
  moreover have "objs t 1 = Some ((mmobj_init Shadow_ops)\<lparr>mmo_refcount := 1, mmo_un := Bottom_obj None\<rparr>)"
    using s t by (auto simp: anon_create_def shadow_create_def slab_result_def new_obj_def pframe_init_def)
  ultimately show ?thesis using run_link [of t 1 _ 0 "Some 0"] s t by (simp add: example_vm_def mod_obj_def mmobj_init_def)
qed

lemma example_vm_state:
  "objs example_vm 0 = Some ((mmobj_init Anon_ops)\<lparr>mmo_refcount := 1\<rparr>)"
  "objs example_vm (Suc 0) = Some ((mmobj_init Shadow_ops)\<lparr>mmo_refcount := 1, mmo_un := Bottom_obj (Some 0), mmo_shadowed := Some 0\<rparr>)"
  "pframes example_vm = Map.empty" "plenty 2 example_vm"
  by (simp_all add: example_vm_def anon_create_def shadow_create_def slab_result_def new_obj_def pframe_init_def mod_obj_def mmobj_init_def plenty_def page_free_count_def example_pages_def)

lemma example_vm_sees: "sees example_vm (Suc 0) 7 (\<lambda>_. 0)"
proof (rule sees.below [OF _ example_vm_state(2)])
  show "sees example_vm 0 7 (\<lambda>_. 0)" by (rule sees.bottom [OF _ example_vm_state(1)]) (simp_all add: is_page_def example_vm_state mmobj_init_def)
qed (simp_all add: is_page_def example_vm_state mmobj_init_def)

theorem pframe_get_cow_witness:
  "vm_run example_vm \<and> (\<exists>f pf t. pframe_get (Suc 0) 7 example_vm = Some (0, Some f, t) \<and> pframes t f = Some pf \<and> page_mem t (pf_addr pf) = (\<lambda>_. 0)
    \<and> sees (t\<lparr>page_mem := (page_mem t)(pf_addr pf := (\<lambda>_. 3))\<rparr>) (Suc 0) 7 (\<lambda>_. 3))"
  using pframe_get_cow [OF example_vm_run example_vm_state(2) _ example_vm_sees example_vm_state(4)] example_vm_run by (auto simp: mmobj_init_def)

text \<open>
  C36.  The bookkeeping of page frames, in every state of \<^const>\<open>vm_run\<close>: over page groups of a
  whole number of 128-page blocks, after any sequence of the operations on anonymous and shadow
  objects and on page frames, whether memory is short or not, in which puts are by those who hold a
  reference and shadow objects are put on older objects.  Two operations are not covered: the put of
  the last reference to a shadow object with resident pages, and \<^verbatim>\<open>pframe_migrate\<close>.  In these
  states no page of an object is in two frames and no two frames share their memory; the hash table finds the frame of every resident page; every
  object counts its resident pages exactly and has at least one reference for each of them; the
  count of allocated frames is the number of those not pinned, and \<^verbatim>\<open>npinned\<close> adds up the pin counts.
\<close>

theorem vm_run_frames:
  assumes "vm_run s"
  shows "(\<forall>f g pf pg. pframes s f = Some pf \<longrightarrow> pframes s g = Some pg \<longrightarrow>
        (pf_obj pf = pf_obj pg \<and> pf_pagenum pf = pf_pagenum pg) \<or> pf_addr pf = pf_addr pg \<longrightarrow> f = g)
    \<and> (\<forall>f pf. pframes s f = Some pf \<longrightarrow> (\<exists>b s'. pf_obj pf = Some b \<and> pframe_get_resident b (pf_pagenum pf) s = Some (Some f, s')))
    \<and> (\<forall>b x. objs s b = Some x \<longrightarrow> mmo_nrespages x = int (card {f. \<exists>pf. pframes s f = Some pf \<and> pf_obj pf = Some b}) \<and> mmo_nrespages x \<le> mmo_refcount x)
    \<and> nallocated s = int (card {f. \<exists>pf. pframes s f = Some pf \<and> pf_pincount pf = 0})
    \<and> npinned s = (\<Sum>f \<in> dom (pframes s). pf_pincount (the (pframes s f)))"
proof (intro conjI allI impI)
  note inv = vm_run_inv [OF assms]
  show "f = g" if "pframes s f = Some pf" "pframes s g = Some pg" "(pf_obj pf = pf_obj pg \<and> pf_pagenum pf = pf_pagenum pg) \<or> pf_addr pf = pf_addr pg" for f g pf pg
    using that frames_ok_unique [OF vm_invD(2) [OF inv] that(1,2)] vm_invD(1) [OF inv] unfolding mem_ok_def by blast
  show "\<exists>b s'. pf_obj pf = Some b \<and> pframe_get_resident b (pf_pagenum pf) s = Some (Some f, s')" if f: "pframes s f = Some pf" for f pf
  proof -
    obtain b where b: "pf_obj pf = Some b" using frames_okD(4) [OF vm_invD(2) [OF inv] f] by blast
    then have "is_page s b (pf_pagenum pf) f" using f by (simp add: is_page_def)
    then show ?thesis using pframe_get_resident_ok [OF inv, of b "pf_pagenum pf"] is_page_unique [OF inv, of b "pf_pagenum pf"] b by blast
  qed
  show "mmo_nrespages x = int (card {f. \<exists>pf. pframes s f = Some pf \<and> pf_obj pf = Some b})" "mmo_nrespages x \<le> mmo_refcount x" if "objs s b = Some x" for b x
    using objs_okD(2-5) [OF vm_invD(4) [OF inv] that] distinct_card [of "mmo_respages x"] by auto
  show "nallocated s = int (card {f. \<exists>pf. pframes s f = Some pf \<and> pf_pincount pf = 0})"
    using vm_invD(5) [OF inv] distinct_card [of "alloc_list s"] by (simp add: lists_ok_def)
  show "npinned s = (\<Sum>f \<in> dom (pframes s). pf_pincount (the (pframes s f)))" using vm_invD(5) [OF inv] by (simp add: lists_ok_def)
qed

theorem vm_run_frames_witness:
  "\<exists>f pf b s' t. pframe_get (Suc 0) 7 example_vm = Some (0, Some f, t) \<and> vm_run t \<and> pframes t f = Some pf \<and> pf_obj pf = Some b
    \<and> pframe_get_resident b (pf_pagenum pf) t = Some (Some f, s')"
proof -
  have ref: "0 < mmo_refcount ((mmobj_init Shadow_ops)\<lparr>mmo_refcount := 1, mmo_un := Bottom_obj (Some 0), mmo_shadowed := Some 0\<rparr>)" by simp
  obtain f t where get: "pframe_get (Suc 0) 7 example_vm = Some (0, Some f, t)" "get_post {} example_vm (Suc 0) 7 f t"
    using pframe_get_ok [OF vm_run_inv [OF example_vm_run] example_vm_state(2) ref example_vm_sees example_vm_state(4)] by blast
  have "vm_run t" by (rule run_get [OF example_vm_run get(1)])
  then show ?thesis using get vm_run_frames [of t] unfolding get_post_def by metis
qed

section \<open>Paging out\<close>

text \<open>Every round of the page-out daemon cleans a frame or frees one.\<close>

definition work :: "vmem \<Rightarrow> nat" where
  "work s = card (dom (pframes s)) + card {f. \<exists>pf. pframes s f = Some pf \<and> pf_dirty pf}"

lemma vm_inv_finite: "vm_inv X s \<Longrightarrow> finite (dom (pframes s))" "vm_inv X s \<Longrightarrow> finite {f. \<exists>pf. pframes s f = Some pf \<and> pf_dirty pf}"
  by (auto simp: vm_inv_def frames_ok_def dom_def elim: rev_finite_subset)

lemma work_clean:
  assumes inv: "vm_inv X s" and f: "pframes s f = Some pf" "pf_dirty pf" and t: "pframes t = (pframes s)(f \<mapsto> pf\<lparr>pf_dirty := False, pf_busy := False\<rparr>)"
  shows "work t < work s"
proof -
  let ?D = "{f. \<exists>pf. pframes s f = Some pf \<and> pf_dirty pf}"
  have "{f. \<exists>pf. pframes t f = Some pf \<and> pf_dirty pf} = ?D - {f}" by (auto simp: t split: if_splits)
  moreover have "card (?D - {f}) < card ?D" using f by (intro card_Diff1_less [OF vm_inv_finite(2) [OF inv]]) simp
  moreover have "dom (pframes t) = dom (pframes s)" using f by (auto simp: t)
  ultimately show ?thesis by (simp add: work_def)
qed

lemma work_free:
  assumes inv: "vm_inv X s" and f: "pframes s f = Some pf" and t: "\<forall>g. map_option shape (pframes t g) = (if g = f then None else map_option shape (pframes s g))"
    and d: "no_dirtier s t"
  shows "work t < work s"
proof -
  have "g \<in> dom (pframes t) \<longleftrightarrow> g \<in> dom (pframes s) - {f}" for g using t [rule_format, of g] by (cases "pframes s g"; cases "pframes t g") (auto split: if_splits)
  then have "dom (pframes t) = dom (pframes s) - {f}" by blast
  moreover have "card (dom (pframes s) - {f}) < card (dom (pframes s))" using f by (intro card_Diff1_less [OF vm_inv_finite(1) [OF inv]]) auto
  moreover have "card {f. \<exists>pf. pframes t f = Some pf \<and> pf_dirty pf} \<le> card {f. \<exists>pf. pframes s f = Some pf \<and> pf_dirty pf}"
    using d by (intro card_mono [OF vm_inv_finite(2) [OF inv]]) (auto simp: no_dirtier_def)
  ultimately show ?thesis by (simp add: work_def)
qed

text \<open>
  What paging out keeps: frames that were there before, with their pages and what they hold, and every
  object that somebody refers to.
\<close>

definition fewer_pages :: "vmem \<Rightarrow> vmem \<Rightarrow> bool" where
  "fewer_pages s t \<longleftrightarrow> (\<forall>f q. pframes t f = Some q \<longrightarrow> (\<exists>p. pframes s f = Some p \<and> shape p = shape q) \<and> page_mem t (pf_addr q) = page_mem s (pf_addr q))
     \<and> (\<forall>b y. objs t b = Some y \<longrightarrow> (\<exists>x. objs s b = Some x \<and> mmo_ops x = mmo_ops y))
     \<and> (\<forall>b x. objs s b = Some x \<longrightarrow> mmo_nrespages x < mmo_refcount x \<longrightarrow> (\<exists>y. objs t b = Some y \<and> mmo_nrespages y < mmo_refcount y))"

lemma fewer_pages_refl: "fewer_pages s s"
  by (simp add: fewer_pages_def)

lemma fewer_pages_trans:
  assumes "fewer_pages s t" and "fewer_pages t u"
  shows "fewer_pages s u"
  unfolding fewer_pages_def
proof (intro conjI allI impI)
  fix f r assume "pframes u f = Some r"
  then obtain q where q: "pframes t f = Some q" "shape q = shape r" "page_mem u (pf_addr r) = page_mem t (pf_addr r)" using assms(2) unfolding fewer_pages_def by blast
  then obtain p where p: "pframes s f = Some p" "shape p = shape q" "page_mem t (pf_addr q) = page_mem s (pf_addr q)" using assms(1) unfolding fewer_pages_def by blast
  show "\<exists>p. pframes s f = Some p \<and> shape p = shape r" "page_mem u (pf_addr r) = page_mem s (pf_addr r)" using p q by (simp_all add: shape_def)
qed (use assms in \<open>unfold fewer_pages_def, metis+\<close>)

lemma same_pages_fewer:
  assumes "same_pages s t"
  shows "fewer_pages s t"
proof -
  have "\<exists>p. pframes s f = Some p \<and> shape p = shape q" if "pframes t f = Some q" for f q
  proof -
    have "map_option shape (pframes s f) = Some (shape q)" using assms that unfolding same_pages_def by (metis option.simps(9))
    then show ?thesis by auto
  qed
  then show ?thesis using assms by (auto simp: fewer_pages_def same_pages_def)
qed

lemma free_fewer:
  assumes inv: "vm_inv {} s" and pf: "pframes s f = Some pf" "pf_obj pf = Some b" and x: "objs s b = Some x"
    and t: "\<forall>g. map_option shape (pframes t g) = (if g = f then None else map_option shape (pframes s g))" "page_mem t = (page_mem s)(pf_addr pf := p)"
      "objs t = (objs s)(b := after_put (x\<lparr>mmo_nrespages := mmo_nrespages x - 1, mmo_respages := remove1 f (mmo_respages x)\<rparr>))"
  shows "fewer_pages s t"
  unfolding fewer_pages_def
proof (intro conjI allI impI)
  fix g q assume q: "pframes t g = Some q"
  then have gf: "g \<noteq> f" using t(1) [rule_format, of f] by auto
  then obtain p where p: "pframes s g = Some p" "shape p = shape q" using t(1) [rule_format, of g] q by (cases "pframes s g") auto
  then show "\<exists>p. pframes s g = Some p \<and> shape p = shape q" by blast
  have "pf_addr p \<noteq> pf_addr pf" using vm_invD(1) [OF inv] p(1) pf(1) gf unfolding mem_ok_def by blast
  then show "page_mem t (pf_addr q) = page_mem s (pf_addr q)" using t(2) p(2) by (simp add: shape_def)
next
  have "mmo_respages x \<noteq> []" using objs_okD(3) [OF vm_invD(4) [OF inv] x] pf by auto
  then have n: "0 < mmo_nrespages x" using objs_okD(4) [OF vm_invD(4) [OF inv] x] by simp
  show "\<exists>y. objs t c = Some y \<and> mmo_nrespages y < mmo_refcount y" if "objs s c = Some y" "mmo_nrespages y < mmo_refcount y" for c y
    using that n t(3) x by (auto simp: after_put_def)
  show "\<exists>y. objs s c = Some y \<and> mmo_ops y = mmo_ops z" if "objs t c = Some z" for c z
    using that t(3) x by (auto simp: after_put_def split: if_splits)
qed

lemma alloc_head:
  assumes inv: "vm_inv {} s" and "alloc_list s \<noteq> []"
  obtains pf b x where "pframes s (hd (alloc_list s)) = Some pf" and "pf_pincount pf = 0" and "\<not> pf_busy pf" and "pf_obj pf = Some b" and "objs s b = Some x"
proof -
  have "hd (alloc_list s) \<in> set (alloc_list s)" using assms(2) by simp
  then obtain pf where pf: "pframes s (hd (alloc_list s)) = Some pf" "pf_pincount pf = 0" using vm_invD(5) [OF inv] by (auto simp: lists_ok_def)
  then show thesis using that frames_okD(3,4) [OF vm_invD(2) [OF inv] pf(1)] by auto
qed

lemma pageoutd_pass_ok:
  assumes "vm_inv {} s" and "\<And>b x. objs s b = Some x \<Longrightarrow> mmo_ops x = Anon_ops"
  shows "\<exists>t. pageoutd_pass s = Some t \<and> vm_inv {} t \<and> (pageoutd_target_met t \<or> alloc_list t = []) \<and> fewer_pages s t"
  using assms
proof (induction "work s" arbitrary: s rule: less_induct)
  case less
  note inv = less.prems(1)
  show ?case
  proof (cases "\<not> pageoutd_target_met s \<and> alloc_list s \<noteq> []")
    case False then show ?thesis using inv fewer_pages_refl by (auto simp: pageoutd_pass.simps [of s])
  next
    case True
    let ?f = "hd (alloc_list s)"
    obtain pf b x where f: "pframes s ?f = Some pf" "pf_pincount pf = 0" "\<not> pf_busy pf" "pf_obj pf = Some b" and x: "objs s b = Some x" using alloc_head [OF inv] True by blast
    note an = less.prems(2) [OF x]
    have "\<exists>u. pageoutd_pass s = pageoutd_pass u \<and> vm_inv {} u \<and> work u < work s \<and> fewer_pages s u \<and> (\<forall>b x. objs u b = Some x \<longrightarrow> mmo_ops x = Anon_ops)"
    proof (cases "pf_dirty pf")
      case True
      obtain u where u: "pframe_clean mmo_put ?f s = Some (0, u)" "vm_inv {} u" "same_pages s u" "pframes u = (pframes s)(?f \<mapsto> pf\<lparr>pf_dirty := False, pf_busy := False\<rparr>)"
        using clean_anon_ok [OF inv f(1,4) x an True f(2)] by blast
      show ?thesis using u same_pages_fewer [OF u(3)] work_clean [OF inv f(1) True u(4)] True \<open>\<not> pageoutd_target_met s \<and> alloc_list s \<noteq> []\<close> f less.prems(2)
        by (intro exI [of _ u]) (simp add: pageoutd_pass.simps [of s] same_pages_def)
    next
      case False
      obtain um where um: "pframe_remove_from_pts ?f s = Some (s\<lparr>pt_unmaps := um\<rparr>)" using remove_from_pts_anon [OF inv f(1,4) x an] by blast
      obtain u where u: "pframe_free mmo_put ?f s = Some u" "vm_inv {} u" "\<forall>g. map_option shape (pframes u g) = (if g = ?f then None else map_option shape (pframes s g))"
        "page_mem u = (page_mem s)(pf_addr pf := (\<lambda>_. MM_POISON_FREE))" "no_dirtier s u"
        "objs u = (objs s)(b := after_put (x\<lparr>mmo_nrespages := mmo_nrespages x - 1, mmo_respages := remove1 ?f (mmo_respages x)\<rparr>))"
        using pframe_free_ok [OF inv f(1,2,4) x um] by blast
      have few: "fewer_pages s u" by (rule free_fewer [OF inv f(1,4) x u(3,4,6)])
      then have "fewer_pages s u" "\<forall>b x. objs u b = Some x \<longrightarrow> mmo_ops x = Anon_ops" using less.prems(2) unfolding fewer_pages_def by metis+
      then show ?thesis using u(1,2) work_free [OF inv f(1) u(3,5)] False True f
        by (intro exI [of _ u]) (simp add: pageoutd_pass.simps [of s])
    qed
    then show ?thesis using less.hyps fewer_pages_trans by metis
  qed
qed

text \<open>
  C37.  In every state of \<^const>\<open>vm_run\<close> in which all objects are anonymous, and whatever the target
  is, a waking of the page-out daemon ends: it stops with enough free pages or with no frame left that is not pinned.  The
  frames that stay are frames of the same pages as before and hold what they held, and an object to
  which somebody but its pages refers stays.  What a reclaimed page held is lost, though: its object,
  if it stays, shows zeros there afterwards.
\<close>

theorem pageoutd_reclaims:
  assumes "vm_run s" and an: "\<forall>b x. objs s b = Some x \<longrightarrow> mmo_ops x = Anon_ops"
  shows "\<exists>t. pageoutd_pass (s\<lparr>nfreepages_target := w\<rparr>) = Some t \<and> (pageoutd_target_met t \<or> alloc_list t = [])
    \<and> (\<forall>f q. pframes t f = Some q \<longrightarrow> page_mem t (pf_addr q) = page_mem s (pf_addr q)
          \<and> (\<exists>p. pframes s f = Some p \<and> pf_obj p = pf_obj q \<and> pf_pagenum p = pf_pagenum q \<and> pf_addr p = pf_addr q))
    \<and> (\<forall>b x. objs s b = Some x \<and> mmo_nrespages x < mmo_refcount x \<longrightarrow> objs t b \<noteq> None)
    \<and> (\<forall>f p b. pframes s f = Some p \<and> pframes t f = None \<and> pf_obj p = Some b \<and> objs t b \<noteq> None \<longrightarrow> sees t b (pf_pagenum p) (\<lambda>_. 0))"
proof -
  note inv = vm_run_inv [OF assms(1)]
  have "vm_inv {} (s\<lparr>nfreepages_target := w\<rparr>)" using inv by (simp add: vm_inv_def)
  from pageoutd_pass_ok [OF this] an obtain t where t: "pageoutd_pass (s\<lparr>nfreepages_target := w\<rparr>) = Some t" "pageoutd_target_met t \<or> alloc_list t = []"
    and "fewer_pages (s\<lparr>nfreepages_target := w\<rparr>) t" by auto
  then have f: "fewer_pages s t" by (simp add: fewer_pages_def)
  have "sees t b (pf_pagenum p) (\<lambda>_. 0)" if p: "pframes s f = Some p" "pframes t f = None" "pf_obj p = Some b" "objs t b = Some y" for f p b y
  proof (rule sees.bottom [OF _ p(4)])
    show "mmo_ops y = Anon_ops" using f p(4) an unfolding fewer_pages_def by metis
    show "\<not> is_page t b (pf_pagenum p) g" for g
    proof
      assume "is_page t b (pf_pagenum p) g"
      then obtain q q' where q: "pframes t g = Some q" "pf_obj q = Some b" "pf_pagenum q = pf_pagenum p" "pframes s g = Some q'" "shape q' = shape q"
        using f unfolding fewer_pages_def is_page_def by blast
      then have "g = f" using frames_ok_unique [OF vm_invD(2) [OF inv] q(4) p(1)] p(3) by (simp add: shape_def)
      then show False using q(1) p(2) by simp
    qed
  qed
  then show ?thesis using t f unfolding fewer_pages_def shape_def by blast
qed

definition example_anon :: vmem where
  "example_anon = snd (anon_create (pframe_init (\<lambda>_. True) [] (\<lambda>_ _. 0) example_pages))"

lemma example_anon_run: "vm_run example_anon"
  unfolding example_anon_def by (rule run_anon [OF run_start [OF example_pages_run example_whole slabs_ok_Nil]]) (rule prod.collapse [symmetric])

lemma example_anon_state:
  "objs example_anon = [0 \<mapsto> (mmobj_init Anon_ops)\<lparr>mmo_refcount := 1\<rparr>]" "pframes example_anon = Map.empty" "plenty 2 example_anon"
  by (simp_all add: example_anon_def anon_create_def slab_result_def new_obj_def pframe_init_def mmobj_init_def plenty_def page_free_count_def example_pages_def)

theorem pageoutd_reclaims_witness:
  "\<exists>f t u. pframe_get 0 7 example_anon = Some (0, Some f, t) \<and> vm_run t \<and> pframes t f \<noteq> None
    \<and> pageoutd_pass (t\<lparr>nfreepages_target := 200\<rparr>) = Some u \<and> (pageoutd_target_met u \<or> alloc_list u = [])"
proof -
  let ?x = "(mmobj_init Anon_ops)\<lparr>mmo_refcount := 1\<rparr>"
  have x: "objs example_anon 0 = Some ?x" "0 < mmo_refcount ?x" by (simp_all add: example_anon_state)
  have p: "sees example_anon 0 7 (\<lambda>_. 0)" by (rule sees.bottom [OF _ x(1)]) (simp_all add: is_page_def example_anon_state mmobj_init_def)
  obtain f t where get: "pframe_get 0 7 example_anon = Some (0, Some f, t)" "get_post {} example_anon 0 7 f t"
    using pframe_get_ok [OF vm_run_inv [OF example_anon_run] x p example_anon_state(3)] by blast
  have run: "vm_run t" by (rule run_get [OF example_anon_run get(1)])
  have "\<forall>c. map_option skeleton (objs t c) = map_option skeleton (objs example_anon c)" using get(2) by (simp add: get_post_def extends_def)
  then have "mmo_ops y = Anon_ops" if "objs t c = Some y" for c y
    using that by (auto dest: spec [of _ c] simp: example_anon_state skeleton_def mmobj_init_def split: if_splits)
  then show ?thesis using get run pageoutd_reclaims [OF run, of 200] unfolding get_post_def by blast
qed

section \<open>The last reference to a shadow object\<close>

text \<open>A frame that can be dropped without writing it out.\<close>

definition idle :: "vmem \<Rightarrow> nat \<Rightarrow> bool" where
  "idle s f \<longleftrightarrow> (\<exists>pf. pframes s f = Some pf \<and> pf_pincount pf = 0 \<and> \<not> pf_busy pf \<and> \<not> pf_dirty pf)"

lemma release_idle: "idle s f \<Longrightarrow> release_page put f s = Some s"
  by (auto simp: idle_def release_page_def unpin_all_def)

lemma each_release_idle: "(\<And>f. f \<in> set fs \<Longrightarrow> idle s f) \<Longrightarrow> each_page (release_page put) fs s = Some s"
  by (induction fs) (simp_all add: release_idle)

lemma clean_unreachable:
  assumes "pframes s f = Some pf" and "pf_dirty pf" and "pf_pincount pf = 0" and "pf_obj pf = Some b" and "objs s b = Some x"
    and "mmo_shadowed x \<noteq> None" and "mmo_un x = Bottom_obj None"
  shows "pframe_clean put f s = None"
proof -
  have "mmobj_bottom_vmas b (s\<lparr>pframes := (pframes s)(f \<mapsto> pf\<lparr>pf_dirty := False\<rparr>)\<rparr>) = None" using assms by (simp add: mmobj_bottom_vmas_def)
  then show ?thesis using assms by (simp add: pframe_clean_def set_dirty_def mod_frame_def pframe_remove_from_pts_def)
qed

text \<open>
  C38.  Dropping the last reference to a shadow object goes wrong in each of these cases.  An object
  without resident pages is not freed although nobody refers to it; one whose pages are all clean is freed
  while its frames stay and still point to it; and when its first page is dirty and the
  object has no bottom object, as those made by \<^verbatim>\<open>fork\<close>, the call does not return.
\<close>

theorem shadow_put_last:
  assumes x: "objs s b = Some x" "mmo_ops x = Shadow_ops" and r: "mmo_refcount x = mmo_nrespages x + 1" "mmo_nrespages x = int (length (mmo_respages x))"
    and own: "\<forall>f \<in> set (mmo_respages x). \<exists>pf. pframes s f = Some pf \<and> pf_obj pf = Some b"
  shows "(mmo_respages x = [] \<longrightarrow> mmo_put b s = Some (s\<lparr>objs := (objs s)(b \<mapsto> x\<lparr>mmo_refcount := 0\<rparr>)\<rparr>))
    \<and> (mmo_respages x \<noteq> [] \<and> (\<forall>f \<in> set (mmo_respages x). idle s f) \<longrightarrow>
        (\<exists>t. mmo_put b s = Some t \<and> objs t b = None \<and> (\<forall>f \<in> set (mmo_respages x). \<exists>pf. pframes t f = Some pf \<and> pf_obj pf = Some b)))
    \<and> (\<forall>f fs pf. mmo_respages x = f # fs \<and> pframes s f = Some pf \<and> pf_pincount pf = 0 \<and> \<not> pf_busy pf \<and> pf_dirty pf
          \<and> mmo_shadowed x \<noteq> None \<and> mmo_un x = Bottom_obj None \<longrightarrow> mmo_put b s = None)"
proof (intro conjI allI impI)
  let ?s = "s\<lparr>objs := (objs s)(b \<mapsto> x\<lparr>mmo_refcount := mmo_refcount x - 1\<rparr>)\<rparr>" and ?put = "put_depth (nat (mmo_refcount x))"
  have run: "mmo_put b s = (if mmo_respages x \<noteq> [] then do {
       s \<leftarrow> each_page (release_page ?put) (mmo_respages x) ?s; KASSERT (objs s b \<noteq> None); Some (s\<lparr>objs := (objs s)(b := None)\<rparr>) } else Some ?s)"
    using x r by (simp add: mmo_put_def shadow_put_def mod_obj_def)
  show "mmo_put b s = Some (s\<lparr>objs := (objs s)(b \<mapsto> x\<lparr>mmo_refcount := 0\<rparr>)\<rparr>)" if "mmo_respages x = []" using run that r by simp
  show "\<exists>t. mmo_put b s = Some t \<and> objs t b = None \<and> (\<forall>f \<in> set (mmo_respages x). \<exists>pf. pframes t f = Some pf \<and> pf_obj pf = Some b)"
    if "mmo_respages x \<noteq> [] \<and> (\<forall>f \<in> set (mmo_respages x). idle s f)"
  proof -
    have "each_page (release_page ?put) (mmo_respages x) ?s = Some ?s" by (rule each_release_idle) (use that in \<open>simp add: idle_def\<close>)
    then show ?thesis using run that own by simp
  qed
  fix f fs pf assume a: "mmo_respages x = f # fs \<and> pframes s f = Some pf \<and> pf_pincount pf = 0 \<and> \<not> pf_busy pf \<and> pf_dirty pf
          \<and> mmo_shadowed x \<noteq> None \<and> mmo_un x = Bottom_obj None"
  then have "pf_obj pf = Some b" using own by simp
  then have "pframe_clean ?put f ?s = None" using a by (intro clean_unreachable [of ?s f pf b "x\<lparr>mmo_refcount := mmo_refcount x - 1\<rparr>"]) auto
  then show "mmo_put b s = None" using run a by (simp add: release_page_def unpin_all_def)
qed

definition example_shadow :: "pframe list \<Rightarrow> vmem" where
  "example_shadow fs = (pframe_init (\<lambda>_. True) [] (\<lambda>_ _. 0) page_init)\<lparr>pframes := (\<lambda>f. if f < length fs then Some (fs ! f) else None),
     objs := [0 \<mapsto> (mmobj_init Anon_ops)\<lparr>mmo_refcount := 1\<rparr>,
              1 \<mapsto> (mmobj_init Shadow_ops)\<lparr>mmo_refcount := 1 + int (length fs), mmo_nrespages := int (length fs), mmo_respages := [0..<length fs],
                   mmo_un := Bottom_obj None, mmo_shadowed := Some 0\<rparr>]\<rparr>"

definition example_frame :: "bool \<Rightarrow> pframe" where
  "example_frame d = \<lparr>pf_obj = Some 1, pf_pagenum = 7, pf_addr = 4096, pf_busy = False, pf_dirty = d, pf_pincount = 0\<rparr>"

theorem shadow_put_last_witness:
  "mmo_put 1 (example_shadow []) = Some ((example_shadow [])\<lparr>objs := (objs (example_shadow []))(1 \<mapsto> (the (objs (example_shadow []) 1))\<lparr>mmo_refcount := 0\<rparr>)\<rparr>)
    \<and> (\<exists>t pf. mmo_put 1 (example_shadow [example_frame False]) = Some t \<and> objs t 1 = None \<and> pframes t 0 = Some pf \<and> pf_obj pf = Some 1)
    \<and> mmo_put 1 (example_shadow [example_frame True]) = None"
  using shadow_put_last [of "example_shadow []" 1] shadow_put_last [of "example_shadow [example_frame False]" 1]
    shadow_put_last [of "example_shadow [example_frame True]" 1]
  by (simp add: example_shadow_def example_frame_def mmobj_init_def idle_def)

end
