(* ===== verification/KMath.thy ===== *)
theory KMath
imports KPrelude
begin

unbundle bit_operations_syntax

text \<open>
  Arithmetic on 64-bit numbers, \<^verbatim>\<open>util/math.c\<close>: division by Knuth's algorithm D on digits of 16 bits,
  kept in arrays of five 32-bit words.  The pointers \<^verbatim>\<open>u\<close>, \<^verbatim>\<open>v\<close> and \<^verbatim>\<open>q\<close> into the arrays
  are offsets, and reading or writing outside an array is \<^const>\<open>None\<close>, as is dividing by zero, which
  traps.  The arrays start with whatever the stack holds.
\<close>

section \<open>Digits\<close>

type_synonym digit = "32 word"

definition HHALF :: "digit \<Rightarrow> digit" where
  "HHALF x = drop_bit 16 x"

definition LHALF :: "digit \<Rightarrow> digit" where
  "LHALF x = x AND 0xFFFF"

definition COMBINE :: "digit \<Rightarrow> digit \<Rightarrow> digit" where
  "COMBINE a b = push_bit 16 a OR b"

definition digit_base :: digit where
  "digit_base = 0x10000"

definition rd :: "digit list \<Rightarrow> nat \<Rightarrow> digit option" where
  "rd a i = (if i < length a then Some (a ! i) else None)"

definition wr :: "digit list \<Rightarrow> nat \<Rightarrow> digit \<Rightarrow> digit list option" where
  "wr a i x = (if i < length a then Some (a[i := x]) else None)"

text \<open>The union \<^verbatim>\<open>uu\<close>: a 64-bit number as two longs, the low one first.\<close>

definition high_long :: "64 word \<Rightarrow> digit" where
  "high_long x = ucast (drop_bit 32 x)"

definition low_long :: "64 word \<Rightarrow> digit" where
  "low_long x = ucast x"

definition quad :: "digit \<Rightarrow> digit \<Rightarrow> 64 word" where
  "quad h l = push_bit 32 (ucast h) OR ucast l"

section \<open>Division\<close>

fun shl :: "digit list \<Rightarrow> nat \<Rightarrow> nat \<Rightarrow> nat \<Rightarrow> digit list option" where
  "shl a p 0 sh = do { x \<leftarrow> rd a p; wr a p (LHALF (push_bit sh x)) }"
| "shl a p (Suc len) sh = do {
     x \<leftarrow> rd a p;
     y \<leftarrow> rd a (p + 1);
     a \<leftarrow> wr a p (LHALF (push_bit sh x) OR drop_bit (16 - sh) y);
     shl a (p + 1) len sh
   }"

text \<open>
  \<^verbatim>\<open>for (n = 4; v[1] == 0; v++)\<close>: the number of digits of the divisor and the offset of
  \<^verbatim>\<open>v\<close>; it stops with one digit left, which is then \<^verbatim>\<open>v[2]\<close>.
\<close>

fun skip_v :: "nat \<Rightarrow> nat \<Rightarrow> digit list \<Rightarrow> (nat \<times> nat) option" where
  "skip_v 0 vo v = None"
| "skip_v (Suc n) vo v = do {
     x \<leftarrow> rd v (vo + 1);
     if x \<noteq> 0 then Some (Suc n, vo) else if n = 1 then Some (1, vo) else skip_v n (vo + 1) v
   }"

definition short_division :: "bool \<Rightarrow> digit list \<Rightarrow> digit \<Rightarrow> 64 word \<times> 64 word option" where
  "short_division arq u t =
     (let q1 = u ! 1 div t;
          rbj = COMBINE (u ! 1 mod t) (u ! 2);
          q2 = rbj div t;
          rbj = COMBINE (rbj mod t) (u ! 3);
          q3 = rbj div t;
          rbj = COMBINE (rbj mod t) (u ! 4);
          q4 = rbj div t
      in (quad (COMBINE q1 q2) (COMBINE q3 q4), if arq then Some (ucast (rbj mod t)) else None))"

text \<open>\<^verbatim>\<open>for (m = 4 - n; u[1] == 0; u++) m--;\<close>\<close>

function skip_u :: "int \<Rightarrow> nat \<Rightarrow> digit list \<Rightarrow> (int \<times> nat) option" where
  "skip_u m uo u = (if uo + 1 < length u then (if u ! (uo + 1) \<noteq> 0 then Some (m, uo) else skip_u (m - 1) (uo + 1) u) else None)"
  by pat_completeness auto

termination
  by (relation "measure (\<lambda>(m, uo, u). length u - uo)") auto

fun zero_q :: "nat \<Rightarrow> digit list \<Rightarrow> digit list option" where
  "zero_q 0 q = Some q"
| "zero_q (Suc i) q = do { q \<leftarrow> wr q i 0; zero_q i q }"

text \<open>D1: \<^verbatim>\<open>for (t = v[1]; t < B / 2; t <<= 1) d++;\<close>\<close>

partial_function (option) normal_shift :: "digit \<Rightarrow> nat \<Rightarrow> nat option" where
  "normal_shift t d = (if t < digit_base div 2 then normal_shift (push_bit 1 t) (d + 1) else Some d)"

text \<open>D3: from the label \<^verbatim>\<open>qhat_too_big\<close> on, through the test of the loop.\<close>

partial_function (option) qhat_too_big :: "digit \<Rightarrow> digit \<Rightarrow> digit \<Rightarrow> digit \<Rightarrow> digit \<Rightarrow> digit option" where
  "qhat_too_big v1 v2 uj2 qhat rhat =
     (if digit_base \<le> rhat + v1 then Some (qhat - 1)
      else if COMBINE (rhat + v1) uj2 < v2 * (qhat - 1) then qhat_too_big v1 v2 uj2 (qhat - 1) (rhat + v1)
      else Some (qhat - 1))"

definition calculate_qhat :: "digit \<Rightarrow> digit \<Rightarrow> digit \<Rightarrow> digit \<Rightarrow> digit \<Rightarrow> digit option" where
  "calculate_qhat v1 v2 uj0 uj1 uj2 =
     (if uj0 = v1 then qhat_too_big v1 v2 uj2 digit_base uj1
      else let nn = COMBINE uj0 uj1; qhat = nn div v1; rhat = nn mod v1
        in if COMBINE rhat uj2 < v2 * qhat then qhat_too_big v1 v2 uj2 qhat rhat else Some qhat)"

text \<open>D4: the loop over \<^verbatim>\<open>i = n, ..., 1\<close>; \<^verbatim>\<open>uj\<close> is the offset of \<^verbatim>\<open>u[j]\<close>.\<close>

fun mul_sub :: "nat \<Rightarrow> nat \<Rightarrow> nat \<Rightarrow> digit list \<Rightarrow> digit \<Rightarrow> digit \<Rightarrow> digit list \<Rightarrow> (digit \<times> digit list) option" where
  "mul_sub 0 uj vo v qhat t u = Some (t, u)"
| "mul_sub (Suc i) uj vo v qhat t u = do {
     x \<leftarrow> rd u (uj + Suc i);
     y \<leftarrow> rd v (vo + Suc i);
     let t = x - y * qhat - t;
     u \<leftarrow> wr u (uj + Suc i) (LHALF t);
     mul_sub i uj vo v qhat ((digit_base - HHALF t) AND (digit_base - 1)) u
   }"

text \<open>D6: add back.\<close>

fun add_back :: "nat \<Rightarrow> nat \<Rightarrow> nat \<Rightarrow> digit list \<Rightarrow> digit \<Rightarrow> digit list \<Rightarrow> (digit \<times> digit list) option" where
  "add_back 0 uj vo v t u = Some (t, u)"
| "add_back (Suc i) uj vo v t u = do {
     x \<leftarrow> rd u (uj + Suc i);
     y \<leftarrow> rd v (vo + Suc i);
     let t = t + (x + y);
     u \<leftarrow> wr u (uj + Suc i) (LHALF t);
     add_back i uj vo v (HHALF t) u
   }"

definition division_step :: "nat \<Rightarrow> nat \<Rightarrow> nat \<Rightarrow> digit list \<Rightarrow> digit list \<Rightarrow> (digit \<times> digit list) option" where
  "division_step n uj vo v u = do {
     v1 \<leftarrow> rd v (vo + 1);
     v2 \<leftarrow> rd v (vo + 2);
     uj0 \<leftarrow> rd u uj;
     uj1 \<leftarrow> rd u (uj + 1);
     uj2 \<leftarrow> rd u (uj + 2);
     qhat \<leftarrow> calculate_qhat v1 v2 uj0 uj1 uj2;
     (t, u) \<leftarrow> mul_sub n uj vo v qhat 0 u;
     x \<leftarrow> rd u uj;
     let t = x - t;
     u \<leftarrow> wr u uj (LHALF t);
     if HHALF t \<noteq> 0 then do {
       (t, u) \<leftarrow> add_back n uj vo v 0 u;
       x \<leftarrow> rd u uj;
       u \<leftarrow> wr u uj (LHALF (x + t));
       Some (qhat - 1, u)
     } else Some (qhat, u)
   }"

text \<open>The loop \<^verbatim>\<open>do ... while (++j <= m)\<close>, with the number of rounds left.\<close>

fun division_loop :: "nat \<Rightarrow> nat \<Rightarrow> nat \<Rightarrow> nat \<Rightarrow> nat \<Rightarrow> digit list \<Rightarrow> digit list \<Rightarrow> digit list \<Rightarrow> (digit list \<times> digit list) option" where
  "division_loop 0 n uj qj vo v u q = Some (u, q)"
| "division_loop (Suc k) n uj qj vo v u q = do {
     (qhat, u) \<leftarrow> division_step n uj vo v u;
     q \<leftarrow> wr q qj qhat;
     division_loop k n (uj + 1) (qj + 1) vo v u q
   }"

text \<open>The remainder: \<^verbatim>\<open>for (i = m + n; i > m; --i)\<close> and \<^verbatim>\<open>u[i] = 0\<close>, with \<^verbatim>\<open>um\<close> the offset of \<^verbatim>\<open>u[m]\<close>.\<close>

fun shr :: "nat \<Rightarrow> nat \<Rightarrow> nat \<Rightarrow> digit list \<Rightarrow> digit list option" where
  "shr 0 um d u = wr u um 0"
| "shr (Suc i) um d u = do {
     x \<leftarrow> rd u (um + Suc i);
     y \<leftarrow> rd u (um + i);
     u \<leftarrow> wr u (um + Suc i) (drop_bit d x OR LHALF (push_bit (16 - d) y));
     shr i um d u
   }"

definition digits_of :: "digit \<Rightarrow> 64 word \<Rightarrow> digit list" where
  "digits_of x0 x = [x0, HHALF (high_long x), LHALF (high_long x), HHALF (low_long x), LHALF (low_long x)]"

definition from_digits :: "digit list \<Rightarrow> 64 word" where
  "from_digits a = quad (COMBINE (a ! 1) (a ! 2)) (COMBINE (a ! 3) (a ! 4))"

text \<open>
  The flag says whether the caller wants the remainder.  As \<^verbatim>\<open>u\<close> is not less than \<^verbatim>\<open>v\<close>, the
  number \<^verbatim>\<open>m\<close> does not become negative.
\<close>

definition qdivrem :: "digit \<Rightarrow> digit list \<Rightarrow> bool \<Rightarrow> 64 word \<Rightarrow> 64 word \<Rightarrow> (64 word \<times> 64 word option) option" where
  "qdivrem v0 qspace arq uq vq =
     (if vq = 0 then None
      else if uq < vq then Some (0, if arq then Some uq else None)
      else do {
        let u = digits_of 0 uq;
        let v = digits_of v0 vq;
        (n, vo) \<leftarrow> skip_v 4 0 v;
        if n = 1 then do { t \<leftarrow> rd v (vo + 2); Some (short_division arq u t) }
        else do {
          (m, uo) \<leftarrow> skip_u (4 - int n) 0 u;
          let m = nat m;
          q \<leftarrow> zero_q (4 - m) qspace;
          v1 \<leftarrow> rd v (vo + 1);
          d \<leftarrow> normal_shift v1 0;
          u \<leftarrow> (if 0 < d then shl u uo (m + n) d else Some u);
          v \<leftarrow> (if 0 < d then shl v (vo + 1) (n - 1) d else Some v);
          (u, q) \<leftarrow> division_loop (Suc m) n uo (4 - m) vo v u q;
          u \<leftarrow> (if arq \<and> 0 < d then shr n (uo + m) d u else Some u);
          Some (from_digits q, if arq then Some (from_digits u) else None)
        }
      })"

definition udivdi3 :: "digit \<Rightarrow> digit list \<Rightarrow> 64 word \<Rightarrow> 64 word \<Rightarrow> 64 word option" where
  "udivdi3 v0 qspace a b = do { (uq, _) \<leftarrow> qdivrem v0 qspace False a b; Some uq }"

definition umoddi3 :: "digit \<Rightarrow> digit list \<Rightarrow> 64 word \<Rightarrow> 64 word \<Rightarrow> 64 word option" where
  "umoddi3 v0 qspace a b = do { (_, r) \<leftarrow> qdivrem v0 qspace True a b; r }"

definition divdi3 :: "digit \<Rightarrow> digit list \<Rightarrow> 64 word \<Rightarrow> 64 word \<Rightarrow> 64 word option" where
  "divdi3 v0 qspace a b =
     (let (ua, neg) = (if a <s 0 then (- a, True) else (a, False));
          (ub, neg) = (if b <s 0 then (- b, \<not> neg) else (b, neg))
      in do { (uq, _) \<leftarrow> qdivrem v0 qspace False ua ub; Some (if neg then - uq else uq) })"

text \<open>\<^verbatim>\<open>log2\<close>: shifting a negative number right never gives zero.\<close>

partial_function (option) log2_loop :: "32 word \<Rightarrow> 32 word \<Rightarrow> nat \<Rightarrow> (32 word \<times> nat) option" where
  "log2_loop current y result =
     (if current \<noteq> 0 then log2_loop (signed_drop_bit 1 current) (push_bit 1 y) (result + 1) else Some (y, result))"

definition log2 :: "32 word \<Rightarrow> int option" where
  "log2 x = do {
     (y, result) \<leftarrow> log2_loop x 1 0;
     Some (if signed_drop_bit 1 y = x then int result - 1 else int result)
   }"

end
