(* ===== verification/KDivision.thy ===== *)
theory KDivision
imports KMath
begin

unbundle bit_operations_syntax

text \<open>
  The division of \<^verbatim>\<open>util/math.c\<close> divides: for every dividend and every divisor that is
  not zero it returns the quotient and the remainder.  The digits of an array are read as a
  number, the estimate of a digit of the quotient is at most one too large, and a round of the
  loop is a step of long division.
\<close>

section \<open>Digits as numbers\<close>

abbreviation (input) base :: nat where "base \<equiv> 65536"

fun num :: "digit list \<Rightarrow> nat \<Rightarrow> nat \<Rightarrow> nat" where
  "num a i 0 = 0"
| "num a i (Suc k) = num a i k * base + unat (a ! (i + k))"

definition digits :: "digit list \<Rightarrow> nat \<Rightarrow> nat \<Rightarrow> bool" where
  "digits a i k \<longleftrightarrow> (\<forall>x. i \<le> x \<longrightarrow> x < i + k \<longrightarrow> unat (a ! x) < base)"

lemma digitsD: "digits a i k \<Longrightarrow> i \<le> x \<Longrightarrow> x < i + k \<Longrightarrow> unat (a ! x) < base"
  by (simp add: digits_def)

lemma digits_part: "digits a i k \<Longrightarrow> i \<le> j \<Longrightarrow> j + l \<le> i + k \<Longrightarrow> digits a j l"
  by (simp add: digits_def)

lemma num_append: "num a i (j + k) = num a i j * base ^ k + num a (i + j) k"
  by (induction k) (simp_all add: algebra_simps)

lemma num_left: "num a i (Suc k) = unat (a ! i) * base ^ k + num a (Suc i) k"
  using num_append [of a i 1 k] by simp

lemma num_less: "digits a i k \<Longrightarrow> num a i k < base ^ k"
proof (induction k)
  case (Suc k)
  then have "num a i k + 1 \<le> base ^ k" "unat (a ! (i + k)) < base" by (auto simp: digits_def)
  then have "(num a i k + 1) * base \<le> base ^ k * base" using mult_le_mono1 by blast
  then show ?case using \<open>unat (a ! (i + k)) < base\<close> by simp
qed simp

lemma num_cong: "(\<And>x. i \<le> x \<Longrightarrow> x < i + k \<Longrightarrow> a ! x = b ! x) \<Longrightarrow> num a i k = num b i k"
  by (induction k) simp_all

lemma num_zeros: "(\<And>x. i \<le> x \<Longrightarrow> x < i + k \<Longrightarrow> a ! x = 0) \<Longrightarrow> num a i k = 0"
  by (induction k) simp_all

lemma unat_bound: "unat (x :: 'a::len word) < 2 ^ LENGTH('a)"
  by (rule unsigned_less)

lemma unat_HHALF: "unat (HHALF x) = unat x div base"
  by (simp add: HHALF_def drop_bit_eq_div unat_div)

lemma unat_drop_bit: "unat (drop_bit k (x :: 32 word)) = unat x div 2 ^ k"
  unfolding unsigned_drop_bit_eq using unat_bound [of x] by (simp add: drop_bit_eq_div take_bit_eq_mod)

lemma LHALF_take_bit: "LHALF x = take_bit 16 x"
proof -
  have "(0xFFFF :: 32 word) = mask 16" by (simp add: mask_eq_exp_minus_1)
  then show ?thesis by (simp add: LHALF_def take_bit_eq_mask)
qed

lemma unat_LHALF: "unat (LHALF x) = unat x mod base"
  unfolding LHALF_take_bit unsigned_take_bit_eq by (simp add: take_bit_eq_mod)

lemma LHALF_less: "unat (LHALF x) < base"
  by (simp add: unat_LHALF)

lemma unat_push_bit_small: "unat (x :: 32 word) * 2 ^ k < 2 ^ 32 \<Longrightarrow> unat (push_bit k x) = unat x * 2 ^ k"
  unfolding unsigned_push_bit_eq by (simp add: push_bit_eq_mult take_bit_eq_mod)
lemma or_add:
  fixes x y :: "'a::len word"
  assumes "unat y < 2 ^ k" and "2 ^ k dvd unat x"
  shows "unat (x OR y) = unat x + unat y"
proof -
  have "\<not> bit (unat x) n \<or> \<not> bit (unat y) n" for n
  proof (cases "n < k")
    case True
    obtain c where "unat x = 2 ^ k * c" using assms(2) by (auto simp: dvd_def)
    then have "unat x = push_bit k c" by (simp add: push_bit_eq_mult)
    then show ?thesis using True by (simp add: bit_push_bit_iff)
  next
    case False
    have "unat y = take_bit k (unat y)" using assms(1) by (simp add: take_bit_nat_eq_self)
    then show ?thesis using False by (metis bit_take_bit_iff)
  qed
  from disjunctive_add [OF this] show ?thesis by (simp add: unsigned_or_eq)
qed

lemma unat_COMBINE:
  assumes "unat a < base" and "unat b < base"
  shows "unat (COMBINE a b) = unat a * base + unat b"
proof -
  have p: "unat (push_bit 16 a) = unat a * base" using unat_push_bit_small [of a 16] assms(1) by simp
  show ?thesis unfolding COMBINE_def by (subst or_add [of _ 16]) (use assms(2) in \<open>simp_all add: p\<close>)
qed

lemma unat_widen: "unat (ucast (h :: 32 word) :: 64 word) = unat h"
proof -
  have "unat h < 2 ^ 64" using unat_bound [of h] by simp
  then show ?thesis unfolding unsigned_ucast_eq by (simp add: take_bit_nat_eq_self)
qed

lemma unat_quad: "unat (quad h l) = unat h * 2 ^ 32 + unat l"
proof -
  have "unat h * 2 ^ 32 < 2 ^ 64" using unat_bound [of h] by simp
  then have p: "unat (push_bit 32 (ucast h :: 64 word)) = unat h * 2 ^ 32"
    unfolding unsigned_push_bit_eq unat_widen by (simp add: push_bit_eq_mult take_bit_eq_mod)
  have l: "unat (ucast l :: 64 word) < 2 ^ 32" using unat_bound [of l] by (simp add: unat_widen)
  have "2 ^ 32 dvd unat (push_bit 32 (ucast h :: 64 word))" unfolding p by (rule dvd_triv_right)
  from or_add [OF l this] show ?thesis by (simp only: quad_def p unat_widen)
qed

lemma halves: "unat (high_long x) = unat x div 2 ^ 32" "unat (low_long x) = unat x mod 2 ^ 32"
proof -
  have "unat x div 2 ^ 32 < 2 ^ 32" using unat_bound [of x] by (simp add: less_mult_imp_div_less)
  moreover have "unat (drop_bit 32 x) = unat x div 2 ^ 32" by (simp add: drop_bit_eq_div unat_div)
  ultimately show "unat (high_long x) = unat x div 2 ^ 32" unfolding high_long_def unsigned_ucast_eq by (simp add: take_bit_nat_eq_self)
  show "unat (low_long x) = unat x mod 2 ^ 32" unfolding low_long_def unsigned_ucast_eq by (simp add: take_bit_eq_mod)
qed

lemma num_four: "num a 1 4 = ((unat (a ! 1) * base + unat (a ! 2)) * base + unat (a ! 3)) * base + unat (a ! 4)"
proof -
  have four: "4 = Suc (Suc (Suc (Suc 0)))" by simp
  show ?thesis by (subst four) (simp add: numeral_2_eq_2 numeral_3_eq_3 four)
qed

lemma digits_four: "digits a 1 4 \<longleftrightarrow> unat (a ! 1) < base \<and> unat (a ! 2) < base \<and> unat (a ! 3) < base \<and> unat (a ! 4) < base"
proof -
  have "1 \<le> x \<and> x < 1 + 4 \<longleftrightarrow> x = 1 \<or> x = 2 \<or> x = 3 \<or> x = (4::nat)" for x by auto
  then show ?thesis unfolding digits_def by metis
qed

lemma digits_of_nth:
  "digits_of x0 x ! 0 = x0" "digits_of x0 x ! 1 = HHALF (high_long x)" "digits_of x0 x ! 2 = LHALF (high_long x)"
  "digits_of x0 x ! 3 = HHALF (low_long x)" "digits_of x0 x ! 4 = LHALF (low_long x)" "length (digits_of x0 x) = 5"
  by (simp_all add: digits_of_def)

lemma digits_of_num: "num (digits_of x0 x) 1 4 = unat x"
proof -
  have "num (digits_of x0 x) 1 4 = (unat (high_long x) div base * base + unat (high_long x) mod base) * 2 ^ 32 + (unat (low_long x) div base * base + unat (low_long x) mod base)"
    by (simp only: num_four digits_of_nth unat_HHALF unat_LHALF) simp
  also have "\<dots> = unat (high_long x) * 2 ^ 32 + unat (low_long x)" by (simp only: div_mult_mod_eq)
  also have "\<dots> = unat x" by (simp only: halves div_mult_mod_eq)
  finally show ?thesis .
qed

lemma digits_of_digits: "digits (digits_of x0 x) 1 4"
proof -
  have "unat (HHALF y) < base" for y using unat_bound [of y] by (simp add: unat_HHALF less_mult_imp_div_less)
  then show ?thesis unfolding digits_four digits_of_nth using LHALF_less by simp
qed

lemma from_digits_num: "digits a 1 4 \<Longrightarrow> unat (from_digits a) = num a 1 4"
  unfolding digits_four num_four from_digits_def by (simp add: unat_quad unat_COMBINE)

section \<open>The estimate of a digit of the quotient\<close>

text \<open>The leading digits of the two numbers: \<^verbatim>\<open>nn\<close> stands for the first two of the dividend.\<close>

definition leading :: "nat \<Rightarrow> nat \<Rightarrow> nat \<Rightarrow> nat \<Rightarrow> nat \<Rightarrow> nat \<Rightarrow> bool" where
  "leading U V nn u2 v1 v2 \<longleftrightarrow> base div 2 \<le> v1 \<and> v1 < base \<and> v2 < base \<and> u2 < base
     \<and> (\<exists>P W R. W < P \<and> R < P \<and> V = (v1 * base + v2) * P + W \<and> U = (nn * base + u2) * P + R)"

lemma leadingE:
  assumes "leading U V nn u2 v1 v2"
  obtains P W R where "W < P" and "R < P" and "V = (v1 * base + v2) * P + W" and "U = (nn * base + u2) * P + R" and "base div 2 \<le> v1" and "v1 < base" and "v2 < base" and "u2 < base"
  using assms unfolding leading_def by blast

lemma estimate_too_big:
  assumes "leading U V nn u2 v1 v2" and nn: "qh * v1 + rh = nn" and big: "rh * base + u2 < v2 * qh"
  shows "U div V < qh"
  using assms(1)
proof (rule leadingE)
  fix P W R assume a: "R < P" "V = (v1 * base + v2) * P + W" "U = (nn * base + u2) * P + R"
  have "nn * base + u2 + 1 \<le> qh * (v1 * base + v2)" using big by (simp add: nn [symmetric] algebra_simps)
  then have "(nn * base + u2 + 1) * P \<le> qh * (v1 * base + v2) * P" by (rule mult_le_mono1)
  moreover have "U < (nn * base + u2 + 1) * P" using a by (simp add: add_mult_distrib)
  moreover have "qh * (v1 * base + v2) * P \<le> qh * V" using a by (simp add: algebra_simps)
  ultimately have "U < qh * V" by linarith
  then show ?thesis by (rule less_mult_imp_div_less)
qed

lemma estimate_close:
  assumes "leading U V nn u2 v1 v2" and nn: "qh * v1 + rh = nn" and qh: "qh \<le> base" and stop: "base \<le> rh \<or> v2 * qh \<le> rh * base + u2"
  shows "qh \<le> U div V + 1"
  using assms(1)
proof (rule leadingE)
  fix P W R assume a: "W < P" "V = (v1 * base + v2) * P + W" "U = (nn * base + u2) * P + R" and v: "base div 2 \<le> v1" "v2 < base"
  have "v2 * qh \<le> rh * base + u2"
    using stop
  proof
    assume "base \<le> rh"
    have "v2 * qh \<le> base * base" using v(2) qh by (intro mult_le_mono) auto
    also have "\<dots> \<le> rh * base" using \<open>base \<le> rh\<close> by (intro mult_le_mono) auto
    finally show ?thesis by simp
  qed
  then have "qh * (v1 * base + v2) \<le> nn * base + u2" by (simp add: nn [symmetric] algebra_simps)
  then have "qh * (v1 * base + v2) * P \<le> (nn * base + u2) * P" by (rule mult_le_mono1)
  moreover have "qh * W \<le> base * P" using qh a(1) by (intro mult_le_mono) auto
  moreover have "base * P \<le> (v1 * base + v2) * P" using v(1) by (intro mult_le_mono1) simp
  ultimately have "qh * V \<le> U + V" using a by (simp add: algebra_simps)
  moreover have "0 < V" using a v(1) by auto
  ultimately have "(qh - 1) * V \<le> U" by (cases qh) auto
  then have "qh - 1 \<le> U div V" using \<open>0 < V\<close> by (simp add: less_eq_div_iff_mult_less_eq)
  then show ?thesis by simp
qed

lemma estimate_enough:
  assumes "leading U V nn u2 v1 v2"
  shows "U div V \<le> nn div v1"
  using assms
proof (rule leadingE)
  fix P W R assume a: "R < P" "V = (v1 * base + v2) * P + W" "U = (nn * base + u2) * P + R" and v: "base div 2 \<le> v1" "u2 < base"
  let ?q = "U div V"
  have "?q * v1 * (base * P) \<le> ?q * V" using a(2) by (simp add: algebra_simps)
  also have "\<dots> \<le> U" by (rule div_times_less_eq_dividend)
  also have "U < (nn * base + u2 + 1) * P" using a(1,3) by (simp add: add_mult_distrib)
  also have "\<dots> \<le> ((nn + 1) * base) * P" using v(2) by (intro mult_le_mono1) simp
  finally have "?q * v1 * (base * P) < (nn + 1) * (base * P)" by (simp only: mult.assoc)
  then have "?q * v1 < nn + 1" by (rule mult_less_cancel2 [THEN iffD1, THEN conjunct2])
  then show ?thesis using v(1) by (simp add: less_eq_div_iff_mult_less_eq)
qed

lemma unat_digit_base: "unat digit_base = base"
  by (simp add: digit_base_def)

lemma unat_add_small: "unat (x :: 32 word) + unat y < 2 ^ 32 \<Longrightarrow> unat (x + y) = unat x + unat y"
  by (rule unat_add_lem [THEN iffD1]) simp

lemma unat_mult_small: "unat (x :: 32 word) * unat y < 2 ^ 32 \<Longrightarrow> unat (x * y) = unat x * unat y"
  by (rule unat_mult_lem [THEN iffD1]) simp

lemma unat_pred: "0 < unat (x :: 32 word) \<Longrightarrow> unat (x - 1) = unat x - 1"
  by (subst unat_sub) (simp_all add: word_le_nat_alt)

lemma qhat_too_big_ok:
  assumes L: "leading U V nn (unat uj2) (unat v1) (unat v2)" and "unat rhat < base" and "unat qhat \<le> base" and "unat qhat * unat v1 + unat rhat = nn" and "U div V < unat qhat"
  shows "\<exists>r. qhat_too_big v1 v2 uj2 qhat rhat = Some r \<and> U div V \<le> unat r \<and> unat r \<le> U div V + 1 \<and> unat r < base"
  using assms(2-)
proof (induction "base - unat rhat" arbitrary: qhat rhat rule: less_induct)
  case less
  have d: "base div 2 \<le> unat v1" "unat v1 < base" "unat v2 < base" "unat uj2 < base" using L by (auto simp: leading_def)
  have r: "unat (rhat + v1) = unat rhat + unat v1" using less.prems(1) d by (intro unat_add_small) simp
  have q: "unat (qhat - 1) = unat qhat - 1" using less.prems(4) by (intro unat_pred) simp
  have nn: "unat (qhat - 1) * unat v1 + unat (rhat + v1) = nn"
    using less.prems(3,4) unfolding q r by (cases "unat qhat") simp_all
  have lo: "U div V \<le> unat (qhat - 1)" "unat (qhat - 1) < base" using less.prems(2,4) q by simp_all
  note close = estimate_close [OF L nn less_imp_le [OF lo(2)]]
  show ?case
  proof (cases "digit_base \<le> rhat + v1")
    case True
    then have "base \<le> unat (rhat + v1)" by (simp add: word_le_nat_alt unat_digit_base)
    then show ?thesis using True lo close by (subst qhat_too_big.simps) simp
  next
    case False
    then have small: "unat (rhat + v1) < base" by (simp add: word_le_nat_alt unat_digit_base)
    have c: "unat (COMBINE (rhat + v1) uj2) = unat (rhat + v1) * base + unat uj2" by (rule unat_COMBINE [OF small d(4)])
    have "unat v2 * unat (qhat - 1) < base * base" using d(3) lo(2) by (intro mult_strict_mono) auto
    then have p: "unat (v2 * (qhat - 1)) = unat v2 * unat (qhat - 1)" by (intro unat_mult_small) simp
    show ?thesis
    proof (cases "COMBINE (rhat + v1) uj2 < v2 * (qhat - 1)")
      case True
      then have "unat (rhat + v1) * base + unat uj2 < unat v2 * unat (qhat - 1)" by (simp only: word_less_nat_alt c p)
      from estimate_too_big [OF L nn this] have lt: "U div V < unat (qhat - 1)" .
      have "base - unat (rhat + v1) < base - unat rhat" using small r d(1) by simp
      from less.hyps [OF this small less_imp_le [OF lo(2)] nn lt] show ?thesis using False True by (subst qhat_too_big.simps) simp
    next
      case stop: False
      then have "unat v2 * unat (qhat - 1) \<le> unat (rhat + v1) * base + unat uj2" by (simp only: word_less_nat_alt c p not_less)
      then show ?thesis using False stop lo close by (subst qhat_too_big.simps) simp
    qed
  qed
qed

lemma calculate_qhat_ok:
  assumes L: "leading U V (unat uj0 * base + unat uj1) (unat uj2) (unat v1) (unat v2)" and uj: "unat uj0 \<le> unat v1" "unat uj1 < base" and q: "U div V < base"
  shows "\<exists>r. calculate_qhat v1 v2 uj0 uj1 uj2 = Some r \<and> U div V \<le> unat r \<and> unat r \<le> U div V + 1 \<and> unat r < base"
proof (cases "uj0 = v1")
  case True
  from qhat_too_big_ok [OF L, of uj1 digit_base] uj(2) q True show ?thesis by (simp add: calculate_qhat_def unat_digit_base)
next
  case False
  have d: "base div 2 \<le> unat v1" "unat v1 < base" "unat v2 < base" "unat uj2 < base" using L by (auto simp: leading_def)
  have lt: "unat uj0 < unat v1" using uj(1) False by (metis le_neq_implies_less word_unat_eq_iff)
  define nn where "nn = COMBINE uj0 uj1"
  have n: "unat nn = unat uj0 * base + unat uj1" unfolding nn_def by (rule unat_COMBINE) (use lt d uj(2) in auto)
  have qh: "unat (nn div v1) = unat nn div unat v1" "unat (nn mod v1) = unat nn mod unat v1" by (simp_all add: unat_div unat_mod)
  have "unat uj0 * base + unat uj1 < (unat uj0 + 1) * base" using uj(2) by simp
  also have "\<dots> \<le> unat v1 * base" using lt by (intro mult_le_mono1) simp
  finally have small: "unat (nn div v1) < base" unfolding qh n by (intro less_mult_imp_div_less) (simp add: mult.commute)
  have sum: "unat (nn div v1) * unat v1 + unat (nn mod v1) = unat uj0 * base + unat uj1" unfolding qh n by (rule div_mult_mod_eq)
  have "unat nn mod unat v1 < unat v1" using d(1) by (intro mod_less_divisor) simp
  then have rh: "unat (nn mod v1) < base" using d(2) unfolding qh by simp
  have lo: "U div V \<le> unat (nn div v1)" using estimate_enough [OF L] unfolding qh n .
  have c: "unat (COMBINE (nn mod v1) uj2) = unat (nn mod v1) * base + unat uj2" by (rule unat_COMBINE [OF rh d(4)])
  have "unat v2 * unat (nn div v1) < base * base" using d(3) small by (intro mult_strict_mono) auto
  then have p: "unat (v2 * (nn div v1)) = unat v2 * unat (nn div v1)" by (intro unat_mult_small) simp
  show ?thesis
  proof (cases "COMBINE (nn mod v1) uj2 < v2 * (nn div v1)")
    case True
    then have "unat (nn mod v1) * base + unat uj2 < unat v2 * unat (nn div v1)" by (simp only: word_less_nat_alt c p)
    from qhat_too_big_ok [OF L rh less_imp_le [OF small] sum estimate_too_big [OF L sum this]]
    show ?thesis using True False by (simp add: calculate_qhat_def nn_def Let_def)
  next
    case stop: False
    then have "unat v2 * unat (nn div v1) \<le> unat (nn mod v1) * base + unat uj2" by (simp only: word_less_nat_alt c p not_less)
    then show ?thesis using False stop lo small estimate_close [OF L sum less_imp_le [OF small]] by (simp add: calculate_qhat_def nn_def Let_def)
  qed
qed

section \<open>A round of the division\<close>

lemma sub_digit:
  assumes x: "unat x < base" and y: "unat y < base" "unat q < base" and t: "unat t < base"
    and T: "T = x - y * q - t" and b: "b = (digit_base - HHALF T) AND (digit_base - 1)"
  shows "unat x + unat b * base = unat (LHALF T) + unat y * unat q + unat t" "unat b < base"
proof -
  let ?p = "unat y * unat q + unat t"
  have "unat y * unat q \<le> (base - 1) * (base - 1)" using y by (intro mult_le_mono) auto
  then have p: "?p \<le> (base - 1) * base" using t by simp
  have yq: "unat (y * q) = unat y * unat q" using p by (intro unat_mult_small) simp
  have w: "unat (y * q + t) = ?p" using p yq by (subst unat_add_small) simp_all
  have T': "unat T = (if ?p \<le> unat x then unat x - ?p else unat x + 2 ^ 32 - ?p)"
    using unat_sub_if' [of x "y * q + t"] by (simp add: T w diff_diff_eq)
  have b': "b = LHALF (digit_base - HHALF T)" by (simp add: b LHALF_def digit_base_def)
  show "unat b < base" unfolding b' by (rule LHALF_less)
  show "unat x + unat b * base = unat (LHALF T) + unat y * unat q + unat t"
  proof (cases "?p \<le> unat x")
    case True
    then have h: "unat (HHALF T) = 0" "unat (LHALF T) = unat x - ?p" using T' x by (simp_all add: unat_HHALF unat_LHALF)
    have "unat b = 0" unfolding b' unat_LHALF by (subst unat_sub) (simp_all add: word_le_nat_alt unat_digit_base h(1))
    then show ?thesis using h(2) True by simp
  next
    case False
    then have v: "unat T = unat x + 2 ^ 32 - ?p" using T' by simp
    have ge: "1 \<le> unat T div base" using v p by (simp add: less_eq_div_iff_mult_less_eq)
    have lt: "unat T div base < base" using v False by (intro less_mult_imp_div_less) simp
    have "unat b = base - unat T div base"
      unfolding b' unat_LHALF using ge lt by (subst unat_sub) (simp_all add: word_le_nat_alt unat_digit_base unat_HHALF)
    then have "unat b * base + unat T div base * base = base * base" using lt by (simp add: diff_mult_distrib)
    moreover have "unat T div base * base + unat (LHALF T) = unat x + 2 ^ 32 - ?p" using v by (simp add: unat_LHALF)
    ultimately show ?thesis using p by simp
  qed
qed

lemma mul_sub_ok:
  assumes "uj + i < length u" and "vo + i < length v" and "digits u (uj + 1) i" and "digits v (vo + 1) i" and "unat qhat < base" and "unat t < base"
  shows "\<exists>t' u'. mul_sub i uj vo v qhat t u = Some (t', u') \<and> unat t' < base \<and> length u' = length u \<and> (\<forall>x. x \<le> uj \<or> uj + i < x \<longrightarrow> u' ! x = u ! x)
    \<and> digits u' (uj + 1) i \<and> num u (uj + 1) i + unat t' * base ^ i = num u' (uj + 1) i + unat qhat * num v (vo + 1) i + unat t"
  using assms
proof (induction i arbitrary: t u)
  case 0 then show ?case by (simp add: digits_def)
next
  case (Suc i)
  define T where "T = u ! (uj + Suc i) - v ! (vo + Suc i) * qhat - t"
  define b where "b = (digit_base - HHALF T) AND (digit_base - 1)"
  let ?u = "u[uj + Suc i := LHALF T]"
  have "unat (u ! (uj + Suc i)) < base" "unat (v ! (vo + Suc i)) < base" using Suc.prems(3,4) by (auto intro!: digitsD)
  note s = sub_digit [OF this Suc.prems(5,6) T_def b_def]
  have "digits ?u (uj + 1) i" "digits v (vo + 1) i" using Suc.prems(3,4) by (auto simp: digits_def)
  with Suc.IH [of ?u b] Suc.prems(1,2,5) s(2) obtain t' u' where
    r: "mul_sub i uj vo v qhat b ?u = Some (t', u')" "unat t' < base" "length u' = length u" "\<forall>x. x \<le> uj \<or> uj + i < x \<longrightarrow> u' ! x = ?u ! x" "digits u' (uj + 1) i"
      "num ?u (uj + 1) i + unat t' * base ^ i = num u' (uj + 1) i + unat qhat * num v (vo + 1) i + unat b" by auto
  have last: "u' ! (uj + Suc i) = LHALF T" using r(4) Suc.prems(1) by simp
  have same: "num ?u (uj + 1) i = num u (uj + 1) i" by (rule num_cong) simp
  have "digits u' (uj + 1) (Suc i)" using r(5) last LHALF_less by (auto simp: digits_def less_Suc_eq)
  moreover have "num u (uj + 1) (Suc i) + unat t' * base ^ Suc i = num u' (uj + 1) (Suc i) + unat qhat * num v (vo + 1) (Suc i) + unat t"
    using arg_cong [OF r(6), of "\<lambda>z. z * base"] s(1) last unfolding same by (simp add: algebra_simps)
  moreover have "mul_sub (Suc i) uj vo v qhat t u = Some (t', u')" using r(1) Suc.prems(1,2) by (simp add: rd_def wr_def T_def b_def Let_def)
  moreover have "\<forall>x. x \<le> uj \<or> uj + Suc i < x \<longrightarrow> u' ! x = u ! x" using r(4) by simp
  ultimately show ?case using r(2,3) by blast
qed

lemma add_digit:
  assumes d: "unat x < base" "unat y < base" "unat t \<le> 1" and T: "T = t + (x + y)"
  shows "unat x + unat y + unat t = unat (HHALF T) * base + unat (LHALF T)" "unat (HHALF T) \<le> 1"
proof -
  have xy: "unat (x + y) = unat x + unat y" using d by (intro unat_add_small) simp
  have T': "unat T = unat t + (unat x + unat y)" unfolding T using d by (subst unat_add_small) (simp_all add: xy)
  show "unat x + unat y + unat t = unat (HHALF T) * base + unat (LHALF T)" using T' by (simp add: unat_HHALF unat_LHALF)
  have "unat T div base < 2" using T' d by (intro less_mult_imp_div_less) simp
  then show "unat (HHALF T) \<le> 1" by (simp add: unat_HHALF)
qed

lemma add_back_ok:
  assumes "uj + i < length u" and "vo + i < length v" and "digits u (uj + 1) i" and "digits v (vo + 1) i" and "unat t \<le> 1"
  shows "\<exists>t' u'. add_back i uj vo v t u = Some (t', u') \<and> unat t' \<le> 1 \<and> length u' = length u \<and> (\<forall>x. x \<le> uj \<or> uj + i < x \<longrightarrow> u' ! x = u ! x)
    \<and> digits u' (uj + 1) i \<and> num u (uj + 1) i + num v (vo + 1) i + unat t = num u' (uj + 1) i + unat t' * base ^ i"
  using assms
proof (induction i arbitrary: t u)
  case 0 then show ?case by (simp add: digits_def)
next
  case (Suc i)
  define T where "T = t + (u ! (uj + Suc i) + v ! (vo + Suc i))"
  let ?u = "u[uj + Suc i := LHALF T]"
  have d: "unat (u ! (uj + Suc i)) < base" "unat (v ! (vo + Suc i)) < base" using Suc.prems(3,4) by (auto intro!: digitsD)
  note s = add_digit [OF d Suc.prems(5) T_def]
  have "digits ?u (uj + 1) i" "digits v (vo + 1) i" using Suc.prems(3,4) by (auto simp: digits_def)
  with Suc.IH [of ?u "HHALF T"] Suc.prems(1,2) s(2) obtain t' u' where
    r: "add_back i uj vo v (HHALF T) ?u = Some (t', u')" "unat t' \<le> 1" "length u' = length u" "\<forall>x. x \<le> uj \<or> uj + i < x \<longrightarrow> u' ! x = ?u ! x" "digits u' (uj + 1) i"
      "num ?u (uj + 1) i + num v (vo + 1) i + unat (HHALF T) = num u' (uj + 1) i + unat t' * base ^ i" by auto
  have last: "u' ! (uj + Suc i) = LHALF T" using r(4) Suc.prems(1) by simp
  have same: "num ?u (uj + 1) i = num u (uj + 1) i" by (rule num_cong) simp
  have "digits u' (uj + 1) (Suc i)" using r(5) last LHALF_less by (auto simp: digits_def less_Suc_eq)
  moreover have "num u (uj + 1) (Suc i) + num v (vo + 1) (Suc i) + unat t = num u' (uj + 1) (Suc i) + unat t' * base ^ Suc i"
    using arg_cong [OF r(6), of "\<lambda>z. z * base"] s(1) last unfolding same by (simp add: algebra_simps)
  moreover have "add_back (Suc i) uj vo v t u = Some (t', u')" using r(1) Suc.prems(1,2) by (simp add: rd_def wr_def T_def Let_def)
  moreover have "\<forall>x. x \<le> uj \<or> uj + Suc i < x \<longrightarrow> u' ! x = u ! x" using r(4) by simp
  ultimately show ?case using r(2,3) by blast
qed

lemma top_digit:
  assumes "unat x < base" and "unat t < base"
  shows "HHALF (x - t) \<noteq> 0 \<longleftrightarrow> unat x < unat t" "unat (LHALF (x - t)) = (if unat x < unat t then base + unat x - unat t else unat x - unat t)"
proof -
  have T: "unat (x - t) = (if unat t \<le> unat x then unat x - unat t else unat x + 2 ^ 32 - unat t)" by (simp add: unat_sub_if')
  have "HHALF (x - t) \<noteq> 0 \<longleftrightarrow> unat (HHALF (x - t)) \<noteq> 0" by (simp add: unat_eq_0)
  also have "\<dots> \<longleftrightarrow> base \<le> unat (x - t)" by (simp add: unat_HHALF div_eq_0_iff not_less)
  also have "\<dots> \<longleftrightarrow> unat x < unat t" using T assms by auto
  finally show "HHALF (x - t) \<noteq> 0 \<longleftrightarrow> unat x < unat t" .
  have "(unat x + 2 ^ 32 - unat t) mod base = base + unat x - unat t" if "unat x < unat t"
  proof -
    have "unat x + 2 ^ 32 - unat t = (base - 1) * base + (base + unat x - unat t)" using assms that by simp
    also have "\<dots> mod base = (base + unat x - unat t) mod base" by (rule mod_mult_self3)
    finally show ?thesis using that assms by simp
  qed
  then show "unat (LHALF (x - t)) = (if unat x < unat t then base + unat x - unat t else unat x - unat t)" using T assms by (auto simp: unat_LHALF)
qed

lemma step_leading:
  assumes u: "digits u uj (Suc (Suc (Suc k)))" and v: "digits v (vo + 1) (Suc (Suc k))" and norm: "base div 2 \<le> unat (v ! (vo + 1))"
  shows "leading (num u uj (Suc (Suc (Suc k)))) (num v (vo + 1) (Suc (Suc k))) (unat (u ! uj) * base + unat (u ! (uj + 1))) (unat (u ! (uj + 2))) (unat (v ! (vo + 1))) (unat (v ! (vo + 2)))"
proof -
  have "num u uj (Suc (Suc (Suc k))) = ((unat (u ! uj) * base + unat (u ! (uj + 1))) * base + unat (u ! (uj + 2))) * base ^ k + num u (uj + 3) k"
    using num_append [of u uj "Suc (Suc (Suc 0))" k] by (simp add: eval_nat_numeral(3) numeral_2_eq_2)
  moreover have "num v (vo + 1) (Suc (Suc k)) = (unat (v ! (vo + 1)) * base + unat (v ! (vo + 2))) * base ^ k + num v (vo + 3) k"
    using num_append [of v "vo + 1" "Suc (Suc 0)" k] by (simp add: numeral_3_eq_3 numeral_2_eq_2)
  moreover have "num u (uj + 3) k < base ^ k" "num v (vo + 3) k < base ^ k"
    by (rule num_less, rule digits_part [OF u], simp, simp) (rule num_less, rule digits_part [OF v], simp, simp)
  moreover have "unat (v ! (vo + 1)) < base" "unat (v ! (vo + 2)) < base" "unat (u ! (uj + 2)) < base" by (auto intro!: digitsD [OF u] digitsD [OF v])
  ultimately show ?thesis using norm unfolding leading_def by blast
qed

lemma first_digit_le:
  assumes u: "digits u uj (Suc n)" and v: "digits v (vo + 1) n" "0 < n" and lt: "num u uj (Suc n) < base * num v (vo + 1) n"
  shows "unat (u ! uj) \<le> unat (v ! (vo + 1))"
proof -
  obtain k where n: "n = Suc k" using v(2) by (cases n) auto
  have "num v (vo + 1) n < (unat (v ! (vo + 1)) + 1) * base ^ k"
    using num_less [of v "Suc (vo + 1)" k] digits_part [OF v(1), of "Suc (vo + 1)" k] unfolding n num_left [of v] by (simp add: n)
  then have "base * num v (vo + 1) n < (unat (v ! (vo + 1)) + 1) * base ^ n" by (simp add: n algebra_simps)
  moreover have "unat (u ! uj) * base ^ n \<le> num u uj (Suc n)" unfolding num_left by simp
  ultimately have "unat (u ! uj) * base ^ n < (unat (v ! (vo + 1)) + 1) * base ^ n" using lt by linarith
  then have "unat (u ! uj) < unat (v ! (vo + 1)) + 1" by (rule mult_less_cancel2 [THEN iffD1, THEN conjunct2])
  then show ?thesis by simp
qed

lemma round_exact:
  assumes "(U::nat) = U1 + qh * V" and "U div V \<le> qh" and "0 < V"
  shows "qh = U div V" "U1 = U mod V"
proof -
  have "qh \<le> U div V" using assms(1,3) by (simp add: less_eq_div_iff_mult_less_eq)
  then show q: "qh = U div V" using assms(2) by simp
  show "U1 = U mod V" using assms(1) q by (metis add_diff_cancel_right' minus_div_mult_eq_mod)
qed

lemma round_over:
  assumes "(U::nat) + N = U1 + qh * V" and "U1 < N" and "qh \<le> U div V + 1"
  shows "qh = U div V + 1" "U1 + V = N + U mod V"
proof -
  have "U div V < qh" using assms(1,2) by (intro less_mult_imp_div_less) simp
  then show q: "qh = U div V + 1" using assms(3) by simp
  have "U div V * V + U mod V = U" by (rule div_mult_mod_eq)
  then show "U1 + V = N + U mod V" using assms(1) unfolding q add_mult_distrib mult_1 by linarith
qed

lemma digit_unique:
  assumes "(a::nat) * P + l = b * P + r" and "l < P" and "r < P"
  shows "a = b" "l = r"
proof -
  have "(a * P + l) div P = a" "(b * P + r) div P = b" using assms(2,3) by simp_all
  then show "a = b" using assms(1) by simp
  then show "l = r" using assms(1) by simp
qed

lemma step_subtract:
  assumes u: "digits u uj (Suc n)" "uj + n < length u" and v: "digits v (vo + 1) n" "vo + n < length v" and q: "unat qhat < base"
  shows "\<exists>t u' w. mul_sub n uj vo v qhat 0 u = Some (t, u') \<and> rd u' uj = Some (u ! uj) \<and> wr u' uj (LHALF (u ! uj - t)) = Some w
    \<and> length w = length u \<and> (\<forall>x. x < uj \<or> uj + n < x \<longrightarrow> w ! x = u ! x) \<and> digits w uj (Suc n)
    \<and> (if HHALF (u ! uj - t) \<noteq> 0 then num u uj (Suc n) + base ^ Suc n else num u uj (Suc n)) = num w uj (Suc n) + unat qhat * num v (vo + 1) n"
proof -
  have d: "digits u (uj + 1) n" by (rule digits_part [OF u(1)]) simp_all
  obtain t u' where r: "mul_sub n uj vo v qhat 0 u = Some (t, u')" "unat t < base" "length u' = length u" "\<forall>x. x \<le> uj \<or> uj + n < x \<longrightarrow> u' ! x = u ! x"
    "digits u' (uj + 1) n" "num u (uj + 1) n + unat t * base ^ n = num u' (uj + 1) n + unat qhat * num v (vo + 1) n"
    using mul_sub_ok [OF u(2) v(2) d v(1) q, of 0] by auto
  let ?w = "u'[uj := LHALF (u ! uj - t)]"
  have x: "unat (u ! uj) < base" by (rule digitsD [OF u(1)]) simp_all
  note top = top_digit [OF x r(2)]
  have low: "num ?w (uj + 1) n = num u' (uj + 1) n" by (rule num_cong) simp
  have nw: "num ?w uj (Suc n) = unat (LHALF (u ! uj - t)) * base ^ n + num u' (uj + 1) n" unfolding num_left using low u(2) r(3) by simp
  have "(if unat (u ! uj) < unat t then num u uj (Suc n) + base ^ Suc n else num u uj (Suc n)) = num ?w uj (Suc n) + unat qhat * num v (vo + 1) n"
  proof (cases "unat (u ! uj) < unat t")
    case True
    then have "unat (LHALF (u ! uj - t)) + unat t = base + unat (u ! uj)" using top(2) x r(2) by simp
    from arg_cong [OF this, of "\<lambda>z. z * base ^ n"] show ?thesis using True r(6) unfolding nw num_left [of u] by (simp add: algebra_simps)
  next
    case False
    then have "unat (LHALF (u ! uj - t)) + unat t = unat (u ! uj)" using top(2) by simp
    from arg_cong [OF this, of "\<lambda>z. z * base ^ n"] show ?thesis using False r(6) unfolding nw num_left [of u] by (simp add: algebra_simps)
  qed
  moreover have "digits ?w uj (Suc n)" using r(3,5) u(2) LHALF_less by (auto simp: digits_def nth_list_update)
  moreover have "\<forall>x. x < uj \<or> uj + n < x \<longrightarrow> ?w ! x = u ! x" using r(4) by simp
  ultimately show ?thesis using r(1,3,4) u(2) top(1) by (auto simp: rd_def wr_def)
qed

lemma step_add_back:
  assumes u: "digits u uj (Suc n)" "uj + n < length u" and v: "digits v (vo + 1) n" "vo + n < length v" and over: "num u uj (Suc n) + num v (vo + 1) n = base ^ Suc n + R"
    and R: "R < num v (vo + 1) n"
  shows "\<exists>t u' w. add_back n uj vo v 0 u = Some (t, u') \<and> rd u' uj = Some (u ! uj) \<and> wr u' uj (LHALF (u ! uj + t)) = Some w
    \<and> length w = length u \<and> (\<forall>x. x < uj \<or> uj + n < x \<longrightarrow> w ! x = u ! x) \<and> digits w uj (Suc n) \<and> num w uj (Suc n) = R"
proof -
  have d: "digits u (uj + 1) n" by (rule digits_part [OF u(1)]) simp_all
  obtain t u' where r: "add_back n uj vo v 0 u = Some (t, u')" "unat t \<le> 1" "length u' = length u" "\<forall>x. x \<le> uj \<or> uj + n < x \<longrightarrow> u' ! x = u ! x"
    "digits u' (uj + 1) n" "num u (uj + 1) n + num v (vo + 1) n = num u' (uj + 1) n + unat t * base ^ n"
    using add_back_ok [OF u(2) v(2) d v(1), of 0] by auto
  let ?w = "u'[uj := LHALF (u ! uj + t)]"
  have x: "unat (u ! uj) < base" by (rule digitsD [OF u(1)]) simp_all
  have low: "num ?w (uj + 1) n = num u' (uj + 1) n" by (rule num_cong) simp
  have lt: "num u' (uj + 1) n < base ^ n" by (rule num_less [OF r(5)])
  have "(unat (u ! uj) + unat t) * base ^ n + num u' (uj + 1) n = base * base ^ n + R" using over r(6) unfolding num_left [of u] by (simp add: algebra_simps)
  moreover have "R < base ^ n" using R num_less [OF v(1)] by simp
  ultimately have top: "unat (u ! uj) + unat t = base" "num u' (uj + 1) n = R" using digit_unique lt by blast+
  have "unat (u ! uj + t) = base" using unat_add_small [of "u ! uj" t] top(1) by simp
  then have "unat (LHALF (u ! uj + t)) = 0" by (simp add: unat_LHALF)
  then have "num ?w uj (Suc n) = R" unfolding num_left using low top(2) u(2) r(3) by simp
  moreover have "digits ?w uj (Suc n)" using r(3,5) u(2) LHALF_less by (auto simp: digits_def nth_list_update)
  moreover have "\<forall>x. x < uj \<or> uj + n < x \<longrightarrow> ?w ! x = u ! x" using r(4) by simp
  ultimately show ?thesis using r(1,3,4) u(2) by (auto simp: rd_def wr_def)
qed

lemma division_step_ok:
  assumes n: "2 \<le> n" and u: "digits u uj (Suc n)" "uj + n < length u" and v: "digits v (vo + 1) n" "vo + n < length v" "base div 2 \<le> unat (v ! (vo + 1))"
    and lt: "num u uj (Suc n) < base * num v (vo + 1) n"
  shows "\<exists>qh w. division_step n uj vo v u = Some (qh, w) \<and> unat qh = num u uj (Suc n) div num v (vo + 1) n \<and> num w uj (Suc n) = num u uj (Suc n) mod num v (vo + 1) n
    \<and> unat qh < base \<and> length w = length u \<and> (\<forall>x. x < uj \<or> uj + n < x \<longrightarrow> w ! x = u ! x) \<and> digits w uj (Suc n)"
proof -
  let ?U = "num u uj (Suc n)" and ?V = "num v (vo + 1) n"
  obtain k where k: "n = Suc (Suc k)" using n by (metis add_2_eq_Suc le_Suc_ex)
  have L: "leading ?U ?V (unat (u ! uj) * base + unat (u ! (uj + 1))) (unat (u ! (uj + 2))) (unat (v ! (vo + 1))) (unat (v ! (vo + 2)))"
    using step_leading [of u uj k v vo] u v unfolding k by simp
  have V: "0 < ?V" using lt by (cases "?V = 0") auto
  have "unat (u ! uj) \<le> unat (v ! (vo + 1))" using first_digit_le [OF u(1) v(1) _ lt] n by simp
  moreover have "unat (u ! (uj + 1)) < base" using n by (intro digitsD [OF u(1)]) auto
  moreover have "?U div ?V < base" using lt by (rule less_mult_imp_div_less)
  ultimately obtain qhat where qh: "calculate_qhat (v ! (vo + 1)) (v ! (vo + 2)) (u ! uj) (u ! (uj + 1)) (u ! (uj + 2)) = Some qhat"
    "?U div ?V \<le> unat qhat" "unat qhat \<le> ?U div ?V + 1" "unat qhat < base" using calculate_qhat_ok [OF L] by blast
  obtain t u1 w where w: "mul_sub n uj vo v qhat 0 u = Some (t, u1)" "rd u1 uj = Some (u ! uj)" "wr u1 uj (LHALF (u ! uj - t)) = Some w" "length w = length u"
    "\<forall>x. x < uj \<or> uj + n < x \<longrightarrow> w ! x = u ! x" "digits w uj (Suc n)"
    "(if HHALF (u ! uj - t) \<noteq> 0 then ?U + base ^ Suc n else ?U) = num w uj (Suc n) + unat qhat * ?V" using step_subtract [OF u v(1,2) qh(4)] by blast
  have run: "division_step n uj vo v u = (if HHALF (u ! uj - t) \<noteq> 0 then do {
       (t, u) \<leftarrow> add_back n uj vo v 0 w; x \<leftarrow> rd u uj; u \<leftarrow> wr u uj (LHALF (x + t)); Some (qhat - 1, u) } else Some (qhat, w))"
    using n u(2) v(2) qh(1) w(1-3) by (simp add: division_step_def rd_def Let_def)
  show ?thesis
  proof (cases "HHALF (u ! uj - t) \<noteq> 0")
    case False
    then have "?U = num w uj (Suc n) + unat qhat * ?V" using w(7) by simp
    from round_exact [OF this qh(2) V] show ?thesis using run False w(4-6) qh(4) by simp
  next
    case True
    then have "?U + base ^ Suc n = num w uj (Suc n) + unat qhat * ?V" using w(7) by simp
    note over = round_over [OF this num_less [OF w(6)] qh(3)]
    have wl: "uj + n < length w" using w(4) u(2) by simp
    obtain t' u2 w' where w': "add_back n uj vo v 0 w = Some (t', u2)" "rd u2 uj = Some (w ! uj)" "wr u2 uj (LHALF (w ! uj + t')) = Some w'" "length w' = length w"
      "\<forall>x. x < uj \<or> uj + n < x \<longrightarrow> w' ! x = w ! x" "digits w' uj (Suc n)" "num w' uj (Suc n) = ?U mod ?V"
      using step_add_back [OF w(6) wl v(1,2) over(2) mod_less_divisor [OF V]] by blast
    have "unat (qhat - 1) = ?U div ?V" using unat_pred [of qhat] over(1) by simp
    then show ?thesis using run True w' w(4,5) qh(4) \<open>?U div ?V < base\<close> by simp
  qed
qed

lemma digits_Cons: "unat (a ! i) < base \<Longrightarrow> digits a (Suc i) k \<Longrightarrow> digits a i (Suc k)"
  unfolding digits_def by (metis Suc_leI add_Suc add_Suc_right le_neq_implies_less)

lemma digits_extend:
  assumes "digits a i k" and "digits b i l" and "\<And>x. i + k \<le> x \<Longrightarrow> a ! x = b ! x" and "i \<le> j" and "j + m \<le> i + l"
  shows "digits a j m"
  unfolding digits_def
proof (intro allI impI)
  fix x assume x: "j \<le> x" "x < j + m"
  show "unat (a ! x) < base"
  proof (cases "x < i + k")
    case True then show ?thesis using digitsD [OF assms(1), of x] x assms(4) by simp
  next
    case False then show ?thesis using digitsD [OF assms(2), of x] assms(3) [of x] x assms(4,5) by simp
  qed
qed

lemma division_loop_ok:
  assumes n: "2 \<le> n" and v: "digits v (vo + 1) n" "vo + n < length v" "base div 2 \<le> unat (v ! (vo + 1))"
  shows "digits u uj (n + k) \<Longrightarrow> uj + n + k \<le> length u \<Longrightarrow> qj + k \<le> length q \<Longrightarrow> num u uj n < num v (vo + 1) n \<Longrightarrow>
    \<exists>u' q'. division_loop k n uj qj vo v u q = Some (u', q') \<and> num u uj (n + k) = num q' qj k * num v (vo + 1) n + num u' (uj + k) n \<and> num u' (uj + k) n < num v (vo + 1) n
      \<and> length u' = length u \<and> length q' = length q \<and> digits u' uj (n + k) \<and> digits q' qj k \<and> (\<forall>x. x < uj \<longrightarrow> u' ! x = u ! x) \<and> (\<forall>x. x < qj \<longrightarrow> q' ! x = q ! x)
      \<and> (\<forall>x. uj \<le> x \<longrightarrow> x < uj + k \<longrightarrow> u' ! x = 0)"
proof (induction k arbitrary: u uj q qj)
  case 0 then show ?case by (simp add: digits_def)
next
  case (Suc k)
  let ?V = "num v (vo + 1) n"
  have du: "digits u uj (Suc n)" by (rule digits_part [OF Suc.prems(1)]) simp_all
  have "unat (u ! (uj + n)) < base" using digitsD [OF du, of "uj + n"] by simp
  moreover have "(num u uj n + 1) * base \<le> ?V * base" using Suc.prems(4) by (intro mult_le_mono1) simp
  ultimately have lt: "num u uj (Suc n) < base * ?V" by (simp add: mult.commute)
  have ul: "uj + n < length u" using Suc.prems(2) by simp
  obtain qh w where w: "division_step n uj vo v u = Some (qh, w)" "unat qh = num u uj (Suc n) div ?V" "num w uj (Suc n) = num u uj (Suc n) mod ?V" "unat qh < base"
    "length w = length u" "\<forall>x. x < uj \<or> uj + n < x \<longrightarrow> w ! x = u ! x" "digits w uj (Suc n)" using division_step_ok [OF n du ul v lt] by blast
  have V: "0 < ?V" using Suc.prems(4) by simp
  have "num w uj (Suc n) < ?V" using w(3) V by simp
  then have "unat (w ! uj) * base ^ n + num w (uj + 1) n < base ^ n" using num_less [OF v(1)] unfolding num_left by simp
  then have "unat (w ! uj) * base ^ n < 1 * base ^ n" by linarith
  then have "unat (w ! uj) < 1" by (rule mult_less_cancel2 [THEN iffD1, THEN conjunct2])
  then have w0: "w ! uj = 0" by (simp add: unat_eq_0)
  then have low: "num w (uj + 1) n = num u uj (Suc n) mod ?V" using w(3) unfolding num_left by simp
  have dw: "digits w (uj + 1) (n + k)" by (rule digits_extend [OF w(7) Suc.prems(1)]) (use w(6) in simp_all)
  have tail: "num w (uj + 1 + n) k = num u (uj + Suc n) k" using w(6) by (simp, intro num_cong) simp
  have "uj + 1 + n + k \<le> length w" "qj + 1 + k \<le> length (q[qj := qh])" "num w (uj + 1) n < ?V" using Suc.prems(2,3) w(5) low V by simp_all
  from Suc.IH [OF dw this] obtain u' q' where r: "division_loop k n (uj + 1) (qj + 1) vo v w (q[qj := qh]) = Some (u', q')"
    "num w (uj + 1) (n + k) = num q' (qj + 1) k * ?V + num u' (uj + 1 + k) n" "num u' (uj + 1 + k) n < ?V" "length u' = length w" "length q' = length (q[qj := qh])" "digits u' (uj + 1) (n + k)"
    "digits q' (qj + 1) k" "\<forall>x. x < uj + 1 \<longrightarrow> u' ! x = w ! x" "\<forall>x. x < qj + 1 \<longrightarrow> q' ! x = q[qj := qh] ! x" "\<forall>x. uj + 1 \<le> x \<longrightarrow> x < uj + 1 + k \<longrightarrow> u' ! x = 0" by blast
  have q0: "q' ! qj = qh" using r(9) Suc.prems(3) by simp
  have "num u uj (n + Suc k) = num u uj (Suc n) * base ^ k + num u (uj + Suc n) k" using num_append [of u uj "Suc n" k] by simp
  also have "\<dots> = (unat qh * ?V + num w (uj + 1) n) * base ^ k + num w (uj + 1 + n) k" unfolding low w(2) tail div_mult_mod_eq ..
  also have "\<dots> = unat qh * base ^ k * ?V + num w (uj + 1) (n + k)" unfolding num_append by (simp add: algebra_simps)
  also have "\<dots> = num q' qj (Suc k) * ?V + num u' (uj + Suc k) n" unfolding r(2) num_left q0 by (simp add: algebra_simps)
  finally have "num u uj (n + Suc k) = num q' qj (Suc k) * ?V + num u' (uj + Suc k) n" .
  moreover have u0: "u' ! uj = 0" using r(8) w0 by simp
  moreover have "digits u' uj (n + Suc k)" using digits_Cons [of u' uj "n + k"] r(6) u0 by simp
  moreover have "digits q' qj (Suc k)" using digits_Cons [of q' qj k] r(7) q0 w(4) by simp
  moreover have "division_loop (Suc k) n uj qj vo v u q = Some (u', q')" using w(1) r(1) Suc.prems(3) by (simp add: wr_def)
  moreover have "u' ! x = 0" if "uj \<le> x" "x < uj + Suc k" for x using that r(10) u0 by (cases "x = uj") simp_all
  moreover have "u' ! x = u ! x" if "x < uj" for x using that r(8) w(6) by simp
  moreover have "q' ! x = q ! x" if "x < qj" for x using that r(9) by simp
  moreover have "num u' (uj + Suc k) n < ?V" "length u' = length u" "length q' = length q" using r(3-5) w(5) by simp_all
  ultimately show ?case by blast
qed

section \<open>Shifting numbers\<close>

lemma base_split:
  assumes "s \<le> 16"
  shows "base = 2 ^ s * 2 ^ (16 - s)"
proof -
  have "2 ^ s * 2 ^ (16 - s) = (2::nat) ^ 16" using assms by (metis le_add_diff_inverse power_add)
  then show ?thesis by simp
qed

lemma or_digit:
  assumes x: "unat x < base" and c: "unat c < 2 ^ s" and s: "s \<le> 16"
  shows "unat (LHALF (push_bit s x) OR c) = (unat x * 2 ^ s + unat c) mod base"
proof -
  note b = base_split [OF s]
  have "unat x * 2 ^ s < base * 2 ^ s" using x by simp
  also have "\<dots> \<le> base * 2 ^ 16" using s by (intro mult_le_mono2 power_increasing) simp_all
  finally have "unat (push_bit s x) = unat x * 2 ^ s" by (intro unat_push_bit_small) simp
  then have l: "unat (LHALF (push_bit s x)) = 2 ^ s * (unat x mod 2 ^ (16 - s))" unfolding unat_LHALF b
    using mult_mod_right [of "2 ^ s" "unat x" "2 ^ (16 - s)"] by (simp only: mult.commute)
  then have o: "unat (LHALF (push_bit s x) OR c) = 2 ^ s * (unat x mod 2 ^ (16 - s)) + unat c" using or_add [OF c, of "LHALF (push_bit s x)"] by simp
  have "(unat x * 2 ^ s + unat c) div 2 ^ s = unat x" "(unat x * 2 ^ s + unat c) mod 2 ^ s = unat c" using c by simp_all
  then show ?thesis unfolding o b mod_mult2_eq by simp
qed

lemma shift_carry:
  assumes "T = y * Q + r" and "r < Q" and "s \<le> 16"
  shows "T * 2 ^ s div (base * Q) = y div 2 ^ (16 - s)"
proof -
  note b = base_split [OF assms(3)]
  have "T * 2 ^ s div (base * Q) = (T * 2 ^ s) div ((Q * 2 ^ (16 - s)) * 2 ^ s)" unfolding b by (simp only: ac_simps)
  also have "\<dots> = T div (Q * 2 ^ (16 - s))" by (rule div_mult_mult2) simp
  also have "\<dots> = T div Q div 2 ^ (16 - s)" by (rule div_mult2_eq)
  finally show ?thesis using assms(1,2) by simp
qed

lemma shl_ok:
  assumes "0 < sh" and "sh < 16"
  shows "digits a p (Suc len) \<Longrightarrow> p + len < length a \<Longrightarrow>
    \<exists>a'. shl a p len sh = Some a' \<and> length a' = length a \<and> (\<forall>x. x < p \<or> p + len < x \<longrightarrow> a' ! x = a ! x) \<and> digits a' p (Suc len)
      \<and> num a' p (Suc len) = num a p (Suc len) * 2 ^ sh mod base ^ Suc len"
proof (induction len arbitrary: a p)
  case 0
  have "unat (a ! p) < base" using digitsD [OF 0(1), of p] by simp
  from or_digit [OF this, of 0 sh] assms(2) have "unat (LHALF (push_bit sh (a ! p))) = unat (a ! p) * 2 ^ sh mod base" by simp
  then show ?case using 0(2) LHALF_less by (auto simp: rd_def wr_def digits_def nth_list_update)
next
  case (Suc len)
  let ?d = "LHALF (push_bit sh (a ! p)) OR drop_bit (16 - sh) (a ! (p + 1))"
  let ?a = "a[p := ?d]" and ?T = "num a (p + 1) (Suc len)"
  have x: "unat (a ! p) < base" and y: "unat (a ! (p + 1)) < base" using digitsD [OF Suc.prems(1), of p] digitsD [OF Suc.prems(1), of "p + 1"] by simp_all
  have c: "unat (drop_bit (16 - sh) (a ! (p + 1))) = unat (a ! (p + 1)) div 2 ^ (16 - sh)" by (rule unat_drop_bit)
  have "base = 2 ^ sh * 2 ^ (16 - sh)" using base_split [of sh] assms(2) by simp
  then have "unat (a ! (p + 1)) div 2 ^ (16 - sh) < 2 ^ sh" using y by (intro less_mult_imp_div_less) simp
  then have d: "unat ?d = (unat (a ! p) * 2 ^ sh + unat (a ! (p + 1)) div 2 ^ (16 - sh)) mod base" using or_digit [OF x, of _ sh] assms(2) c by simp
  have "digits ?a (p + 1) (Suc len)" using Suc.prems(1) by (simp add: digits_def)
  with Suc.IH [of ?a "p + 1"] Suc.prems(2) obtain a' where r: "shl ?a (p + 1) len sh = Some a'" "length a' = length a"
    "\<forall>x. x < p + 1 \<or> p + 1 + len < x \<longrightarrow> a' ! x = ?a ! x" "digits a' (p + 1) (Suc len)" "num a' (p + 1) (Suc len) = num ?a (p + 1) (Suc len) * 2 ^ sh mod base ^ Suc len" by auto
  have first: "a' ! p = ?d" using r(3) Suc.prems(2) by simp
  have same: "num ?a (p + 1) (Suc len) = ?T" by (rule num_cong) simp
  have lt: "num a (Suc (p + 1)) len < base ^ len" by (rule num_less, rule digits_part [OF Suc.prems(1)]) simp_all
  have carry: "?T * 2 ^ sh div base ^ Suc len = unat (a ! (p + 1)) div 2 ^ (16 - sh)"
    using shift_carry [of ?T "unat (a ! (p + 1))" "base ^ len" _ sh, OF num_left lt] assms(2) by simp
  have split: "num a p (Suc (Suc len)) * 2 ^ sh = unat (a ! p) * 2 ^ sh * base ^ Suc len + ?T * 2 ^ sh" unfolding num_left [of a p] by (simp add: algebra_simps)
  have "num a p (Suc (Suc len)) * 2 ^ sh mod base ^ Suc (Suc len) = unat ?d * base ^ Suc len + num a' (p + 1) (Suc len)"
  proof -
    have "num a p (Suc (Suc len)) * 2 ^ sh div base ^ Suc len = unat (a ! p) * 2 ^ sh + unat (a ! (p + 1)) div 2 ^ (16 - sh)" unfolding split carry [symmetric] by simp
    moreover have "num a p (Suc (Suc len)) * 2 ^ sh mod base ^ Suc len = num a' (p + 1) (Suc len)" unfolding split r(5) same by simp
    ultimately show ?thesis using mod_mult2_eq [of "num a p (Suc (Suc len)) * 2 ^ sh" "base ^ Suc len" base] d by (simp only: power_Suc mult.commute)
  qed
  then have "num a' p (Suc (Suc len)) = num a p (Suc (Suc len)) * 2 ^ sh mod base ^ Suc (Suc len)" unfolding num_left [of a' p] first by simp
  moreover have "digits a' p (Suc (Suc len))" using digits_Cons [of a' p "Suc len"] first d r(4) by simp
  moreover have "shl a p (Suc len) sh = Some a'" using r(1) Suc.prems(2) by (simp add: rd_def wr_def)
  moreover have "\<forall>x. x < p \<or> p + Suc len < x \<longrightarrow> a' ! x = a ! x" using r(3) by simp
  ultimately show ?case using r(2) by blast
qed

lemma shr_digit:
  assumes d: "0 < d" "d < 16" and x: "unat x < base" and y: "unat y < base"
  shows "unat (drop_bit d x OR LHALF (push_bit (16 - d) y)) = ((A * base + unat y) * base + unat x) div 2 ^ d mod base"
proof -
  have b: "base = 2 ^ (16 - d) * 2 ^ d" using base_split [of d] d by (simp add: mult.commute)
  have c: "unat (drop_bit d x) = unat x div 2 ^ d" by (rule unat_drop_bit)
  have "unat x div 2 ^ d < 2 ^ (16 - d)" using x b by (intro less_mult_imp_div_less) simp
  then have o: "unat (LHALF (push_bit (16 - d) y) OR drop_bit d x) = (unat y * 2 ^ (16 - d) + unat x div 2 ^ d) mod base" using or_digit [OF y, of "drop_bit d x" "16 - d"] d c by simp
  have "((A * base + unat y) * base + unat x) div 2 ^ d = ((A * base + unat y) * 2 ^ (16 - d) * 2 ^ d + unat x) div 2 ^ d" by (subst (2) b) (simp only: mult.assoc)
  also have "\<dots> = (A * base + unat y) * 2 ^ (16 - d) + unat x div 2 ^ d" by simp
  also have "\<dots> = A * 2 ^ (16 - d) * base + (unat y * 2 ^ (16 - d) + unat x div 2 ^ d)" by (simp only: algebra_simps)
  finally have "((A * base + unat y) * base + unat x) div 2 ^ d mod base = (unat y * 2 ^ (16 - d) + unat x div 2 ^ d) mod base" by (simp only: mod_mult_self3)
  then show ?thesis using o by (simp only: or.commute)
qed

lemma shr_ok:
  assumes d: "0 < d" "d < 16"
  shows "digits u um (Suc i) \<Longrightarrow> um + i < length u \<Longrightarrow>
    \<exists>u'. shr i um d u = Some u' \<and> length u' = length u \<and> (\<forall>x. x < um \<or> um + i < x \<longrightarrow> u' ! x = u ! x) \<and> u' ! um = 0 \<and> digits u' um (Suc i)
      \<and> num u' (um + 1) i = num u um (Suc i) div 2 ^ d mod base ^ i"
proof (induction i arbitrary: u)
  case 0 then show ?case by (auto simp: wr_def digits_def nth_list_update)
next
  case (Suc i)
  let ?x = "u ! (um + Suc i)" and ?y = "u ! (um + i)"
  let ?d = "drop_bit d ?x OR LHALF (push_bit (16 - d) ?y)"
  let ?u = "u[um + Suc i := ?d]" and ?X = "num u um (Suc (Suc i))"
  have x: "unat ?x < base" and y: "unat ?y < base" using digitsD [OF Suc.prems(1), of "um + Suc i"] digitsD [OF Suc.prems(1), of "um + i"] by simp_all
  have dg: "unat ?d = ?X div 2 ^ d mod base" using shr_digit [OF d x y, of "num u um i"] by simp
  have "digits ?u um (Suc i)" using Suc.prems(1) by (simp add: digits_def)
  with Suc.IH [of ?u] Suc.prems(2) obtain u' where r: "shr i um d ?u = Some u'" "length u' = length u" "\<forall>x. x < um \<or> um + i < x \<longrightarrow> u' ! x = ?u ! x" "u' ! um = 0"
    "digits u' um (Suc i)" "num u' (um + 1) i = num ?u um (Suc i) div 2 ^ d mod base ^ i" by auto
  have last: "u' ! (um + Suc i) = ?d" using r(3) Suc.prems(2) by simp
  have same: "num ?u um (Suc i) = num u um (Suc i)" by (rule num_cong) simp
  have "?X div 2 ^ d div base = ?X div base div 2 ^ d" by (metis div_mult2_eq mult.commute)
  also have "?X div base = num u um (Suc i)" using x by simp
  finally have "?X div 2 ^ d mod (base * base ^ i) = base * num u' (um + 1) i + unat ?d" unfolding mod_mult2_eq r(6) same dg by simp
  then have "num u' (um + 1) (Suc i) = ?X div 2 ^ d mod base ^ Suc i" using last by (simp add: mult.commute)
  moreover have "digits u' um (Suc (Suc i))" by (rule digits_extend [OF r(5), of u' "Suc (Suc i)"])
    (use r(5) last dg in \<open>auto simp: digits_def less_Suc_eq\<close>)
  moreover have "shr (Suc i) um d u = Some u'" using r(1) Suc.prems(2) by (simp add: rd_def wr_def)
  moreover have "\<forall>x. x < um \<or> um + Suc i < x \<longrightarrow> u' ! x = u ! x" using r(3) by simp
  ultimately show ?case using r(2,4) by blast
qed

lemma normal_shift_ok:
  "0 < unat t \<Longrightarrow> unat t < base \<Longrightarrow> \<exists>e. normal_shift t d = Some (d + e) \<and> e < 16 \<and> base div 2 \<le> unat t * 2 ^ e \<and> unat t * 2 ^ e < base"
proof (induction "base - unat t" arbitrary: t d rule: less_induct)
  case less
  have half: "unat (digit_base div 2) = base div 2" by (simp add: digit_base_def)
  show ?case
  proof (cases "t < digit_base div 2")
    case False
    then show ?thesis using less.prems half by (subst normal_shift.simps) (auto simp: word_less_nat_alt intro!: exI [of _ 0])
  next
    case True
    then have lt: "unat t < base div 2" using half by (simp add: word_less_nat_alt)
    have two: "unat (push_bit 1 t) = unat t * 2" using unat_push_bit_small [of t 1] lt by simp
    have "base - unat (push_bit 1 t) < base - unat t" "0 < unat (push_bit 1 t)" "unat (push_bit 1 t) < base" using two lt less.prems by simp_all
    from less.hyps [OF this, of "d + 1"] obtain e where e: "normal_shift (push_bit 1 t) (d + 1) = Some (d + 1 + e)" "base div 2 \<le> unat t * 2 ^ Suc e" "unat t * 2 ^ Suc e < base"
      unfolding two by (auto simp: mult.assoc)
    have "2 ^ Suc e < (2::nat) ^ 16"
    proof -
      have "1 * 2 ^ Suc e \<le> unat t * 2 ^ Suc e" using less.prems(1) by (intro mult_le_mono1) simp
      also have "\<dots> < 2 ^ 16" using e(3) by simp
      finally show ?thesis by simp
    qed
    then have "Suc e < 16" by (rule power_less_imp_less_exp [rotated]) simp
    then show ?thesis using True e by (subst normal_shift.simps) (auto intro!: exI [of _ "Suc e"])
  qed
qed

section \<open>Leading zeros\<close>

lemma num_skip:
  assumes "\<And>x. i \<le> x \<Longrightarrow> x < i + j \<Longrightarrow> a ! x = 0"
  shows "num a i (j + k) = num a (i + j) k"
  using num_zeros [of i j a] assms unfolding num_append by simp

lemma skip_v_ok:
  assumes "length v = 5" and "num v 1 4 \<noteq> 0"
  obtains n where "skip_v 4 0 v = Some (n, 4 - n)" and "2 \<le> n" and "n \<le> 4" and "v ! (4 - n + 1) \<noteq> 0" and "num v 1 4 = num v (4 - n + 1) n"
  | "skip_v 4 0 v = Some (1, 2)" and "v ! 4 \<noteq> 0" and "num v 1 4 = unat (v ! 4)"
proof -
  have four: "4 = Suc (Suc (Suc (Suc 0)))" by simp
  note run = skip_v.simps rd_def
  have s: "skip_v 4 0 v = (if v ! 1 \<noteq> 0 then Some (4, 0) else if v ! 2 \<noteq> 0 then Some (3, 1) else if v ! 3 \<noteq> 0 then Some (2, 2) else Some (1, 2))"
    unfolding four using assms(1) by (simp add: run numeral_2_eq_2 numeral_3_eq_3)
  have left: "a ! i = 0 \<Longrightarrow> num a i (Suc k) = num a (Suc i) k" for a i k unfolding num_left by simp
  have e: "Suc 1 = 2" "Suc 2 = 3" "Suc 3 = 4" by simp_all
  have z: "v ! 1 = 0 \<Longrightarrow> num v 1 4 = num v 2 3" "v ! 2 = 0 \<Longrightarrow> num v 2 3 = num v 3 2" "v ! 3 = 0 \<Longrightarrow> num v 3 2 = unat (v ! 4)"
    using left [of v 1 3] left [of v 2 2] left [of v 3 1] unfolding e by simp_all
  consider "v ! 1 \<noteq> 0" | "v ! 1 = 0" "v ! 2 \<noteq> 0" | "v ! 1 = 0" "v ! 2 = 0" "v ! 3 \<noteq> 0" | "v ! 1 = 0" "v ! 2 = 0" "v ! 3 = 0" by blast
  then show thesis
  proof cases
    case 1 then show ?thesis using s by (intro that(1) [of 4]) simp_all
  next
    case 2 then show ?thesis using s z by (intro that(1) [of 3]) (simp_all flip: numeral_2_eq_2)
  next
    case 3 then show ?thesis using s z by (intro that(1) [of 2]) simp_all
  next
    case 4 then show ?thesis using s z assms(2) by (intro that(2)) auto
  qed
qed

lemma skip_u_ok:
  "uo + k = 4 \<Longrightarrow> length u = 5 \<Longrightarrow> num u (uo + 1) k \<noteq> 0 \<Longrightarrow>
   \<exists>j. j < k \<and> skip_u m uo u = Some (m - int j, uo + j) \<and> u ! (uo + j + 1) \<noteq> 0 \<and> (\<forall>x. uo + 1 \<le> x \<longrightarrow> x < uo + 1 + j \<longrightarrow> u ! x = 0)"
proof (induction k arbitrary: uo m)
  case (Suc k)
  show ?case
  proof (cases "u ! (uo + 1) = 0")
    case False
    then show ?thesis using Suc.prems(1,2) by (subst skip_u.simps) (auto intro!: exI [of _ 0])
  next
    case True
    then have "num u (Suc uo + 1) k \<noteq> 0" using Suc.prems(3) unfolding num_left by simp
    with Suc.IH [of "Suc uo" "m - 1"] Suc.prems(1,2) obtain j where j: "j < k" "skip_u (m - 1) (Suc uo) u = Some (m - 1 - int j, Suc uo + j)" "u ! (Suc uo + j + 1) \<noteq> 0"
      "\<forall>x. Suc uo + 1 \<le> x \<longrightarrow> x < Suc uo + 1 + j \<longrightarrow> u ! x = 0" by auto
    have "skip_u m uo u = Some (m - int (Suc j), uo + Suc j)" using j(2) True Suc.prems(1,2) by (subst skip_u.simps) simp
    moreover have "u ! x = 0" if "uo + 1 \<le> x" "x < uo + 1 + Suc j" for x using that j(4) True by (cases "x = uo + 1") auto
    ultimately show ?thesis using j(1,3) by (intro exI [of _ "Suc j"]) simp
  qed
qed simp

lemma zero_q_above: "zero_q i q = Some q' \<Longrightarrow> i \<le> x \<Longrightarrow> q' ! x = q ! x"
  by (induction i arbitrary: q) (auto simp: wr_def split: if_splits)

lemma zero_q_ok: "i \<le> length q \<Longrightarrow> \<exists>q'. zero_q i q = Some q' \<and> length q' = length q \<and> (\<forall>x. x < i \<longrightarrow> q' ! x = 0)"
proof (induction i arbitrary: q)
  case (Suc i)
  then obtain q' where r: "zero_q i (q[i := 0]) = Some q'" "length q' = length q" "\<forall>x. x < i \<longrightarrow> q' ! x = 0" using Suc.IH [of "q[i := 0]"] by auto
  have "q' ! i = 0" using zero_q_above [OF r(1), of i] Suc.prems by simp
  then show ?case using r Suc.prems by (auto simp: wr_def less_Suc_eq)
qed simp

lemma short_step:
  assumes t: "unat t < base" and r: "unat r < unat t" and x: "unat x < base"
  shows "unat r * base + unat x = unat (COMBINE r x div t) * unat t + unat (COMBINE r x mod t)" "unat (COMBINE r x div t) < base" "unat (COMBINE r x mod t) < unat t"
proof -
  have w: "unat (COMBINE r x) = unat r * base + unat x" by (rule unat_COMBINE) (use assms in simp_all)
  show "unat r * base + unat x = unat (COMBINE r x div t) * unat t + unat (COMBINE r x mod t)" by (simp add: unat_div unat_mod w)
  have "(unat r + 1) * base \<le> unat t * base" using r by (intro mult_le_mono1) simp
  then show "unat (COMBINE r x div t) < base" unfolding unat_div w using x by (intro less_mult_imp_div_less) (simp add: mult.commute)
  show "unat (COMBINE r x mod t) < unat t" using r by (simp add: unat_mod)
qed

lemma short_division_ok:
  assumes u: "digits u 1 4" and t: "unat t < base" "t \<noteq> 0"
  shows "\<exists>q r. short_division arq u t = (q, if arq then Some r else None) \<and> unat q = num u 1 4 div unat t \<and> unat r = num u 1 4 mod unat t"
proof -
  have t0: "0 < unat t" using t(2) by (simp add: unat_gt_0)
  have d: "unat (u ! 1) < base" "unat (u ! 2) < base" "unat (u ! 3) < base" "unat (u ! 4) < base" using u unfolding digits_four by simp_all
  define r1 where "r1 = u ! 1 mod t"
  define w2 where "w2 = COMBINE r1 (u ! 2)"
  define w3 where "w3 = COMBINE (w2 mod t) (u ! 3)"
  define w4 where "w4 = COMBINE (w3 mod t) (u ! 4)"
  have r1: "unat r1 < unat t" "unat (u ! 1 div t) < base" "unat (u ! 1) = unat (u ! 1 div t) * unat t + unat r1"
    using t0 d(1) by (simp_all add: r1_def unat_mod unat_div) (meson div_le_dividend le_less_trans)
  note s2 = short_step [OF t(1) r1(1) d(2), folded w2_def]
  note s3 = short_step [OF t(1) s2(3) d(3), folded w3_def]
  note s4 = short_step [OF t(1) s3(3) d(4), folded w4_def]
  let ?q = "quad (COMBINE (u ! 1 div t) (w2 div t)) (COMBINE (w3 div t) (w4 div t))"
  have q: "unat ?q = ((unat (u ! 1 div t) * base + unat (w2 div t)) * base + unat (w3 div t)) * base + unat (w4 div t)"
    using r1(2) s2(2) s3(2) s4(2) by (simp add: unat_quad unat_COMBINE)
  have "num u 1 4 = unat ?q * unat t + unat (w4 mod t)" unfolding num_four q r1(3) using s2(1) s3(1) s4(1) by (simp add: algebra_simps)
  then have "unat ?q = num u 1 4 div unat t" "unat (w4 mod t) = num u 1 4 mod unat t" using s4(3) by simp_all
  moreover have "short_division arq u t = (?q, if arq then Some (ucast (w4 mod t)) else None)" by (simp add: short_division_def Let_def r1_def w2_def w3_def w4_def)
  ultimately show ?thesis by (intro exI [of _ ?q] exI [of _ "ucast (w4 mod t)"]) (simp add: unat_widen)
qed

section \<open>Long division\<close>

lemma shl_when:
  assumes d: "d < 16" and a: "digits a p (Suc len)" "p + len < length a" and small: "num a p (Suc len) * 2 ^ d < base ^ Suc len"
  shows "\<exists>a'. (if 0 < d then shl a p len d else Some a) = Some a' \<and> length a' = length a \<and> (\<forall>x. x < p \<or> p + len < x \<longrightarrow> a' ! x = a ! x) \<and> digits a' p (Suc len)
    \<and> num a' p (Suc len) = num a p (Suc len) * 2 ^ d"
proof (cases "0 < d")
  case True then show ?thesis using shl_ok [OF True d a] small by (simp only: if_True mod_less)
qed (use a in simp)

lemma shr_when:
  assumes d: "d < 16" and u: "digits u um (Suc n)" "um + n < length u" "u ! um = 0" and r: "num u (um + 1) n = r * 2 ^ d"
  shows "\<exists>u'. (if 0 < d then shr n um d u else Some u) = Some u' \<and> length u' = length u \<and> (\<forall>x. x \<le> um \<longrightarrow> u' ! x = u ! x) \<and> digits u' um (Suc n) \<and> num u' (um + 1) n = r"
proof (cases "0 < d")
  case True
  obtain u' where s: "shr n um d u = Some u'" "length u' = length u" "\<forall>x. x < um \<or> um + n < x \<longrightarrow> u' ! x = u ! x" "u' ! um = 0" "digits u' um (Suc n)"
    "num u' (um + 1) n = num u um (Suc n) div 2 ^ d mod base ^ n" using shr_ok [OF True d u(1,2)] by blast
  have "num u um (Suc n) = r * 2 ^ d" unfolding num_left using u(3) r by simp
  moreover have "r < base ^ n"
  proof -
    have "r * 1 \<le> r * 2 ^ d" by (intro mult_le_mono2) simp
    also have "\<dots> < base ^ n" using num_less [of u "um + 1" n] digits_part [OF u(1), of "um + 1" n] r by simp
    finally show ?thesis by simp
  qed
  ultimately have "num u' (um + 1) n = r" using s(6) by (simp only: mod_less nonzero_mult_div_cancel_right power_not_zero zero_neq_numeral [symmetric] not_False_eq_True)
  moreover have "\<forall>x. x \<le> um \<longrightarrow> u' ! x = u ! x" using s(3,4) u(3) by (auto simp: le_less)
  ultimately show ?thesis using True s by simp
qed (use u r in simp)

lemma normal_fits:
  assumes v: "digits v p (Suc k)" and d: "d \<le> 16" "unat (v ! p) * 2 ^ d < base"
  shows "num v p (Suc k) * 2 ^ d < base ^ Suc k"
proof -
  have b: "base = 2 ^ (16 - d) * 2 ^ d" using base_split [OF d(1)] by (simp add: mult.commute)
  have "unat (v ! p) * 2 ^ d < 2 ^ (16 - d) * 2 ^ d" using d(2) unfolding b .
  then have "unat (v ! p) < 2 ^ (16 - d)" by (rule mult_less_cancel2 [THEN iffD1, THEN conjunct2])
  then have fit: "(unat (v ! p) + 1) * 2 ^ d \<le> base" unfolding b by (intro mult_le_mono1) simp
  have "num v p (Suc k) < (unat (v ! p) + 1) * base ^ k" using num_less [of v "Suc p" k] digits_part [OF v, of "Suc p" k] unfolding num_left by simp
  then have "num v p (Suc k) * 2 ^ d < (unat (v ! p) + 1) * base ^ k * 2 ^ d" by (rule mult_strict_right_mono) simp
  also have "\<dots> = (unat (v ! p) + 1) * 2 ^ d * base ^ k" by (simp only: ac_simps)
  also have "\<dots> \<le> base * base ^ k" using fit by (rule mult_le_mono1)
  finally show ?thesis by (simp only: power_Suc)
qed

lemma normal_first:
  assumes v: "digits v p (Suc k)" and w: "digits w p (Suc k)" "num w p (Suc k) = num v p (Suc k) * 2 ^ d" and d: "base div 2 \<le> unat (v ! p) * 2 ^ d"
  shows "base div 2 \<le> unat (w ! p)"
proof -
  have "base div 2 * base ^ k \<le> unat (v ! p) * 2 ^ d * base ^ k" using d by (rule mult_le_mono1)
  also have "\<dots> \<le> num v p (Suc k) * 2 ^ d" unfolding num_left by (simp add: algebra_simps)
  also have "\<dots> = num w p (Suc k)" using w(2) by (rule sym)
  also have "\<dots> < (unat (w ! p) + 1) * base ^ k" using num_less [of w "Suc p" k] digits_part [OF w(1), of "Suc p" k] unfolding num_left by simp
  finally have "base div 2 < unat (w ! p) + 1" by (rule mult_less_cancel2 [THEN iffD1, THEN conjunct2])
  then show ?thesis by simp
qed

lemma value_tail:
  assumes "\<And>x. x < j \<Longrightarrow> a ! x = 0" and "digits a j k" and "1 \<le> j" and "j + k = 5"
  shows "unat (from_digits a) = num a j k"
proof -
  have "unat (a ! x) < base" if "1 \<le> x" "x < 1 + 4" for x using that assms digitsD [OF assms(2), of x] by (cases "x < j") simp_all
  then have "digits a 1 4" by (simp add: digits_def)
  moreover have "num a 1 ((j - 1) + k) = num a (1 + (j - 1)) k" by (rule num_skip) (use assms in simp_all)
  ultimately show ?thesis using from_digits_num [of a] assms(3,4) by simp
qed

lemma dividend_fits:
  assumes v: "num v p (Suc k) = V" "0 < unat (v ! p)" and U: "U < base ^ (m + Suc k)"
  shows "U * 2 ^ d < V * 2 ^ d * base ^ Suc m"
proof -
  have "1 * base ^ k \<le> unat (v ! p) * base ^ k" using v(2) by (intro mult_le_mono1) simp
  then have "base ^ k \<le> V" using v(1) unfolding num_left by linarith
  then have "base ^ k * base ^ Suc m \<le> V * base ^ Suc m" by (rule mult_le_mono1)
  moreover have "base ^ (m + Suc k) = base ^ k * base ^ Suc m" by (simp add: power_add ac_simps)
  ultimately have "U < V * base ^ Suc m" using U by linarith
  then have "U * 2 ^ d < V * base ^ Suc m * 2 ^ d" by (rule mult_strict_right_mono) simp
  then show ?thesis by (simp only: ac_simps)
qed

lemma quotient_unscale:
  assumes "(U::nat) * 2 ^ d = Q * (V * 2 ^ d) + R" and "R < V * 2 ^ d"
  shows "Q = U div V" "R = (U mod V) * 2 ^ d"
proof -
  have "(Q * W + R) div W = Q \<and> (Q * W + R) mod W = R" if "R < W" for W using that by simp
  from this [OF assms(2)] have "(Q * (V * 2 ^ d) + R) div (V * 2 ^ d) = Q" "(Q * (V * 2 ^ d) + R) mod (V * 2 ^ d) = R" by blast+
  moreover have "U * 2 ^ d div (V * 2 ^ d) = U div V" by (rule div_mult_mult2) simp
  moreover have "U * 2 ^ d mod (V * 2 ^ d) = (U mod V) * 2 ^ d" by (rule mod_mult_mult2)
  ultimately show "Q = U div V" "R = (U mod V) * 2 ^ d" unfolding assms(1) by simp_all
qed

lemma long_division:
  assumes n: "2 \<le> n" "uo + m + n = 4" "vo + n = 4" and len: "length u = 5" "length v = 5" "length q = 5"
    and u: "digits u 1 4" "\<And>x. x \<le> uo \<Longrightarrow> u ! x = 0" and v: "digits v 1 4" "v ! (vo + 1) \<noteq> 0" and q: "\<And>x. x < 4 - m \<Longrightarrow> q ! x = 0"
  shows "\<exists>d u1 v1 u2 q2 u3. normal_shift (v ! (vo + 1)) 0 = Some d \<and> (if 0 < d then shl u uo (m + n) d else Some u) = Some u1
    \<and> (if 0 < d then shl v (vo + 1) (n - 1) d else Some v) = Some v1 \<and> division_loop (Suc m) n uo (4 - m) vo v1 u1 q = Some (u2, q2)
    \<and> (if 0 < d then shr n (uo + m) d u2 else Some u2) = Some u3 \<and> unat (from_digits q2) = num u 1 4 div num v (vo + 1) n
    \<and> unat (from_digits u3) = num u 1 4 mod num v (vo + 1) n"
proof -
  let ?U = "num u 1 4" and ?V = "num v (vo + 1) n"
  obtain k where k: "n = Suc k" using n(1) by (cases n) auto
  have dv: "digits v (vo + 1) n" by (rule digits_part [OF v(1)]) (use n in simp_all)
  have v1: "unat (v ! (vo + 1)) < base" "0 < unat (v ! (vo + 1))" using digitsD [OF v(1), of "vo + 1"] n v(2) by (simp_all add: unat_gt_0)
  obtain d where d: "normal_shift (v ! (vo + 1)) 0 = Some d" "d < 16" "base div 2 \<le> unat (v ! (vo + 1)) * 2 ^ d" "unat (v ! (vo + 1)) * 2 ^ d < base"
    using normal_shift_ok [OF v1(2,1), of 0] by auto
  have fits: "?V * 2 ^ d < base ^ n" unfolding k by (rule normal_fits) (use dv d k in simp_all)
  have vl: "vo + 1 + k < length v" using n(3) len(2) k by simp
  obtain v' where v': "(if 0 < d then shl v (vo + 1) (n - 1) d else Some v) = Some v'" "length v' = 5" "digits v' (vo + 1) n" "num v' (vo + 1) n = ?V * 2 ^ d"
    using shl_when [OF d(2) dv [unfolded k] vl fits [unfolded k]] unfolding k diff_Suc_1 len(2) by blast
  have norm: "base div 2 \<le> unat (v' ! (vo + 1))" by (rule normal_first [of v _ k v' d]) (use dv v' d k in simp_all)
  have U: "?U = num u (uo + 1) (m + n)" using num_skip [of 1 uo u "m + n"] u(2) n(2) by (simp add: add.assoc)
  have count: "n + Suc m = Suc (m + n)" by simp
  have U': "num u uo (Suc (m + n)) = ?U" unfolding num_left U using u(2) by simp
  have du1: "digits u (uo + 1) (m + n)" by (rule digits_part [OF u(1)]) (use n in simp_all)
  have du: "digits u uo (Suc (m + n))" using digits_Cons [of u uo "m + n"] du1 u(2) by simp
  have lt: "?U < base ^ (m + n)" unfolding U by (rule num_less [OF du1])
  have "2 ^ d \<le> (2::nat) ^ 16" using d(2) by (intro power_increasing) simp_all
  then have "?U * 2 ^ d < base ^ (m + n) * base" using lt by (intro mult_less_le_imp_less) simp_all
  then have small: "num u uo (Suc (m + n)) * 2 ^ d < base ^ Suc (m + n)" unfolding U' by (simp add: mult.commute)
  have ul: "uo + (m + n) < length u" using n(2) len(1) by simp
  obtain u1 where u1: "(if 0 < d then shl u uo (m + n) d else Some u) = Some u1" "length u1 = 5" "\<forall>x. x < uo \<longrightarrow> u1 ! x = u ! x" "digits u1 uo (n + Suc m)"
    "num u1 uo (n + Suc m) = ?U * 2 ^ d" using shl_when [OF d(2) du ul small] unfolding U' count len(1) by blast
  have "num u1 uo n * base ^ Suc m \<le> ?U * 2 ^ d" using u1(5) unfolding num_append by linarith
  also have "\<dots> < ?V * 2 ^ d * base ^ Suc m" by (rule dividend_fits [of v "vo + 1" k]) (use k v1(2) lt in simp_all)
  finally have top: "num u1 uo n < num v' (vo + 1) n" unfolding v'(4) by (rule mult_less_cancel2 [THEN iffD1, THEN conjunct2])
  have l: "vo + n < length v'" "uo + n + Suc m \<le> length u1" "4 - m + Suc m \<le> length q" using n v'(2) u1(2) len(3) by simp_all
  obtain u2 q2 where r: "division_loop (Suc m) n uo (4 - m) vo v' u1 q = Some (u2, q2)" "num u1 uo (n + Suc m) = num q2 (4 - m) (Suc m) * num v' (vo + 1) n + num u2 (uo + Suc m) n"
    "num u2 (uo + Suc m) n < num v' (vo + 1) n" "length u2 = length u1" "digits u2 uo (n + Suc m)" "digits q2 (4 - m) (Suc m)" "\<forall>x. x < uo \<longrightarrow> u2 ! x = u1 ! x"
    "\<forall>x. x < 4 - m \<longrightarrow> q2 ! x = q ! x" "\<forall>x. uo \<le> x \<longrightarrow> x < uo + Suc m \<longrightarrow> u2 ! x = 0"
    using division_loop_ok [OF n(1) v'(3) l(1) norm u1(4) l(2,3) top] by blast
  note quot = quotient_unscale [OF r(2,3) [unfolded u1(5) v'(4)]]
  have "unat (from_digits q2) = ?U div ?V" unfolding quot(1) [symmetric] by (rule value_tail) (use r(6,8) q n in simp_all)
  moreover have z2: "u2 ! x = 0" if "x < uo + m + 1" for x using that r(7,9) u1(3) u(2) by (cases "x < uo") simp_all
  have d2: "digits u2 (uo + m) (Suc n)" by (rule digits_part [OF r(5)]) simp_all
  have l2: "uo + m + n < length u2" "num u2 (uo + m + 1) n = (?U mod ?V) * 2 ^ d" using r(4) u1(2) n(2) quot(2) by simp_all
  obtain u3 where u3: "(if 0 < d then shr n (uo + m) d u2 else Some u2) = Some u3" "\<forall>x. x \<le> uo + m \<longrightarrow> u3 ! x = u2 ! x" "digits u3 (uo + m) (Suc n)" "num u3 (uo + m + 1) n = ?U mod ?V"
    using shr_when [OF d(2) d2 l2(1) z2 l2(2)] by auto
  have "unat (from_digits u3) = ?U mod ?V" unfolding u3(4) [symmetric]
    by (rule value_tail) (use u3(2) z2 n digits_part [OF u3(3), of "uo + m + 1" n] in simp_all)
  ultimately show ?thesis using d(1) u1(1) v'(1) r(1) u3(1) by blast
qed

lemma num_positive: "digits a i k \<Longrightarrow> base ^ j \<le> num a i k \<Longrightarrow> (\<And>x. i \<le> x \<Longrightarrow> x < i + l \<Longrightarrow> a ! x = 0) \<Longrightarrow> l \<le> k \<Longrightarrow> j + l < k"
proof (rule ccontr)
  assume a: "digits a i k" "base ^ j \<le> num a i k" "\<And>x. i \<le> x \<Longrightarrow> x < i + l \<Longrightarrow> a ! x = 0" "l \<le> k" "\<not> j + l < k"
  have "num a i k = num a (i + l) (k - l)" using num_skip [of i l a "k - l"] a(3,4) by simp
  also have "\<dots> < base ^ (k - l)" by (rule num_less, rule digits_part [OF a(1)]) (use a(4) in simp_all)
  also have "\<dots> \<le> base ^ j" using a(5) by (intro power_increasing) simp_all
  finally show False using a(2) by simp
qed

lemma qdivrem_ok:
  assumes vq: "vq \<noteq> 0" and q: "length qspace = 5"
  shows "\<exists>x r. qdivrem v0 qspace arq uq vq = Some (x, if arq then Some r else None) \<and> unat x = unat uq div unat vq \<and> unat r = unat uq mod unat vq"
proof (cases "uq < vq")
  case True
  then show ?thesis using vq by (intro exI [of _ 0] exI [of _ uq]) (simp add: qdivrem_def word_less_nat_alt)
next
  case False
  define u where "u = digits_of 0 uq"
  define v where "v = digits_of v0 vq"
  have len: "length u = 5" "length v = 5" "u ! 0 = 0" by (simp_all only: u_def v_def digits_of_nth)
  have du: "digits u 1 4" "digits v 1 4" unfolding u_def v_def by (rule digits_of_digits)+
  have val: "num u 1 4 = unat uq" "num v 1 4 = unat vq" unfolding u_def v_def by (rule digits_of_num)+
  have ge: "unat vq \<le> unat uq" using False by (simp add: word_less_nat_alt)
  have v0: "num v 1 4 \<noteq> 0" unfolding val using vq by (simp add: unat_eq_0)
  show ?thesis
    using len(2) v0
  proof (cases rule: skip_v_ok)
    case 2
    have "unat (v ! 4) < base" using du(2) unfolding digits_four by simp
    from short_division_ok [OF du(1) this 2(2), of arq] show ?thesis
      using vq False 2 len(2) val unfolding qdivrem_def u_def [symmetric] v_def [symmetric] by (auto simp: rd_def)
  next
    case (1 n)
    have "num u (0 + 1) 4 \<noteq> 0" using val ge v0 by simp
    from skip_u_ok [OF _ len(1) this, of "4 - int n"] obtain j where j: "j < 4" "skip_u (4 - int n) 0 u = Some (4 - int n - int j, j)" "u ! (j + 1) \<noteq> 0"
      "\<forall>x. 1 \<le> x \<longrightarrow> x < 1 + j \<longrightarrow> u ! x = 0" by auto
    obtain k where k: "n = Suc k" using 1(2) by (cases n) auto
    have "1 * base ^ k \<le> unat (v ! (4 - n + 1)) * base ^ k" using 1(4) by (intro mult_le_mono1) (simp add: Suc_le_eq unat_gt_0)
    also have "\<dots> \<le> num u 1 4" using ge unfolding val(1) val(2) [symmetric] 1(5) k num_left by simp
    finally have "k + j < 4" using num_positive [OF du(1), of k j] j(1,4) by simp
    then obtain m where m: "j + m + n = 4" using k by (metis Suc_leI add_Suc_right add.commute le_Suc_ex add.assoc)
    obtain q1 where q1: "zero_q (4 - m) qspace = Some q1" "length q1 = 5" "\<forall>x. x < 4 - m \<longrightarrow> q1 ! x = 0" proof -
      have "4 - m \<le> length qspace" using q by simp
      from zero_q_ok [OF this] show ?thesis using that q by auto
    qed
    have z: "u ! x = 0" if "x \<le> j" for x using that j(4) len(3) by (cases "x = 0") simp_all
    have vo: "4 - n + n = 4" using 1(3) by simp
    obtain d u1 v1 u2 q2 u3 where r: "normal_shift (v ! (4 - n + 1)) 0 = Some d" "(if 0 < d then shl u j (m + n) d else Some u) = Some u1"
      "(if 0 < d then shl v (4 - n + 1) (n - 1) d else Some v) = Some v1" "division_loop (Suc m) n j (4 - m) (4 - n) v1 u1 q1 = Some (u2, q2)"
      "(if 0 < d then shr n (j + m) d u2 else Some u2) = Some u3" "unat (from_digits q2) = num u 1 4 div num v (4 - n + 1) n" "unat (from_digits u3) = num u 1 4 mod num v (4 - n + 1) n"
      using long_division [OF 1(2) m vo len(1,2) q1(2) du(1) z du(2) 1(4)] q1(3) by blast
    have mm: "nat (4 - int n - int j) = m" using m by simp
    have rv: "rd v (4 - n + 1) = Some (v ! (4 - n + 1))" using len(2) 1(2) by (simp add: rd_def)
    have "qdivrem v0 qspace arq uq vq = Some (from_digits q2, if arq then Some (from_digits u3) else None)"
      using vq False 1(1,2) j(2) q1(1) r(1-5) rv unfolding qdivrem_def u_def [symmetric] v_def [symmetric]
      by (cases "0 < d"; cases arq) (simp_all add: Let_def mm del: division_loop.simps skip_u.simps)
    then show ?thesis using r(6,7) val 1(5) by auto
  qed
qed

lemma qdivrem_eq:
  assumes "vq \<noteq> 0" and "length qspace = 5"
  shows "qdivrem v0 qspace arq uq vq = Some (uq div vq, if arq then Some (uq mod vq) else None)"
proof -
  obtain x r where r: "qdivrem v0 qspace arq uq vq = Some (x, if arq then Some r else None)" "unat x = unat uq div unat vq" "unat r = unat uq mod unat vq"
    using qdivrem_ok [OF assms] by blast
  have "x = uq div vq" "r = uq mod vq" using r(2,3) by (simp_all add: word_unat_eq_iff unat_div unat_mod)
  then show ?thesis using r(1) by simp
qed

lemma uint_magnitude: "uint (if a <s 0 then - a else a) = \<bar>sint (a :: 64 word)\<bar>"
proof -
  have s: "- (2 ^ 63) \<le> sint a" "sint a < 2 ^ 63" using sint_range_size [of a] by (simp_all add: word_size)
  have u: "uint a = sint a mod 2 ^ 64" by (simp add: uint_sint take_bit_eq_mod)
  have "uint (- a) = - sint a mod 2 ^ 64" unfolding uint_word_ariths u by (simp add: mod_minus_eq)
  then show ?thesis using s u by (cases "a <s 0") (simp_all add: word_sless_alt)
qed

lemma word_div_eq: "x div y = (word_of_int (uint x div uint y) :: 64 word)"
  by (simp add: word_div_def)

lemma divdi3_eq:
  assumes "b \<noteq> 0" and "length qspace = 5"
  shows "divdi3 v0 qspace a b = Some (word_of_int (sgn (sint a) * sgn (sint b) * (\<bar>sint a\<bar> div \<bar>sint b\<bar>)))"
proof -
  let ?a = "if a <s 0 then - a else a" and ?b = "if b <s 0 then - b else b"
  have b: "?b \<noteq> 0" using assms(1) by simp
  have q: "qdivrem v0 qspace False ?a ?b = Some (word_of_int (\<bar>sint a\<bar> div \<bar>sint b\<bar>), None)"
    using qdivrem_eq [OF b assms(2), of v0 False ?a] unfolding word_div_eq uint_magnitude by simp
  have "divdi3 v0 qspace a b = Some (if (a <s 0) \<noteq> (b <s 0) then - word_of_int (\<bar>sint a\<bar> div \<bar>sint b\<bar>) else word_of_int (\<bar>sint a\<bar> div \<bar>sint b\<bar>))"
    using q by (cases "a <s 0"; cases "b <s 0") (simp_all add: divdi3_def)
  moreover have "sint a = 0 \<Longrightarrow> \<bar>sint a\<bar> div \<bar>sint b\<bar> = 0" by simp
  moreover have "sint b \<noteq> 0" using assms(1) by (metis signed_0 signed_word_eqI)
  ultimately show ?thesis by (auto simp: word_sless_alt sgn_if)
qed

text \<open>
  C39.  For every divisor that is not zero, \<^verbatim>\<open>__qdivrem\<close> returns, with no access outside its arrays and
  whatever they hold at first, the quotient and, when the caller wants it, the remainder;
  \<^verbatim>\<open>__udivdi3\<close> and \<^verbatim>\<open>__umoddi3\<close> are unsigned division and remainder, and \<^verbatim>\<open>__divdi3\<close>
  is division rounded towards zero, wrapping around for the one quotient that has no 64-bit value.
\<close>

theorem qdivrem_divides:
  assumes "b \<noteq> 0" and "length qspace = 5"
  shows "qdivrem v0 qspace arq a b = Some (a div b, if arq then Some (a mod b) else None)
    \<and> udivdi3 v0 qspace a b = Some (a div b) \<and> umoddi3 v0 qspace a b = Some (a mod b)
    \<and> divdi3 v0 qspace a b = Some (word_of_int (sgn (sint a) * sgn (sint b) * (\<bar>sint a\<bar> div \<bar>sint b\<bar>)))"
  using qdivrem_eq [OF assms] divdi3_eq [OF assms] by (simp add: udivdi3_def umoddi3_def)

theorem qdivrem_divides_witness:
  "qdivrem 7 [1, 2, 3, 4, 5] True 18364758544493064720 1250999896491 = Some (14680064, Some 11809296) \<and> divdi3 7 [1, 2, 3, 4, 5] (- 7) 2 = Some (- 3)"
  using qdivrem_divides [of 1250999896491 "[1, 2, 3, 4, 5]" 7 True 18364758544493064720] qdivrem_divides [of 2 "[1, 2, 3, 4, 5]" 7 True "- 7"] by simp

text \<open>\<^verbatim>\<open>log2\<close> of zero and of the largest power of two that an \<^verbatim>\<open>int\<close> holds.\<close>

lemma log2_ends: "log2 0 = Some (- 1)" "log2 (2 ^ 30) = Some 31"
  by (simp_all add: log2_def log2_loop.simps)

end
