(* ===== verification/UserMem.thy ===== *)
theory UserMem
imports Vmmap
begin

unbundle bit_operations_syntax

text \<open>
  What the kernel does with user addresses: checking and copying (\<^verbatim>\<open>api/access.c\<close>), and the
  calls \<^verbatim>\<open>mmap\<close>, \<^verbatim>\<open>munmap\<close> and \<^verbatim>\<open>brk\<close> on the map of the current
  process (\<^verbatim>\<open>vm/mmap.c\<close>, \<^verbatim>\<open>vm/brk.c\<close>).  Contents of frames are as in \<^verbatim>\<open>Vmmap\<close>;
  the flushing of the TLB is left out.  The kernel buffer is a list of bytes, and a map that is NULL is \<^const>\<open>None\<close>.
\<close>

section \<open>Checking and copying\<close>

definition addr_perm :: "vmmap option \<Rightarrow> 32 word \<Rightarrow> nat \<Rightarrow> int" where
  "addr_perm pmap vaddr perm =
     (case pmap of
        None \<Rightarrow> 0
      | Some mp \<Rightarrow> (case vmmap_lookup mp (ADDR_TO_PN vaddr) of None \<Rightarrow> 0 | Some v \<Rightarrow> if vma_prot v AND perm \<noteq> 0 then 1 else 0))"

text \<open>The addresses of the loop wrap around; it may run for ever.\<close>

partial_function (option) range_loop :: "vmmap option \<Rightarrow> 32 word \<Rightarrow> 32 word \<Rightarrow> nat \<Rightarrow> int option" where
  "range_loop pmap temp last_addr perm =
     (if temp \<le> last_addr then
        (if addr_perm pmap temp perm = 0 then Some 1 else range_loop pmap (temp + PAGE_SIZE) last_addr perm)
      else Some 1)"

definition range_perm :: "vmmap option \<Rightarrow> 32 word \<Rightarrow> 32 word \<Rightarrow> nat \<Rightarrow> int option" where
  "range_perm pmap avaddr len perm = range_loop pmap avaddr (avaddr + len) perm"

definition copy_from_user :: "frames \<Rightarrow> vmmap option \<Rightarrow> byte list \<Rightarrow> 32 word \<Rightarrow> 32 word \<Rightarrow> (int \<times> byte list) option" where
  "copy_from_user fr pmap kaddr uaddr nbytes = do {
     ok \<leftarrow> range_perm pmap uaddr nbytes PROT_READ;
     if ok = 0 then Some (- EFAULT, kaddr)
     else do { mp \<leftarrow> pmap; vmmap_read fr mp uaddr kaddr nbytes }
   }"

definition copy_to_user :: "frames \<Rightarrow> vmmap option \<Rightarrow> 32 word \<Rightarrow> byte list \<Rightarrow> 32 word \<Rightarrow> (frames \<times> int) option" where
  "copy_to_user fr pmap uaddr kaddr nbytes = do {
     ok \<leftarrow> range_perm pmap uaddr nbytes PROT_WRITE;
     if ok = 0 then Some (fr, - EFAULT)
     else do { mp \<leftarrow> pmap; vmmap_write fr mp uaddr kaddr nbytes }
   }"

text \<open>
  \<^verbatim>\<open>user_strdup\<close>: \<^verbatim>\<open>kbuf\<close> is the block that \<^verbatim>\<open>kmalloc\<close> returned, with what it holds.
  The result is the string, or the error left in \<^verbatim>\<open>kt_errno\<close>.
\<close>

definition user_strdup :: "frames \<Rightarrow> vmmap option \<Rightarrow> byte list option \<Rightarrow> 32 word \<Rightarrow> 32 word \<Rightarrow> (int + byte list) option" where
  "user_strdup fr pmap kbuf as_str as_len =
     (case kbuf of
        None \<Rightarrow> Some (Inl ENOMEM)
      | Some kstr \<Rightarrow> do {
          (ret, kstr) \<leftarrow> copy_from_user fr pmap kstr as_str (as_len + 1);
          Some (if ret < 0 then Inl (- ret) else Inr kstr)
        })"

section \<open>Changing the map\<close>

record ustate =
  us_map :: "vmmap option"
  us_brk :: "32 word"
  us_start_brk :: "32 word"
  us_pagedir :: "nat option"

definition PAGE_ALIGN_UP :: "32 word \<Rightarrow> 32 word" where
  "PAGE_ALIGN_UP x = ((x - 1) AND 0xFFFFF000) + PAGE_SIZE"

definition pages_of_len :: "32 word \<Rightarrow> 32 word" where
  "pages_of_len len = (if PAGE_SIZE \<le> len then ADDR_TO_PN len else len)"

text \<open>
  An open file is its vnode and its mode; \<^verbatim>\<open>spare\<close> says whether \<^verbatim>\<open>fget(-1)\<close> gets a
  file structure (which is never given back).  Reading \<^verbatim>\<open>p_files\<close> outside the array is undefined.
\<close>

definition do_mmap :: "map_env \<Rightarrow> (nat \<Rightarrow> (nat \<times> nat) option) \<Rightarrow> bool \<Rightarrow> 32 word \<Rightarrow> 32 word \<Rightarrow> nat \<Rightarrow> nat \<Rightarrow> int \<Rightarrow> 32 word \<Rightarrow> ustate
    \<Rightarrow> (int \<times> 32 word option \<times> ustate \<times> mm_event list) option" where
  "do_mmap env files spare addr len prot flags fd off s =
     (if \<not> PAGE_ALIGNED addr then Some (- EINVAL, None, s, [])
      else if \<not> (flags AND MAP_SHARED \<noteq> 0 \<or> flags AND MAP_PRIVATE \<noteq> 0 \<or> flags AND MAP_FIXED \<noteq> 0 \<or> flags AND MAP_ANON \<noteq> 0) then Some (EINVAL, None, s, [])
      else if flags AND MAP_SHARED \<noteq> 0 \<and> flags AND MAP_PRIVATE \<noteq> 0 then Some (EINVAL, None, s, [])
      else if flags AND MAP_ANON = 0 \<and> (fd < 0 \<or> fd > 32) then Some (EBADF, None, s, [])
      else do {
        KASSERT (0 \<le> fd \<and> fd < 32);
        (vn, mode) \<leftarrow> files (nat fd);
        if \<not> spare then Some (ENOMEM, None, s, [])
        else if mode AND 1 = 0 \<and> flags AND MAP_PRIVATE \<noteq> 0 then Some (EACCES, None, s, [])
        else do {
          mp \<leftarrow> us_map s;
          (mp, result, ret, es) \<leftarrow> vmmap_map env mp (Some vn) (ADDR_TO_PN addr) (pages_of_len len) prot flags off VMMAP_DIR_LOHI;
          KASSERT (us_pagedir s \<noteq> None);
          Some (result, ret, s\<lparr>us_map := Some mp\<rparr>, es)
        }
      })"

definition do_munmap :: "bool \<Rightarrow> (nat option \<Rightarrow> pn) \<Rightarrow> 32 word \<Rightarrow> 32 word \<Rightarrow> ustate \<Rightarrow> (int \<times> ustate \<times> mm_event list) option" where
  "do_munmap alloc junk addr len s =
     (if \<not> PAGE_ALIGNED addr then Some (- EINVAL, s, [])
      else do {
        mp \<leftarrow> us_map s;
        (mp, result, es) \<leftarrow> vmmap_remove alloc junk mp (ADDR_TO_PN addr) (pages_of_len len);
        let s = s\<lparr>us_map := Some mp\<rparr>;
        if result = 0 then Some (- EINVAL, s, es)
        else do { KASSERT (us_pagedir s \<noteq> None); Some (result, s, es) }
      })"

definition do_brk :: "map_env \<Rightarrow> 32 word \<Rightarrow> ustate \<Rightarrow> (int \<times> 32 word option \<times> ustate \<times> mm_event list) option" where
  "do_brk env addr s = do {
     mp \<leftarrow> us_map s;
     let old_vma = vmmap_lookup mp (ADDR_TO_PN (us_brk s));
     if addr = 0 then Some (0, Some (us_brk s), s, [])
     else if addr < us_start_brk s \<or> USER_MEM_HIGH < addr then Some (ENOMEM, None, s, [])
     else case old_vma of
       None \<Rightarrow> Some (- 1, None, s, [])
     | Some v \<Rightarrow>
         if ADDR_TO_PN addr < vma_end v then Some (0, Some addr, s, [])
         else do {
           let taddr = (if PAGE_ALIGNED addr then addr else PAGE_ALIGN_UP addr);
           (mp, _, _, es) \<leftarrow> vmmap_map env mp None (vma_end v) (ADDR_TO_PN taddr - vma_end v + 1) (vma_prot v) (vma_flags v) (vma_off v) VMMAP_DIR_LOHI;
           Some (0, Some addr, s\<lparr>us_map := Some mp, us_brk := addr\<rparr>, es)
         }
   }"

section \<open>What the checks let through\<close>

lemma range_loop_result: "range_loop pmap temp l perm = Some r \<Longrightarrow> r = 1"
  by (rule range_loop.raw_induct [where P = "\<lambda>pmap temp l perm r. r = 1"]) (auto split: if_splits)

lemma range_loop_end:
  assumes "addr_perm pmap temp perm = 0 \<or> l < temp"
  shows "range_loop pmap temp l perm = Some 1"
  using assms by (subst range_loop.simps) auto

text \<open>
  C40.  The permission check of user copies denies nothing: whenever \<^verbatim>\<open>range_perm\<close> returns, it
  returns 1.  In particular copying to an address in an area that may not be written stores there as if it
  might, and copying from one that may not be read returns what it holds.
\<close>

theorem user_copy_unprotected:
  assumes "vmmap_lookup mp (ADDR_TO_PN uaddr) = Some v"
  shows "(range_perm pmap a len perm = Some r \<longrightarrow> r = 1)
    \<and> (vma_prot v AND PROT_WRITE = 0 \<longrightarrow> copy_to_user fr (Some mp) uaddr buf n = vmmap_write fr mp uaddr buf n)
    \<and> (vma_prot v AND PROT_READ = 0 \<longrightarrow> copy_from_user fr (Some mp) buf uaddr n = vmmap_read fr mp uaddr buf n)"
proof (intro conjI impI)
  show "r = 1" if "range_perm pmap a len perm = Some r" using that range_loop_result by (simp add: range_perm_def)
  have one: "range_perm (Some mp) uaddr n perm = Some 1" if "vma_prot v AND perm = 0" for perm
    using range_loop_end [of "Some mp" uaddr perm] that assms by (simp add: range_perm_def addr_perm_def)
  show "copy_to_user fr (Some mp) uaddr buf n = vmmap_write fr mp uaddr buf n" if "vma_prot v AND PROT_WRITE = 0" using one [OF that] by (simp add: copy_to_user_def)
  show "copy_from_user fr (Some mp) buf uaddr n = vmmap_read fr mp uaddr buf n" if "vma_prot v AND PROT_READ = 0" using one [OF that] by (simp add: copy_from_user_def)
qed

definition read_only_map :: vmmap where
  "read_only_map = \<lparr>vmm_list = [\<lparr>vma_start = 0x500, vma_end = 0x510, vma_off = 0, vma_prot = 1, vma_flags = 2, vma_vmmap = True, vma_obj = Some 1\<rparr>], vmm_proc = None\<rparr>"

theorem user_copy_unprotected_witness:
  "\<exists>fr'. copy_to_user (\<lambda>_ _. Some [0, 0, 0, 0, 0, 0, 0, 0]) (Some read_only_map) 0x500002 [1, 2, 3] 3 = Some (fr', 0) \<and> fr' 1 0 = Some [0, 0, 1, 2, 3, 0, 0, 0]"
proof -
  let ?v = "\<lparr>vma_start = 0x500, vma_end = 0x510, vma_off = 0, vma_prot = 1, vma_flags = 2, vma_vmmap = True, vma_obj = Some 1\<rparr>"
  have "vmmap_lookup read_only_map (ADDR_TO_PN 0x500002) = Some ?v" by (simp add: vmmap_lookup_def read_only_map_def ADDR_TO_PN_def)
  note c = user_copy_unprotected [OF this, of None 0 0 1 0 "\<lambda>_ _. Some [0, 0, 0, 0, 0, 0, 0, 0]" "[1, 2, 3]" 3]
  obtain fr' where "vmmap_write (\<lambda>_ _. Some [0, 0, 0, 0, 0, 0, 0, 0]) read_only_map 0x500002 [1, 2, 3] 3 = Some (fr', 0)" "fr' 1 0 = Some [0, 0, 1, 2, 3, 0, 0, 0]"
    by (simp add: vmmap_write_def read_only_map_def vmmap_lookup_def ADDR_TO_PN_def PAGE_OFFSET_def loop_steps copy_in_def sint32)
  then show ?thesis using c by simp
qed

section \<open>The calls\<close>

text \<open>Unmapping something is reported by a result of 1, not of 0.\<close>

lemma do_munmap_result: "do_munmap alloc junk addr len s = Some (r, s', es) \<Longrightarrow> r = 1 \<or> r = - EINVAL"
  by (auto simp: do_munmap_def vmmap_remove_def bind_eq_Some_conv Let_def split: if_splits)

text \<open>A call of \<^verbatim>\<open>mmap\<close> for anonymous memory, with no descriptor, reads outside the table of open files.\<close>

lemma do_mmap_anon_undefined:
  assumes "PAGE_ALIGNED addr" and "flags = MAP_PRIVATE + MAP_ANON" and "fd < 0"
  shows "do_mmap env files spare addr len prot flags fd off s = None"
  using assms by (simp add: do_mmap_def)

text \<open>Moving the break within the area that holds it is not recorded: the old break is reported again.\<close>

lemma do_brk_within_forgets:
  assumes "us_map s = Some mp" and "vmmap_lookup mp (ADDR_TO_PN (us_brk s)) = Some v" and "ADDR_TO_PN addr < vma_end v"
    and "us_start_brk s \<le> addr" "addr \<le> USER_MEM_HIGH" "addr \<noteq> 0"
  shows "do_brk env addr s = Some (0, Some addr, s, [])" "do_brk env 0 s = Some (0, Some (us_brk s), s, [])"
  using assms by (auto simp: do_brk_def)

end
