(* ===== verification/Spec2Isabelle.thy ===== *)
theory Spec2Isabelle
imports KPrelude KList Sched Ktqueue Kmutex KProc Vmmap RamfsProps VfsSafe KString PageProps PframeProps KDivision UserMem
begin

text \<open>
  A verification of the Weenix kernel, release 1.0.7, as completed in this repository.  All paths
  are relative to \<^verbatim>\<open>weenix/kernel\<close>.

  \<^bold>\<open>The program.\<close>  Weenix is a small Unix kernel for one processor.  Kernel threads
  are switched cooperatively by the scheduler (\<^verbatim>\<open>proc/sched.c\<close>), synchronise with mutexes
  (\<^verbatim>\<open>proc/kmutex.c\<close>) and belong to processes (\<^verbatim>\<open>proc/proc.c\<close>,
  \<^verbatim>\<open>proc/kthread.c\<close>) that form a tree.  System calls on files (\<^verbatim>\<open>fs/vfs_syscall.c\<close>,
  \<^verbatim>\<open>fs/open.c\<close>, \<^verbatim>\<open>fs/file.c\<close>) resolve path names (\<^verbatim>\<open>fs/namev.c\<close>) to
  reference-counted vnodes (\<^verbatim>\<open>fs/vnode.c\<close>), which a file system (\<^verbatim>\<open>fs/ramfs/ramfs.c\<close>)
  or the device tables (\<^verbatim>\<open>drivers/bytedev.c\<close>, \<^verbatim>\<open>drivers/blockdev.c\<close>) implement.
  An address space is a list of areas (\<^verbatim>\<open>vm/vmmap.c\<close>) over memory objects
  (\<^verbatim>\<open>vm/anon.c\<close>, \<^verbatim>\<open>vm/shadow.c\<close>) whose pages are kept in page frames
  (\<^verbatim>\<open>mm/pframe.c\<close>), which come from the page allocator (\<^verbatim>\<open>mm/page.c\<close>).  Intrusive lists
  (\<^verbatim>\<open>include/util/list.h\<close>), string functions (\<^verbatim>\<open>util/string.c\<close>) and 64-bit
  division (\<^verbatim>\<open>util/math.c\<close>) serve all of it.

  \<^bold>\<open>Conventions.\<close>  State is passed explicitly in records named after the structures
  of the source.  \<^verbatim>\<open>KPrelude\<close> has the option monad: a failed \<^verbatim>\<open>KASSERT\<close>, a panic, following NULL or a pointer
  to freed memory, and a call that never returns are \<^const>\<open>None\<close>; a negative
  \<^verbatim>\<open>errno\<close> is an integer inside \<^const>\<open>Some\<close>.  Numbers whose wrap-around matters
  are words of their width.  What the model does not contain, such as the outcomes of slab allocations or the routines of
  device drivers, is an argument of the definitions that use it.  Objects are named
  by numbers; where an object can be freed its name is not used again, so that a later use is \<^const>\<open>None\<close>.

  \<^bold>\<open>Theories.\<close>

  \<^item> \<^verbatim>\<open>KList\<close>: the macros of \<^verbatim>\<open>list.h\<close> on a heap of links, each shown to do what it
    stands for on the list an anchor represents.  The locale \<^verbatim>\<open>ring\<close> is the interface its
    clients use; the macros are its interpretation.  Iteration carries fuel, because the
    body may change the links it follows; one unit more than the list is long is enough (C4).

  \<^item> \<^verbatim>\<open>Sched\<close>: thread queues, sleeping, waking, cancelling and the context switch, with
    queues as lists; a switched-out thread records where it resumes and its interrupt level.
    \<^verbatim>\<open>Ktqueue\<close> is the same queue code on the pointers of \<^verbatim>\<open>KList\<close>, and a simulation carries
    over what is proved of the lists (C3).  \<^verbatim>\<open>Kmutex\<close> adds mutexes; a
    step relation covers every interleaving of calls and interrupts, and its
    invariant holds in every reachable state (C2).

  \<^item> \<^verbatim>\<open>KProc\<close>: the process table, pids, creation, exit with reparenting, waiting, killing, and the life of
    threads.  Calls into the file system and memory maps from \<^verbatim>\<open>proc_cleanup\<close> are an environment record.

  \<^item> \<^verbatim>\<open>Devices\<close>: device numbers and the two registration tables; the locale \<^verbatim>\<open>dev_table\<close> is
    what a table promises, interpreted for both.  \<^verbatim>\<open>Vnode\<close> and \<^verbatim>\<open>Ramfs\<close>: vnodes, inodes and the
    operations of the memory file system.  \<^verbatim>\<open>RamfsInv\<close> is its invariant, with link counts that cover
    the entries other than \<^verbatim>\<open>.\<close> and \<^verbatim>\<open>..\<close> as long as nobody unlinks those two (C17), and \<^verbatim>\<open>RamfsProps\<close> what its operations do.  \<^verbatim>\<open>Namev\<close>: the path
    walk, equal to looking up the components one by one (C18).
    \<^verbatim>\<open>Vfs\<close>: open files and the system calls of one process; \<^verbatim>\<open>VfsInv\<close> counts the
    references each part owns, and \<^verbatim>\<open>VfsSafe\<close> follows each call to every way out.  All but one give back
    what they take: \<^verbatim>\<open>do_mknod\<close> on a name that exists keeps a reference (C22), and a ledger of
    these is carried along.  With it every count is known exactly (C16); when it is empty a process
    that exits leaves nothing behind, and when it is not the shutdown panics (C15).  Left out of the sequences of
    calls is an unlink or rename that succeeds in removing \<^verbatim>\<open>.\<close> or \<^verbatim>\<open>..\<close>, which takes a
    removed directory whose parent is gone.

  \<^item> \<^verbatim>\<open>Page\<close>: the buddy allocator with its free lists and bitmaps.  \<^verbatim>\<open>PageInv\<close> has the invariant of
    one group of pages against a ghost set of held blocks, \<^verbatim>\<open>PageProps\<close> that of all groups
    and what callers rely on; single pages are offered through the locale \<^verbatim>\<open>page_source\<close>.  The
    properties C31 to C33 assume that every group is a whole number of blocks of the largest size, 128 pages
    (\<^verbatim>\<open>whole_groups\<close>); C34 shows what happens to a group with an odd number of pages.

  \<^item> \<^verbatim>\<open>Pframe\<close>: page frames, the resident page hash, anonymous and shadow objects, the page-out
    daemon.  \<^verbatim>\<open>PframeInv\<close> has the invariant, built on \<^verbatim>\<open>page_source\<close>, and the
    inductive predicate \<^verbatim>\<open>sees\<close>: the contents an object shows through its chain of
    shadows.  \<^verbatim>\<open>PframeProps\<close> proves copy on write, the invariant of the states the calls lead to, and that
    paging out ends.  The predicate \<^verbatim>\<open>vm_run\<close> lists the calls; left out are \<^verbatim>\<open>pframe_migrate\<close> and the
    last \<^verbatim>\<open>put\<close> of a shadow object that has resident pages, which C38 is about.  Pages carry the
    bytes that poisoning writes when they are allocated and freed.  The mutual recursion of \<^verbatim>\<open>pframe_get\<close> and \<^verbatim>\<open>fillpage\<close> is cut at depth 2: the inner
    call is for the last object of the chain, which shadows nothing, and
    \<^verbatim>\<open>pframe_get_ok\<close> shows that it returns.  The recursion of \<^verbatim>\<open>put\<close> through \<^verbatim>\<open>pframe_free\<close>
    has one level for every reference, as each level drops one.

  \<^item> \<^verbatim>\<open>Vmmap\<close>: address space maps on 32-bit page numbers; what happens to memory objects is a list
    of events.  \<^verbatim>\<open>UserMem\<close>: permission checks, copying to and from user memory, \<^verbatim>\<open>mmap\<close>,
    \<^verbatim>\<open>munmap\<close> and \<^verbatim>\<open>brk\<close> on such a map.

  \<^item> \<^verbatim>\<open>KString\<close>: string functions on byte memory; \<^verbatim>\<open>KMath\<close> and \<^verbatim>\<open>KDivision\<close>: division of
    64-bit numbers digit by digit, which is shown to divide (C39).

  Loops that may run for ever are partial functions into the option type, and each claim that such a loop
  returns is proved as such: \<^verbatim>\<open>_proc_getid\<close> (C6), \<^verbatim>\<open>sched_broadcast_on\<close> (C10), \<^verbatim>\<open>strtok\<close>
  (C30), the walk down a chain of shadow objects (C35), the page-out daemon (C37), the estimate of a
  digit (C39).

  \<^bold>\<open>Where the code departs from its comments.\<close>  Some theorems state what the code does
  where that is not what it means to do: a cancelled lock that reports success (C12), \<^verbatim>\<open>do_waitpid\<close>
  with a pid (C13), the exit of init (C14), a reference lost by \<^verbatim>\<open>do_mknod\<close> (C22) that
  makes the shutdown panic (C15), ranges that stay mapped
  (C24), the last page of an odd group (C34), the last reference to a shadow object (C38), and the check of user
  addresses (C40).

  \<^bold>\<open>Not modelled.\<close>  The slab allocator: its results are arguments.  Page tables, the
  page fault handler, \<^verbatim>\<open>fork\<close>, \<^verbatim>\<open>exec\<close> and program loading: they live on cr3, temporary mappings of
  physical pages, register frames and stacks.  System call dispatch decodes trap frames.  The s5 file
  system, the terminal line discipline and the disk driver have no bodies in the sources (a library is linked
  for them); multiple threads per process, mounting, \<^verbatim>\<open>getcwd\<close> and the shadow daemon are
  compiled out.  Boot code, descriptor tables, interrupt controllers, keyboard and screen are port and memory-mapped
  I/O.  Formatted output, the kernel shell and the tests only report.  Programs and libraries under \<^verbatim>\<open>user\<close>,
  and the tools, are outside the kernel.  Within modelled parts: threads do not interleave inside a file system call, frames are not
  waited for, TLB flushes and debugging output are left out.
\<close>

end
